(* ===== verification/Prelude.thy ===== *)
theory Prelude
  imports Main "HOL-Library.Word"
begin

text \<open>
  What every component of the development shares: names for the machine integers of the
  C code, the linear scan over the slots of a fixed-size array (the shape of every table
  search in the sources), counting over lists that are updated by index, and the
  collections of simplification rules the component proofs are run with.
\<close>

section \<open>Names\<close>

type_synonym u8 = "8 word"
type_synonym u16 = "16 word"
type_synonym u32 = "32 word"
type_synonym u64 = "64 word"
type_synonym byte = u8

named_theorems table_simps \<open>reading and writing the fixed-size tables\<close>
named_theorems step_simps \<open>the definitions of the atomic steps of a component\<close>
named_theorems inv_simps \<open>the conjuncts of the component invariants\<close>

section \<open>Scanning a fixed-size array\<close>

text \<open>
  \<open>first_from P n i\<close> is the loop \<^verbatim>\<open>for (; i < n; i++) if (P(i)) return i;\<close>
  with \<open>None\<close> for falling off its end.
\<close>

function first_from :: "(nat \<Rightarrow> bool) \<Rightarrow> nat \<Rightarrow> nat \<Rightarrow> nat option" where
  "first_from P n i =
     (if i < n then (if P i then Some i else first_from P n (Suc i)) else None)"
  by pat_completeness auto
termination
  by (relation "measure (\<lambda>(P, n, i). n - i)") auto

declare first_from.simps [simp del]

abbreviation first_in :: "(nat \<Rightarrow> bool) \<Rightarrow> nat \<Rightarrow> nat option" where
  "first_in P n \<equiv> first_from P n 0"

lemma first_from_hit [simp]: "i < n \<Longrightarrow> P i \<Longrightarrow> first_from P n i = Some i"
  by (subst first_from.simps) simp

lemma first_from_miss: "i < n \<Longrightarrow> \<not> P i \<Longrightarrow> first_from P n i = first_from P n (Suc i)"
  by (subst first_from.simps) simp

lemma first_from_end [simp]: "n \<le> i \<Longrightarrow> first_from P n i = None"
  by (subst first_from.simps) simp

lemma first_from_Some_iff:
  "first_from P n i = Some k \<longleftrightarrow> i \<le> k \<and> k < n \<and> P k \<and> (\<forall>j. i \<le> j \<longrightarrow> j < k \<longrightarrow> \<not> P j)"
proof (induction P n i rule: first_from.induct)
  case (1 P n i)
  consider (out) "n \<le> i" | (hit) "i < n" "P i" | (miss) "i < n" "\<not> P i"
    by linarith
  then show ?case
  proof cases
    case out
    then show ?thesis by auto
  next
    case hit
    then show ?thesis by (auto intro: antisym)
  next
    case miss
    with 1 have "first_from P n i = Some k \<longleftrightarrow>
        Suc i \<le> k \<and> k < n \<and> P k \<and> (\<forall>j. Suc i \<le> j \<longrightarrow> j < k \<longrightarrow> \<not> P j)"
      by (simp add: first_from_miss)
    with miss show ?thesis
      by (metis Suc_leD Suc_le_eq le_neq_implies_less)
  qed
qed

lemma first_from_None_iff:
  "first_from P n i = None \<longleftrightarrow> (\<forall>j. i \<le> j \<longrightarrow> j < n \<longrightarrow> \<not> P j)"
proof (induction P n i rule: first_from.induct)
  case (1 P n i)
  show ?case
  proof (cases "i < n \<and> \<not> P i")
    case True
    with 1 show ?thesis
      by (metis Suc_leD Suc_le_eq first_from_miss le_neq_implies_less)
  next
    case False
    then show ?thesis by (cases "i < n") auto
  qed
qed

lemma first_in_SomeD:
  "first_in P n = Some k \<Longrightarrow> k < n \<and> P k \<and> (\<forall>j<k. \<not> P j)"
  by (simp add: first_from_Some_iff)

lemma first_in_SomeI:
  "k < n \<Longrightarrow> P k \<Longrightarrow> (\<And>j. j < k \<Longrightarrow> \<not> P j) \<Longrightarrow> first_in P n = Some k"
  by (simp add: first_from_Some_iff)

lemma first_in_NoneD: "first_in P n = None \<Longrightarrow> j < n \<Longrightarrow> \<not> P j"
  by (simp add: first_from_None_iff)

lemma first_in_NoneI: "(\<And>j. j < n \<Longrightarrow> \<not> P j) \<Longrightarrow> first_in P n = None"
  by (simp add: first_from_None_iff)

lemma first_in_unique:
  assumes "k < n" and "P k" and only: "\<And>j. j < n \<Longrightarrow> P j \<Longrightarrow> j = k"
  shows "first_in P n = Some k"
proof (rule first_in_SomeI)
  fix j
  assume "j < k"
  with \<open>k < n\<close> have "j < n" "j \<noteq> k" by simp_all
  with only show "\<not> P j" by metis
qed fact+

lemma first_from_cong:
  "(\<And>j. j < n \<Longrightarrow> P j = Q j) \<Longrightarrow> first_from P n i = first_from Q n i"
proof (induction P n i rule: first_from.induct)
  case (1 P n i)
  then show ?case
    by (cases "i < n"; cases "P i") (simp_all add: first_from_miss)
qed

section \<open>Counting over lists updated by index\<close>

text \<open>The number of elements with a property, as an \<open>int\<close>, which C counters are.\<close>

definition count_if :: "('a \<Rightarrow> bool) \<Rightarrow> 'a list \<Rightarrow> int" where
  "count_if P xs = int (length (filter P xs))"

lemma count_if_Nil [simp]: "count_if P [] = 0"
  by (simp add: count_if_def)

lemma count_if_Cons [simp]: "count_if P (x # xs) = of_bool (P x) + count_if P xs"
  by (simp add: count_if_def)

lemma count_if_append [simp]: "count_if P (xs @ ys) = count_if P xs + count_if P ys"
  by (simp add: count_if_def)

lemma count_if_nonneg [simp]: "0 \<le> count_if P xs"
  by (simp add: count_if_def)

lemma count_if_le_length: "count_if P xs \<le> int (length xs)"
  by (simp add: count_if_def)

lemma count_if_update:
  "i < length xs \<Longrightarrow>
     count_if P (xs[i := x]) = count_if P xs - of_bool (P (xs ! i)) + of_bool (P x)"
proof (induction xs arbitrary: i)
  case Nil
  then show ?case by simp
next
  case (Cons y ys)
  then show ?case by (cases i) auto
qed

lemma count_if_zero_iff: "count_if P xs = 0 \<longleftrightarrow> (\<forall>i<length xs. \<not> P (xs ! i))"
  by (simp add: count_if_def filter_empty_conv all_set_conv_all_nth)

lemma count_if_zeroD: "count_if P xs = 0 \<Longrightarrow> i < length xs \<Longrightarrow> \<not> P (xs ! i)"
  by (simp add: count_if_zero_iff)

lemma count_if_pos: "i < length xs \<Longrightarrow> P (xs ! i) \<Longrightarrow> 0 < count_if P xs"
  by (metis count_if_nonneg count_if_zeroD order_le_less)

lemma count_if_map: "(\<And>x. x \<in> set xs \<Longrightarrow> P (f x) = P x) \<Longrightarrow> count_if P (map f xs) = count_if P xs"
  by (induction xs) auto

lemma count_if_cong: "(\<And>x. x \<in> set xs \<Longrightarrow> P x = Q x) \<Longrightarrow> count_if P xs = count_if Q xs"
  by (induction xs) auto

lemma count_if_replicate [simp]: "count_if P (replicate n x) = (if P x then int n else 0)"
  by (induction n) auto

section \<open>C arrays as lists\<close>

lemma nth_update_eq [simp]:
  "i < length xs \<Longrightarrow> j < length xs \<Longrightarrow> xs[i := x] ! j = (if j = i then x else xs ! j)"
  by (auto simp: nth_list_update)

lemma list_update_cases:
  "j < length (xs[i := x]) \<Longrightarrow> (j = i \<Longrightarrow> P x) \<Longrightarrow> (j \<noteq> i \<Longrightarrow> P (xs ! j)) \<Longrightarrow> P (xs[i := x] ! j)"
  by (cases "j = i") auto

section \<open>Machine integers\<close>

lemma unat_word_Suc:
  fixes w :: "'a::len word"
  assumes "w + 1 \<noteq> 0"
  shows "unat (w + 1) = unat w + 1"
  using assms unatSuc [of w] by (simp add: add.commute)

lemma word_self_less_Suc: "w + 1 \<noteq> 0 \<Longrightarrow> (w :: 'a::len word) < w + 1"
  by (simp add: word_less_nat_alt unat_word_Suc)

lemma word_less_Suc: "v < w \<Longrightarrow> w + 1 \<noteq> 0 \<Longrightarrow> (v :: 'a::len word) < w + 1"
  using word_self_less_Suc less_trans by blast

lemma option_eqI: "(\<And>x. m = Some x \<longleftrightarrow> n = Some x) \<Longrightarrow> m = n"
  by (cases m; cases n) auto

end
