(* ===== verification/Pproc.thy ===== *)
theory Pproc
  imports Prelude
begin

text \<open>
  The process table of \<^verbatim>\<open>native/pseudoproc/pproc.c\<close>: the slot record, the
  globals, and the parts of the API that read and write them under the lock. The thread
  side (trampolines, waiting, the interleavings) is in \<^verbatim>\<open>PprocThreads\<close>.

  A \<^verbatim>\<open>struct pproc *\<close> is the index of its slot. A thread handle is a number.
  The condition variables have no data of their own: who is blocked on them is part of the
  thread states. Strings are owned copies, so copying one is passing it on; allocation
  is taken to succeed, since the code does not look at the results of
  \<^verbatim>\<open>strdup\<close>, \<^verbatim>\<open>calloc\<close> and \<^verbatim>\<open>malloc\<close>.
\<close>

section \<open>Data\<close>

type_synonym tid = nat
type_synonym code_ptr = nat

abbreviation MAX_PPROCS :: nat where
  "MAX_PPROCS \<equiv> 256"

abbreviation PPROC_INVALID_PID :: u32 where
  "PPROC_INVALID_PID \<equiv> 0"

datatype pproc_state = SLOT_FREE | PROC_RUNNING | PROC_EXITED

record pproc =
  p_pid :: u32
  p_name :: "string option"
  p_argc :: int
  p_argv :: "string option list"
  p_entry :: "code_ptr option"
  p_main_thread :: tid
  p_state :: pproc_state
  p_exit_code :: int
  p_exit_requested :: bool
  p_aux_threads :: int

record pglobals =
  table :: "pproc list"
  next_pid :: u32
  live :: int
  initialized :: bool

text \<open>What \<^verbatim>\<open>memset(p, 0, sizeof *p)\<close> leaves, and the globals at program start.\<close>

definition zero_pproc :: pproc where
  "zero_pproc = \<lparr>p_pid = 0, p_name = None, p_argc = 0, p_argv = [], p_entry = None,
     p_main_thread = 0, p_state = SLOT_FREE, p_exit_code = 0, p_exit_requested = False,
     p_aux_threads = 0\<rparr>"

definition zero_globals :: pglobals where
  "zero_globals = \<lparr>table = replicate MAX_PPROCS zero_pproc, next_pid = 0, live = 0,
     initialized = False\<rparr>"

definition slot :: "pglobals \<Rightarrow> nat \<Rightarrow> pproc" where
  "slot G i = table G ! i"

definition set_slot :: "nat \<Rightarrow> pproc \<Rightarrow> pglobals \<Rightarrow> pglobals" where
  "set_slot i p G = G\<lparr>table := (table G)[i := p]\<rparr>"

section \<open>Operations on the table\<close>

definition find_locked :: "pglobals \<Rightarrow> u32 \<Rightarrow> nat option" where
  "find_locked G pid =
     first_in (\<lambda>i. p_state (slot G i) \<noteq> SLOT_FREE \<and> p_pid (slot G i) = pid) MAX_PPROCS"

definition free_slot_locked :: "nat \<Rightarrow> pglobals \<Rightarrow> pglobals" where
  "free_slot_locked i G = set_slot i (zero_pproc\<lparr>p_state := SLOT_FREE\<rparr>) G"

definition pproc_init :: "bool \<Rightarrow> pglobals \<Rightarrow> int \<times> pglobals" where
  "pproc_init key_create_fails G =
     (if initialized G then (0, G)
      else if key_create_fails then (-1, G)
      else (0, G\<lparr>next_pid := 1, initialized := True\<rparr>))"

text \<open>
  The guards of \<^verbatim>\<open>pproc_spawn\<close> and its search for a free slot; \<open>None\<close> stands
  for the two early returns.
\<close>

definition spawn_slot :: "code_ptr option \<Rightarrow> int \<Rightarrow> pglobals \<Rightarrow> nat option" where
  "spawn_slot en ac G =
     (if \<not> initialized G \<or> en = None \<or> ac < 0 then None
      else first_in (\<lambda>i. p_state (slot G i) = SLOT_FREE) MAX_PPROCS)"

text \<open>
  \<open>created\<close> is what \<^verbatim>\<open>pthread_create\<close> did: \<open>None\<close> when it failed, else the new
  thread. \<open>argv\<close> holds at least \<open>argc\<close> strings, as the caller promises; the copy is
  NULL-terminated.
\<close>

definition new_pproc ::
  "string option \<Rightarrow> code_ptr option \<Rightarrow> int \<Rightarrow> string list \<Rightarrow> u32 \<Rightarrow> tid \<Rightarrow> pproc" where
  "new_pproc nm en ac av pid mt =
     \<lparr>p_pid = pid,
      p_name = Some (case nm of None \<Rightarrow> ''(anonymous)'' | Some n \<Rightarrow> n),
      p_argc = ac,
      p_argv = map Some (take (nat ac) av) @ [None],
      p_entry = en,
      p_main_thread = mt,
      p_state = PROC_RUNNING,
      p_exit_code = -1,
      p_exit_requested = False,
      p_aux_threads = 0\<rparr>"

definition pproc_spawn ::
  "string option \<Rightarrow> code_ptr option \<Rightarrow> int \<Rightarrow> string list \<Rightarrow> tid option \<Rightarrow> pglobals \<Rightarrow>
     u32 \<times> pglobals" where
  "pproc_spawn nm en ac av created G =
     (case spawn_slot en ac G of
        None \<Rightarrow> (PPROC_INVALID_PID, G)
      | Some i \<Rightarrow>
          let pid = next_pid G;
              G1 = set_slot i (new_pproc nm en ac av pid (p_main_thread (slot G i)))
                     (G\<lparr>next_pid := next_pid G + 1\<rparr>)
          in (case created of
                None \<Rightarrow> (PPROC_INVALID_PID, free_slot_locked i G1)
              | Some t \<Rightarrow>
                  (pid, (set_slot i (new_pproc nm en ac av pid t) G1)\<lparr>live := live G1 + 1\<rparr>)))"

definition pproc_count :: "pglobals \<Rightarrow> int" where
  "pproc_count G = (if initialized G then live G else 0)"

section \<open>Reading the table after an update\<close>

lemma table_zero_globals [simp]: "length (table zero_globals) = MAX_PPROCS"
  by (simp add: zero_globals_def)

lemma slot_zero_globals [simp]: "i < MAX_PPROCS \<Longrightarrow> slot zero_globals i = zero_pproc"
  by (simp add: slot_def zero_globals_def)

lemma zero_pproc_sel [simp]:
  "p_state zero_pproc = SLOT_FREE" "p_aux_threads zero_pproc = 0" "p_pid zero_pproc = 0"
  "p_exit_requested zero_pproc = False"
  by (simp_all add: zero_pproc_def)

lemma new_pproc_sel [simp]:
  "p_state (new_pproc nm en ac av pid mt) = PROC_RUNNING"
  "p_aux_threads (new_pproc nm en ac av pid mt) = 0"
  "p_pid (new_pproc nm en ac av pid mt) = pid"
  "p_main_thread (new_pproc nm en ac av pid mt) = mt"
  "p_exit_requested (new_pproc nm en ac av pid mt) = False"
  "p_exit_code (new_pproc nm en ac av pid mt) = -1"
  by (simp_all add: new_pproc_def)

lemma set_slot_sel [simp]:
  "next_pid (set_slot i p G) = next_pid G"
  "live (set_slot i p G) = live G"
  "initialized (set_slot i p G) = initialized G"
  "length (table (set_slot i p G)) = length (table G)"
  by (simp_all add: set_slot_def)

lemma slot_set_slot [table_simps]:
  "i < length (table G) \<Longrightarrow> slot (set_slot i p G) j = (if j = i then p else slot G j)"
  by (simp add: slot_def set_slot_def nth_list_update)

lemma slot_upd [simp]:
  "slot (G\<lparr>next_pid := n\<rparr>) i = slot G i"
  "slot (G\<lparr>live := l\<rparr>) i = slot G i"
  "slot (G\<lparr>initialized := b\<rparr>) i = slot G i"
  by (simp_all add: slot_def)

lemma set_slot_upd [simp]:
  "set_slot i p (G\<lparr>next_pid := n\<rparr>) = (set_slot i p G)\<lparr>next_pid := n\<rparr>"
  "set_slot i p (set_slot i q G) = set_slot i p G"
  by (simp_all add: set_slot_def)

lemma free_slot_locked_eq [table_simps]: "free_slot_locked i G = set_slot i zero_pproc G"
  by (simp add: free_slot_locked_def zero_pproc_def)

text \<open>What the scan results mean.\<close>

lemma find_locked_SomeD:
  "find_locked G pid = Some i \<Longrightarrow>
     i < MAX_PPROCS \<and> p_state (slot G i) \<noteq> SLOT_FREE \<and> p_pid (slot G i) = pid"
  unfolding find_locked_def by (drule first_in_SomeD) simp

lemma find_locked_NoneD:
  "find_locked G pid = None \<Longrightarrow> i < MAX_PPROCS \<Longrightarrow> p_state (slot G i) \<noteq> SLOT_FREE \<Longrightarrow>
     p_pid (slot G i) \<noteq> pid"
  unfolding find_locked_def using first_in_NoneD by blast

lemma spawn_slot_SomeD:
  "spawn_slot en ac G = Some i \<Longrightarrow>
     i < MAX_PPROCS \<and> p_state (slot G i) = SLOT_FREE \<and> initialized G \<and> en \<noteq> None \<and> 0 \<le> ac"
  by (auto simp: spawn_slot_def first_from_Some_iff split: if_splits)

lemma spawn_slot_None_iff:
  "spawn_slot en ac G = None \<longleftrightarrow>
     \<not> initialized G \<or> en = None \<or> ac < 0 \<or> (\<forall>i<MAX_PPROCS. p_state (slot G i) \<noteq> SLOT_FREE)"
  by (auto simp: spawn_slot_def first_from_None_iff)

text \<open>The two outcomes of a spawn that found a slot, and the one that found none.\<close>

lemma pproc_spawn_refused:
  "spawn_slot en ac G = None \<Longrightarrow> pproc_spawn nm en ac av created G = (PPROC_INVALID_PID, G)"
  by (simp add: pproc_spawn_def)

lemma pproc_spawn_created:
  "spawn_slot en ac G = Some i \<Longrightarrow>
     pproc_spawn nm en ac av (Some t) G =
       (next_pid G,
        (set_slot i (new_pproc nm en ac av (next_pid G) t) G)
          \<lparr>next_pid := next_pid G + 1, live := live G + 1\<rparr>)"
  by (simp add: pproc_spawn_def Let_def)

lemma pproc_spawn_thread_failed:
  "spawn_slot en ac G = Some i \<Longrightarrow>
     pproc_spawn nm en ac av None G =
       (PPROC_INVALID_PID, (set_slot i zero_pproc G)\<lparr>next_pid := next_pid G + 1\<rparr>)"
  by (simp add: pproc_spawn_def Let_def table_simps)

end
