(* ===== verification/Machines.thy ===== *)
theory Machines
  imports Prelude
begin

text \<open>
  Labelled step relations, their executions, and the two contracts the state machines of
  the development are proved against: \<open>machine\<close>, an invariant that holds at the start
  and that every step keeps, and \<open>simulation\<close>, an abstract machine that takes a step
  whenever the concrete one does.
\<close>

inductive execution :: "('s \<Rightarrow> 'l \<Rightarrow> 's \<Rightarrow> bool) \<Rightarrow> 's \<Rightarrow> 'l list \<Rightarrow> 's \<Rightarrow> bool" for step where
  stop: "execution step s [] s"
| move: "step s l t \<Longrightarrow> execution step t ls u \<Longrightarrow> execution step s (l # ls) u"

inductive_simps execution_Nil [simp]: "execution step s [] t"
inductive_simps execution_Cons: "execution step s (l # ls) t"

lemma execution_one: "step s l t \<Longrightarrow> execution step s [l] t"
  by (simp add: execution_Cons)

lemma execution_append:
  "execution step s (ks @ ls) u \<longleftrightarrow> (\<exists>t. execution step s ks t \<and> execution step t ls u)"
  by (induction ks arbitrary: s) (auto simp: execution_Cons)

lemma execution_snoc:
  "execution step s ls t \<Longrightarrow> step t l u \<Longrightarrow> execution step s (ls @ [l]) u"
  by (auto simp: execution_append intro: execution_one)

locale machine =
  fixes start :: "'s \<Rightarrow> bool"
    and step :: "'s \<Rightarrow> 'l \<Rightarrow> 's \<Rightarrow> bool"
    and inv :: "'s \<Rightarrow> bool"
  assumes inv_start: "start s \<Longrightarrow> inv s"
    and inv_step: "inv s \<Longrightarrow> step s l t \<Longrightarrow> inv t"
begin

lemma execution_inv: "execution step s ls t \<Longrightarrow> inv s \<Longrightarrow> inv t"
  by (induction rule: execution.induct) (auto intro: inv_step)

lemma reachable_inv: "start s \<Longrightarrow> execution step s ls t \<Longrightarrow> inv t"
  by (blast intro: execution_inv inv_start)

text \<open>What steps keep under the invariant, executions keep.\<close>

lemma execution_stable:
  assumes "\<And>s l t. inv s \<Longrightarrow> P s \<Longrightarrow> step s l t \<Longrightarrow> P t"
  shows "execution step s ls t \<Longrightarrow> inv s \<Longrightarrow> P s \<Longrightarrow> P t"
  by (induction rule: execution.induct) (auto intro: inv_step assms)

end

locale simulation = machine start step inv
  for start :: "'s \<Rightarrow> bool" and step :: "'s \<Rightarrow> 'l \<Rightarrow> 's \<Rightarrow> bool" and inv :: "'s \<Rightarrow> bool" +
  fixes abs :: "'s \<Rightarrow> 'a"
    and astart :: "'a \<Rightarrow> bool"
    and astep :: "'a \<Rightarrow> 'l \<Rightarrow> 'a \<Rightarrow> bool"
  assumes sim_start: "start s \<Longrightarrow> astart (abs s)"
    and sim_step: "inv s \<Longrightarrow> step s l t \<Longrightarrow> astep (abs s) l (abs t)"
begin

lemma execution_sim: "execution step s ls t \<Longrightarrow> inv s \<Longrightarrow> execution astep (abs s) ls (abs t)"
  by (induction rule: execution.induct) (auto intro: execution.intros sim_step inv_step)

lemma reachable_sim:
  "start s \<Longrightarrow> execution step s ls t \<Longrightarrow> astart (abs s) \<and> execution astep (abs s) ls (abs t)"
  by (blast intro: sim_start execution_sim inv_start)

end

end
