(* ===== verification/PprocThreads.thy ===== *)
theory PprocThreads
  imports Pproc Machines
begin

text \<open>
  The threads of \<^verbatim>\<open>native/pseudoproc/pproc.c\<close>. Every access to shared state in that
  file sits in a critical section of \<^verbatim>\<open>g.lock\<close>, so one step of the machine is one
  critical section, or one event between two of them (a thread is created, a join
  returns). A thread's program point says in which API call it is and what comes next.
  Waiting on a condition variable releases the lock: the thread stays at its loop with a
  flag that a broadcast sets; a wake-up, real or spurious, runs the loop test again.
\<close>

section \<open>Threads\<close>

text \<open>
  Which trampoline a thread came from. \<open>pthread_setspecific(g.current, p)\<close> is the first
  thing both trampolines do, so the role also gives the thread-local pointer.
\<close>

datatype role = Host | MainOf nat | AuxOf nat

datatype pc =
    PUser \<comment> \<open>in user code: host main, the entry, or an auxiliary function\<close>
  | PCreate \<comment> \<open>\<open>pproc_thread_create\<close>: counted, \<open>pthread_create\<close> comes next\<close>
  | PCreateFailed \<comment> \<open>\<open>pthread_create\<close> failed, the count is taken back next\<close>
  | PDrain bool \<comment> \<open>blocked on \<open>aux_done\<close>; the flag: signalled\<close>
  | PWait nat bool \<comment> \<open>\<open>pproc_wait\<close>: blocked on \<open>state_changed\<close> for a slot\<close>
  | PJoin nat tid \<comment> \<open>\<open>pproc_wait\<close>: in \<open>pthread_join\<close>\<close>
  | PReap nat \<comment> \<open>\<open>pproc_wait\<close>: joined, the second critical section next\<close>
  | PLeaving \<comment> \<open>past its last critical section\<close>
  | PDead \<comment> \<open>ended\<close>

datatype retv = RNone | RPid u32 | RInt int

record thr =
  t_role :: role
  t_pc :: pc
  t_ret :: retv \<comment> \<open>what the last API call of the thread returned\<close>

record sys =
  g :: pglobals
  threads :: "thr list"

fun current :: "thr \<Rightarrow> nat option" where
  "current x = (case t_role x of Host \<Rightarrow> None | MainOf i \<Rightarrow> Some i | AuxOf i \<Rightarrow> Some i)"

definition new_thread :: "role \<Rightarrow> thr" where
  "new_thread r = \<lparr>t_role = r, t_pc = PUser, t_ret = RNone\<rparr>"

abbreviation thr_of :: "sys \<Rightarrow> tid \<Rightarrow> thr" where
  "thr_of s t \<equiv> threads s ! t"

abbreviation sl :: "sys \<Rightarrow> nat \<Rightarrow> pproc" where
  "sl s i \<equiv> slot (g s) i"

definition set_thr :: "tid \<Rightarrow> thr \<Rightarrow> sys \<Rightarrow> sys" where
  "set_thr t x s = s\<lparr>threads := (threads s)[t := x]\<rparr>"

definition goto :: "tid \<Rightarrow> pc \<Rightarrow> sys \<Rightarrow> sys" where
  "goto t c s = set_thr t ((thr_of s t)\<lparr>t_pc := c\<rparr>) s"

definition return :: "tid \<Rightarrow> retv \<Rightarrow> sys \<Rightarrow> sys" where
  "return t r s = set_thr t ((thr_of s t)\<lparr>t_pc := PUser, t_ret := r\<rparr>) s"

definition upd_sl :: "nat \<Rightarrow> (pproc \<Rightarrow> pproc) \<Rightarrow> sys \<Rightarrow> sys" where
  "upd_sl i f s = s\<lparr>g := set_slot i (f (sl s i)) (g s)\<rparr>"

text \<open>The two broadcasts.\<close>

definition wake_state :: "thr \<Rightarrow> thr" where
  "wake_state x = (case t_pc x of PWait i _ \<Rightarrow> x\<lparr>t_pc := PWait i True\<rparr> | _ \<Rightarrow> x)"

definition wake_aux :: "nat \<Rightarrow> thr \<Rightarrow> thr" where
  "wake_aux i x =
     (case t_pc x of
        PDrain _ \<Rightarrow> if current x = Some i then x\<lparr>t_pc := PDrain True\<rparr> else x
      | _ \<Rightarrow> x)"

definition broadcast :: "(thr \<Rightarrow> thr) \<Rightarrow> sys \<Rightarrow> sys" where
  "broadcast w s = s\<lparr>threads := map w (threads s)\<rparr>"

section \<open>The critical sections\<close>

definition request_exit :: "nat \<Rightarrow> int \<Rightarrow> sys \<Rightarrow> sys" where
  "request_exit i code =
     upd_sl i (\<lambda>p. if \<not> p_exit_requested p then p\<lparr>p_exit_code := code, p_exit_requested := True\<rparr>
                   else p)"

text \<open>\<^verbatim>\<open>while (p->aux_threads > 0) wait; p->state = PROC_EXITED; broadcast\<close>\<close>

definition drain_loop :: "nat \<Rightarrow> tid \<Rightarrow> sys \<Rightarrow> sys" where
  "drain_loop i t s =
     (if p_aux_threads (sl s i) > 0 then goto t (PDrain False) s
      else goto t PLeaving
             (broadcast wake_state (upd_sl i (\<lambda>p. p\<lparr>p_state := PROC_EXITED\<rparr>) s)))"

text \<open>\<^verbatim>\<open>if (--p->aux_threads == 0) pthread_cond_broadcast(&p->aux_done)\<close>\<close>

definition drop_aux :: "nat \<Rightarrow> sys \<Rightarrow> sys" where
  "drop_aux i s =
     (let s1 = upd_sl i (\<lambda>p. p\<lparr>p_aux_threads := p_aux_threads p - 1\<rparr>) s
      in if p_aux_threads (sl s1 i) = 0 then broadcast (wake_aux i) s1 else s1)"

definition main_epilogue :: "nat \<Rightarrow> tid \<Rightarrow> int \<Rightarrow> sys \<Rightarrow> sys" where
  "main_epilogue i t code s = drain_loop i t (request_exit i code s)"

definition aux_epilogue :: "nat \<Rightarrow> tid \<Rightarrow> sys \<Rightarrow> sys" where
  "aux_epilogue i t s = goto t PLeaving (drop_aux i s)"

text \<open>A thread's function returns to its trampoline (a host thread just ends).\<close>

definition return_op :: "tid \<Rightarrow> int \<Rightarrow> sys \<Rightarrow> sys" where
  "return_op t code s =
     (case t_role (thr_of s t) of
        Host \<Rightarrow> goto t PLeaving s
      | MainOf i \<Rightarrow> main_epilogue i t code s
      | AuxOf i \<Rightarrow> aux_epilogue i t s)"

definition exit_op :: "tid \<Rightarrow> int \<Rightarrow> sys \<Rightarrow> sys" where
  "exit_op t code s =
     (case current (thr_of s t) of
        None \<Rightarrow> goto t PLeaving s
      | Some i \<Rightarrow>
          let s1 = request_exit i code s
          in if p_main_thread (sl s1 i) = t then drain_loop i t s1
             else goto t PLeaving (if p_aux_threads (sl s1 i) > 0 then drop_aux i s1 else s1))"

definition spawn_op ::
  "tid \<Rightarrow> string option \<Rightarrow> code_ptr option \<Rightarrow> int \<Rightarrow> string list \<Rightarrow> bool \<Rightarrow> sys \<Rightarrow> sys" where
  "spawn_op t nm en ac av ok s =
     (let created = (if ok then Some (length (threads s)) else None);
          (r, G') = pproc_spawn nm en ac av created (g s);
          started = (case spawn_slot en ac (g s) of
                       Some i \<Rightarrow> if ok then [new_thread (MainOf i)] else [] | None \<Rightarrow> [])
      in return t (RPid r) (s\<lparr>g := G', threads := threads s @ started\<rparr>))"

definition create_enter :: "tid \<Rightarrow> bool \<Rightarrow> sys \<Rightarrow> sys" where
  "create_enter t fn_nonnull s =
     (case current (thr_of s t) of
        None \<Rightarrow> return t (RInt (-1)) s
      | Some i \<Rightarrow>
          if \<not> fn_nonnull then return t (RInt (-1)) s
          else goto t PCreate (upd_sl i (\<lambda>p. p\<lparr>p_aux_threads := p_aux_threads p + 1\<rparr>) s))"

definition create_ok :: "tid \<Rightarrow> nat \<Rightarrow> sys \<Rightarrow> sys" where
  "create_ok t i s = return t (RInt 0) (s\<lparr>threads := threads s @ [new_thread (AuxOf i)]\<rparr>)"

definition create_undo :: "tid \<Rightarrow> nat \<Rightarrow> sys \<Rightarrow> sys" where
  "create_undo t i s = return t (RInt (-1)) (drop_aux i s)"

definition wait_loop :: "nat \<Rightarrow> tid \<Rightarrow> sys \<Rightarrow> sys" where
  "wait_loop i t s =
     (if p_state (sl s i) \<noteq> PROC_EXITED then goto t (PWait i False) s
      else goto t (PJoin i (p_main_thread (sl s i))) s)"

definition wait_op :: "tid \<Rightarrow> u32 \<Rightarrow> sys \<Rightarrow> sys" where
  "wait_op t pid s =
     (if \<not> initialized (g s) then return t (RInt (-1)) s
      else case find_locked (g s) pid of
             None \<Rightarrow> return t (RInt (-1)) s
           | Some i \<Rightarrow> wait_loop i t s)"

definition reap_op :: "tid \<Rightarrow> nat \<Rightarrow> sys \<Rightarrow> sys" where
  "reap_op t i s =
     (let code = p_exit_code (sl s i); G1 = free_slot_locked i (g s)
      in return t (RInt code) (s\<lparr>g := G1\<lparr>live := live G1 - 1\<rparr>\<rparr>))"

text \<open>The queries, which change nothing.\<close>

definition pproc_getpid :: "sys \<Rightarrow> tid \<Rightarrow> u32" where
  "pproc_getpid s t =
     (case (if initialized (g s) then current (thr_of s t) else None) of
        None \<Rightarrow> PPROC_INVALID_PID | Some i \<Rightarrow> p_pid (sl s i))"

definition pproc_getname :: "sys \<Rightarrow> tid \<Rightarrow> string option" where
  "pproc_getname s t =
     (case (if initialized (g s) then current (thr_of s t) else None) of
        None \<Rightarrow> None | Some i \<Rightarrow> p_name (sl s i))"

definition pproc_exiting :: "sys \<Rightarrow> tid \<Rightarrow> bool" where
  "pproc_exiting s t =
     (case (if initialized (g s) then current (thr_of s t) else None) of
        None \<Rightarrow> False | Some i \<Rightarrow> p_exit_requested (sl s i))"

section \<open>The step relation\<close>

datatype act =
    Spawn "string option" "code_ptr option" int "string list" bool
  | ThreadCreate bool | CreateOk | CreateErr | CreateUndo
  | Return int | Exit int | Wait u32 | Wake | Join | Reap | End

abbreviation at :: "sys \<Rightarrow> tid \<Rightarrow> pc \<Rightarrow> bool" where
  "at s t c \<equiv> t < length (threads s) \<and> t_pc (thr_of s t) = c"

inductive pstep :: "sys \<Rightarrow> tid \<Rightarrow> act \<Rightarrow> sys \<Rightarrow> bool" where
  spawn: "at s t PUser \<Longrightarrow> pstep s t (Spawn nm en ac av ok) (spawn_op t nm en ac av ok s)"
| create_enter: "at s t PUser \<Longrightarrow> pstep s t (ThreadCreate fn) (create_enter t fn s)"
| create_ok: "at s t PCreate \<Longrightarrow> current (thr_of s t) = Some i \<Longrightarrow>
    pstep s t CreateOk (create_ok t i s)"
| create_err: "at s t PCreate \<Longrightarrow> pstep s t CreateErr (goto t PCreateFailed s)"
| create_undo: "at s t PCreateFailed \<Longrightarrow> current (thr_of s t) = Some i \<Longrightarrow>
    pstep s t CreateUndo (create_undo t i s)"
| return: "at s t PUser \<Longrightarrow> pstep s t (Return code) (return_op t code s)"
| exit: "at s t PUser \<Longrightarrow> pstep s t (Exit code) (exit_op t code s)"
| wait: "at s t PUser \<Longrightarrow> pstep s t (Wait pid) (wait_op t pid s)"
| wake_drain: "at s t (PDrain w) \<Longrightarrow> current (thr_of s t) = Some i \<Longrightarrow>
    pstep s t Wake (drain_loop i t s)"
| wake_wait: "at s t (PWait i w) \<Longrightarrow> pstep s t Wake (wait_loop i t s)"
| join: "at s t (PJoin i mt) \<Longrightarrow> at s mt PDead \<Longrightarrow> pstep s t Join (goto t (PReap i) s)"
| reap: "at s t (PReap i) \<Longrightarrow> pstep s t Reap (reap_op t i s)"
| ended: "at s t PLeaving \<Longrightarrow> pstep s t End (goto t PDead s)"

text \<open>Which steps an action admits, as rewriting rules: concrete runs are checked with these.\<close>

inductive_simps pstep_simps [step_simps]:
  "pstep s t (Spawn nm en ac av ok) s'"
  "pstep s t (ThreadCreate fn) s'"
  "pstep s t CreateOk s'"
  "pstep s t CreateErr s'"
  "pstep s t CreateUndo s'"
  "pstep s t (Return code) s'"
  "pstep s t (Exit code) s'"
  "pstep s t (Wait pid) s'"
  "pstep s t Wake s'"
  "pstep s t Join s'"
  "pstep s t Reap s'"
  "pstep s t End s'"

inductive_cases pstep_wakeE: "pstep s t Wake s'"
inductive_cases pstep_reapE: "pstep s t Reap s'"

text \<open>
  A host process with any number of threads of its own, right after \<open>pproc_init\<close>.
\<close>

definition start_sys :: "nat \<Rightarrow> sys" where
  "start_sys n = \<lparr>g = snd (pproc_init False zero_globals), threads = replicate n (new_thread Host)\<rparr>"

text \<open>
  Two rules of use that the API needs and does not check: a process has one waiter at a
  time, and no spawn after the 32-bit pid counter has wrapped to \<open>PPROC_INVALID_PID\<close>.
  \<open>waiting_on i\<close> is a thread inside \<open>pproc_wait\<close> for slot \<open>i\<close>.
\<close>

fun pc_waits :: "nat \<Rightarrow> pc \<Rightarrow> bool" where
  "pc_waits i (PWait j _) = (j = i)"
| "pc_waits i (PJoin j _) = (j = i)"
| "pc_waits i (PReap j) = (j = i)"
| "pc_waits i _ = False"

definition waiting_on :: "nat \<Rightarrow> thr \<Rightarrow> bool" where
  "waiting_on i x = pc_waits i (t_pc x)"

definition one_waiter :: "sys \<Rightarrow> act \<Rightarrow> bool" where
  "one_waiter s a =
     (case a of
        Wait pid \<Rightarrow> (case find_locked (g s) pid of
                       None \<Rightarrow> True | Some i \<Rightarrow> list_all (\<lambda>x. \<not> waiting_on i x) (threads s))
      | _ \<Rightarrow> True)"

definition no_wrap :: "sys \<Rightarrow> act \<Rightarrow> bool" where
  "no_wrap s a = (case a of Spawn _ _ _ _ _ \<Rightarrow> next_pid (g s) \<noteq> 0 | _ \<Rightarrow> True)"

text \<open>A step of the machine under the two rules, labelled with the thread and its action.\<close>

definition pfair :: "sys \<Rightarrow> tid \<times> act \<Rightarrow> sys \<Rightarrow> bool" where
  "pfair s l s' = (pstep s (fst l) (snd l) s' \<and> one_waiter s (snd l) \<and> no_wrap s (snd l))"

end
