(* ===== verification/PprocInv.thy ===== *)
theory PprocInv
  imports PprocThreads
begin

text \<open>
  The invariant of the pseudo-process layer and its preservation by every step.
  \<open>alive\<close> is a thread that may still touch its process's slot. The invariant says
  how the table and the threads agree: the auxiliary counter is the number of auxiliary
  threads (plus those being created), a live thread's process is running, a used slot has
  exactly its main thread, a waited-for slot is in use and has one waiter, no blocked
  thread has missed its wake-up, the live counter counts the used slots, and pids are
  distinct.
\<close>

section \<open>Reading the state after an update\<close>

lemma nth_upd_cases: "xs[i := x] ! j = (if j = i \<and> i < length xs then x else xs ! j)"
  by (cases "i < length xs") (auto simp: nth_list_update list_update_beyond)

lemma slot_set_slot_cases:
  "slot (set_slot i p G) j = (if j = i \<and> i < length (table G) then p else slot G j)"
  by (simp add: slot_def set_slot_def nth_upd_cases)

lemma set_thr_sel [simp]:
  "g (set_thr t x s) = g s" "length (threads (set_thr t x s)) = length (threads s)"
  "thr_of (set_thr t x s) u = (if u = t \<and> t < length (threads s) then x else thr_of s u)"
  by (simp_all add: set_thr_def nth_upd_cases)

lemmas move_defs = goto_def return_def

lemma upd_sl_sel [simp]:
  "threads (upd_sl i f s) = threads s"
  "length (table (g (upd_sl i f s))) = length (table (g s))"
  "live (g (upd_sl i f s)) = live (g s)"
  "next_pid (g (upd_sl i f s)) = next_pid (g s)"
  "initialized (g (upd_sl i f s)) = initialized (g s)"
  "sl (upd_sl i f s) j = (if j = i \<and> i < length (table (g s)) then f (sl s i) else sl s j)"
  by (simp_all add: upd_sl_def slot_set_slot_cases)

lemma broadcast_sel [simp]:
  "g (broadcast w s) = g s" "threads (broadcast w s) = map w (threads s)"
  by (simp_all add: broadcast_def)

lemma count_set_thr:
  "t < length (threads s) \<Longrightarrow> count_if P (threads (set_thr t x s)) =
     count_if P (threads s) - of_bool (P (thr_of s t)) + of_bool (P x)"
  by (simp add: set_thr_def count_if_update)

section \<open>Predicates on one thread\<close>

definition alive :: "thr \<Rightarrow> bool" where
  "alive x \<longleftrightarrow> t_pc x \<noteq> PLeaving \<and> t_pc x \<noteq> PDead"

definition aux_alive :: "nat \<Rightarrow> thr \<Rightarrow> bool" where
  "aux_alive i x \<longleftrightarrow> t_role x = AuxOf i \<and> alive x"

definition creating :: "nat \<Rightarrow> thr \<Rightarrow> bool" where
  "creating i x \<longleftrightarrow> current x = Some i \<and> (t_pc x = PCreate \<or> t_pc x = PCreateFailed)"

definition aux_total :: "nat \<Rightarrow> thr list \<Rightarrow> int" where
  "aux_total i ths = count_if (aux_alive i) ths + count_if (creating i) ths"

lemma wake_sel [simp]:
  "t_role (wake_state x) = t_role x" "t_role (wake_aux i x) = t_role x"
  "t_ret (wake_state x) = t_ret x" "t_ret (wake_aux i x) = t_ret x"
  by (simp_all add: wake_state_def wake_aux_def split: pc.splits)

lemma wake_pc_iff [simp]:
  "alive (wake_state x) = alive x" "alive (wake_aux i x) = alive x"
  "creating j (wake_state x) = creating j x" "creating j (wake_aux i x) = creating j x"
  "aux_alive j (wake_state x) = aux_alive j x" "aux_alive j (wake_aux i x) = aux_alive j x"
  "waiting_on j (wake_state x) = waiting_on j x" "waiting_on j (wake_aux i x) = waiting_on j x"
  by (auto simp: wake_state_def wake_aux_def alive_def creating_def aux_alive_def waiting_on_def
      split: pc.splits)

lemma wake_pc_eq [simp]:
  "t_pc (wake_state x) = PJoin i mt \<longleftrightarrow> t_pc x = PJoin i mt"
  "t_pc (wake_aux k x) = PJoin i mt \<longleftrightarrow> t_pc x = PJoin i mt"
  "t_pc (wake_state x) = PReap i \<longleftrightarrow> t_pc x = PReap i"
  "t_pc (wake_aux k x) = PReap i \<longleftrightarrow> t_pc x = PReap i"
  "t_pc (wake_state x) = PDead \<longleftrightarrow> t_pc x = PDead"
  "t_pc (wake_aux k x) = PDead \<longleftrightarrow> t_pc x = PDead"
  "t_pc (wake_state x) = PDrain b \<longleftrightarrow> t_pc x = PDrain b"
  "t_pc (wake_aux k x) = PWait i b \<longleftrightarrow> t_pc x = PWait i b"
  by (auto simp: wake_state_def wake_aux_def split: pc.splits)

lemma wake_pc_woken [simp]:
  "t_pc (wake_state x) = PWait i b \<longleftrightarrow> b \<and> (\<exists>c. t_pc x = PWait i c)"
  "t_pc (wake_aux k x) = PDrain b \<longleftrightarrow>
     (if current x = Some k then b \<and> (\<exists>c. t_pc x = PDrain c) else t_pc x = PDrain b)"
  by (auto simp: wake_state_def wake_aux_def split: pc.splits)

lemma aux_total_wake [simp]:
  "aux_total j (map wake_state ths) = aux_total j ths"
  "aux_total j (map (wake_aux i) ths) = aux_total j ths"
  by (simp_all add: aux_total_def count_if_map)

lemma aux_total_nonneg [simp]: "0 \<le> aux_total i ths"
  by (simp add: aux_total_def)

lemma aux_total_append [simp]:
  "aux_total i (ths @ [new_thread r]) = aux_total i ths + of_bool (r = AuxOf i)"
  by (simp add: aux_total_def aux_alive_def creating_def alive_def new_thread_def)

definition aux_weight :: "nat \<Rightarrow> thr \<Rightarrow> int" where
  "aux_weight i x = of_bool (aux_alive i x) + of_bool (creating i x)"

lemma aux_total_set_thr:
  "t < length (threads s) \<Longrightarrow> aux_total i (threads (set_thr t x s)) =
     aux_total i (threads s) - aux_weight i (thr_of s t) + aux_weight i x"
  by (simp add: aux_total_def aux_weight_def count_set_thr)

lemma aux_weight_pc:
  "aux_weight i x =
     of_bool (t_role x = AuxOf i \<and> t_pc x \<noteq> PLeaving \<and> t_pc x \<noteq> PDead)
     + of_bool (current x = Some i \<and> (t_pc x = PCreate \<or> t_pc x = PCreateFailed))"
  by (simp add: aux_weight_def aux_alive_def creating_def alive_def)

lemma aux_weight_wake [simp]:
  "aux_weight j (wake_state x) = aux_weight j x" "aux_weight j (wake_aux i x) = aux_weight j x"
  by (simp_all add: aux_weight_def)

lemma aux_weight_le: "t < length ths \<Longrightarrow> aux_weight i (ths ! t) \<le> aux_total i ths"
proof -
  assume t: "t < length ths"
  have "of_bool (P (ths ! t)) \<le> count_if P ths" for P :: "thr \<Rightarrow> bool"
    using count_if_pos [OF t, of P] by (cases "P (ths ! t)") auto
  from this [of "aux_alive i"] this [of "creating i"] show ?thesis
    by (simp add: aux_total_def aux_weight_def)
qed

lemma aux_total_zero:
  "(\<And>t. t < length ths \<Longrightarrow> current (ths ! t) = Some i \<Longrightarrow> \<not> alive (ths ! t)) \<Longrightarrow> aux_total i ths = 0"
  by (fastforce simp: aux_total_def count_if_zero_iff aux_alive_def creating_def alive_def
      add_nonneg_eq_0_iff)

section \<open>The invariant\<close>

definition inv_slots :: "sys \<Rightarrow> bool" where
  "inv_slots s \<longleftrightarrow> length (table (g s)) = MAX_PPROCS \<and>
     (\<forall>i<MAX_PPROCS. p_aux_threads (sl s i) = aux_total i (threads s))"

definition inv_owner :: "sys \<Rightarrow> bool" where
  "inv_owner s \<longleftrightarrow> (\<forall>t<length (threads s). \<forall>i.
     alive (thr_of s t) \<longrightarrow> current (thr_of s t) = Some i \<longrightarrow>
       i < MAX_PPROCS \<and> p_state (sl s i) = PROC_RUNNING)"

definition inv_main :: "sys \<Rightarrow> bool" where
  "inv_main s \<longleftrightarrow> (\<forall>i<MAX_PPROCS. p_state (sl s i) \<noteq> SLOT_FREE \<longrightarrow>
     p_main_thread (sl s i) < length (threads s) \<and>
     t_role (thr_of s (p_main_thread (sl s i))) = MainOf i \<and>
     (alive (thr_of s (p_main_thread (sl s i))) \<longleftrightarrow> p_state (sl s i) = PROC_RUNNING))"

definition inv_role :: "sys \<Rightarrow> bool" where
  "inv_role s \<longleftrightarrow> (\<forall>t<length (threads s). \<forall>i.
     alive (thr_of s t) \<longrightarrow> t_role (thr_of s t) = MainOf i \<longrightarrow> p_main_thread (sl s i) = t)"

definition inv_wait :: "sys \<Rightarrow> bool" where
  "inv_wait s \<longleftrightarrow> (\<forall>t<length (threads s). \<forall>i.
     waiting_on i (thr_of s t) \<longrightarrow> i < MAX_PPROCS \<and> p_state (sl s i) \<noteq> SLOT_FREE)"

definition inv_single :: "sys \<Rightarrow> bool" where
  "inv_single s \<longleftrightarrow> (\<forall>t<length (threads s). \<forall>u<length (threads s). \<forall>i.
     waiting_on i (thr_of s t) \<longrightarrow> waiting_on i (thr_of s u) \<longrightarrow> t = u)"

definition inv_join :: "sys \<Rightarrow> bool" where
  "inv_join s \<longleftrightarrow> (\<forall>t<length (threads s). \<forall>i mt. t_pc (thr_of s t) = PJoin i mt \<longrightarrow>
     p_state (sl s i) = PROC_EXITED \<and> mt = p_main_thread (sl s i))"

definition inv_reap :: "sys \<Rightarrow> bool" where
  "inv_reap s \<longleftrightarrow> (\<forall>t<length (threads s). \<forall>i. t_pc (thr_of s t) = PReap i \<longrightarrow>
     p_state (sl s i) = PROC_EXITED \<and> at s (p_main_thread (sl s i)) PDead)"

definition inv_wakeup :: "sys \<Rightarrow> bool" where
  "inv_wakeup s \<longleftrightarrow> (\<forall>t<length (threads s). \<forall>i.
     t_pc (thr_of s t) = PWait i False \<longrightarrow> p_state (sl s i) \<noteq> PROC_EXITED)"

definition inv_drain :: "sys \<Rightarrow> bool" where
  "inv_drain s \<longleftrightarrow> (\<forall>t<length (threads s). \<forall>b i.
     t_pc (thr_of s t) = PDrain b \<longrightarrow> t_role (thr_of s t) = MainOf i \<longrightarrow>
       p_exit_requested (sl s i) \<and> (\<not> b \<longrightarrow> 0 < p_aux_threads (sl s i)))"

definition inv_drainer :: "sys \<Rightarrow> bool" where
  "inv_drainer s \<longleftrightarrow> (\<forall>t<length (threads s). \<forall>b.
     t_pc (thr_of s t) = PDrain b \<longrightarrow> (\<exists>i. t_role (thr_of s t) = MainOf i))"

definition inv_exit :: "sys \<Rightarrow> bool" where
  "inv_exit s \<longleftrightarrow> (\<forall>i<MAX_PPROCS. p_state (sl s i) = PROC_EXITED \<longrightarrow> p_exit_requested (sl s i))"

definition used :: "pproc \<Rightarrow> bool" where
  "used p \<longleftrightarrow> p_state p \<noteq> SLOT_FREE"

definition inv_count :: "sys \<Rightarrow> bool" where
  "inv_count s \<longleftrightarrow> initialized (g s) \<and> live (g s) = count_if used (table (g s))"

definition inv_pids :: "sys \<Rightarrow> bool" where
  "inv_pids s \<longleftrightarrow>
     (\<forall>i<MAX_PPROCS. used (sl s i) \<longrightarrow>
        p_pid (sl s i) \<noteq> 0 \<and> (next_pid (g s) \<noteq> 0 \<longrightarrow> p_pid (sl s i) < next_pid (g s))) \<and>
     (\<forall>i<MAX_PPROCS. \<forall>j<MAX_PPROCS. used (sl s i) \<longrightarrow> used (sl s j) \<longrightarrow>
        p_pid (sl s i) = p_pid (sl s j) \<longrightarrow> i = j)"

definition pproc_inv :: "sys \<Rightarrow> bool" where
  "pproc_inv s \<longleftrightarrow> inv_slots s \<and> inv_owner s \<and> inv_main s \<and> inv_role s \<and> inv_wait s \<and>
     inv_single s \<and> inv_join s \<and> inv_reap s \<and> inv_wakeup s \<and> inv_drain s \<and> inv_drainer s \<and> inv_exit s \<and> inv_count s \<and> inv_pids s"

lemma pproc_invI:
  "inv_slots s \<Longrightarrow> inv_owner s \<Longrightarrow> inv_main s \<Longrightarrow> inv_role s \<Longrightarrow> inv_wait s \<Longrightarrow> inv_single s \<Longrightarrow>
   inv_join s \<Longrightarrow> inv_reap s \<Longrightarrow> inv_wakeup s \<Longrightarrow> inv_drain s \<Longrightarrow> inv_drainer s \<Longrightarrow> inv_exit s \<Longrightarrow> inv_count s \<Longrightarrow> inv_pids s \<Longrightarrow>
   pproc_inv s"
  by (simp add: pproc_inv_def)

lemma pproc_invD:
  assumes "pproc_inv s"
  shows "inv_slots s" "inv_owner s" "inv_main s" "inv_role s" "inv_wait s" "inv_single s"
    "inv_join s" "inv_reap s" "inv_wakeup s" "inv_drain s" "inv_drainer s" "inv_exit s" "inv_count s" "inv_pids s"
  using assms by (simp_all add: pproc_inv_def)

lemmas inv_defs = inv_slots_def inv_owner_def inv_main_def inv_wait_def inv_wakeup_def
  inv_exit_def inv_count_def inv_pids_def

end
