(* ===== verification/PprocSteps.thy ===== *)
theory PprocSteps
  imports PprocInv
begin

text \<open>
  Every step of the pseudo-process machine keeps the invariant: one lemma per kind of
  state change (a thread moves, a slot's exit request is recorded, a main thread drains,
  an auxiliary thread leaves, a thread is added, a slot is taken or given back), one per
  API operation, and then the step relation.
\<close>

section \<open>Predicates after a move\<close>

lemma inv_pids_same:
  assumes "inv_pids s" "next_pid (g s') = next_pid (g s)"
    "\<And>j. used (sl s' j) = used (sl s j)" "\<And>j. p_pid (sl s' j) = p_pid (sl s j)"
  shows "inv_pids s'"
  using assms unfolding inv_pids_def by metis

lemma alive_of_pc: "t_pc x \<noteq> PLeaving \<Longrightarrow> t_pc x \<noteq> PDead \<Longrightarrow> alive x"
  by (simp add: alive_def)

lemma alive_pc_simp [simp]: "alive (x\<lparr>t_pc := c\<rparr>) \<longleftrightarrow> c \<noteq> PLeaving \<and> c \<noteq> PDead"
  by (simp add: alive_def)

lemma waiting_pc_simp [simp]: "waiting_on i (x\<lparr>t_pc := c\<rparr>) \<longleftrightarrow> pc_waits i c"
  by (simp add: waiting_on_def)

lemma upd_ret_simp [simp]:
  "alive (x\<lparr>t_pc := c, t_ret := r\<rparr>) \<longleftrightarrow> c \<noteq> PLeaving \<and> c \<noteq> PDead"
  "waiting_on i (x\<lparr>t_pc := c, t_ret := r\<rparr>) \<longleftrightarrow> pc_waits i c"
  by (simp_all add: waiting_on_def alive_def)

lemma creating_upd [simp]:
  "creating i (x\<lparr>t_pc := c\<rparr>) \<longleftrightarrow> current x = Some i \<and> (c = PCreate \<or> c = PCreateFailed)"
  "creating i (x\<lparr>t_pc := c, t_ret := r\<rparr>) \<longleftrightarrow> current x = Some i \<and> (c = PCreate \<or> c = PCreateFailed)"
  by (simp_all add: creating_def)

lemma weight_zero_main:
  "t_role x = MainOf i \<Longrightarrow> t_pc x \<noteq> PCreate \<Longrightarrow> t_pc x \<noteq> PCreateFailed \<Longrightarrow> aux_weight j x = 0"
  by (simp add: aux_weight_pc)

lemma aux_weight_pos: "aux_alive i x \<Longrightarrow> 0 < aux_weight i x"
  by (simp add: aux_weight_def)

lemma no_aux_left:
  assumes "inv_slots s" "inv_role s" "i < MAX_PPROCS" "p_aux_threads (sl s i) \<le> 0"
    "u < length (threads s)" "alive (thr_of s u)" "current (thr_of s u) = Some i"
  shows "t_role (thr_of s u) = MainOf i \<and> p_main_thread (sl s i) = u"
proof -
  from assms(1,3,4) have z: "aux_total i (threads s) \<le> 0" by (simp add: inv_slots_def)
  have "aux_weight i (thr_of s u) \<le> 0"
    using aux_weight_le [OF assms(5), of i] z by linarith
  with aux_weight_pos [of i "thr_of s u"] assms(6) have "t_role (thr_of s u) \<noteq> AuxOf i"
    by (auto simp: aux_alive_def)
  with assms(7) have r: "t_role (thr_of s u) = MainOf i"
    by (auto split: role.splits)
  with assms(2,5,6) show ?thesis by (auto simp: inv_role_def)
qed

section \<open>A thread moves, a slot is updated\<close>

text \<open>a move of one thread that keeps what the others see\<close>
lemma set_thr_inv:
  assumes inv: "pproc_inv s" and t: "t < length (threads s)"
    and role: "t_role x = t_role (thr_of s t)"
    and al: "alive x = alive (thr_of s t)"
    and cr: "\<And>i. creating i x = creating i (thr_of s t)"
    and dead: "t_pc (thr_of s t) = PDead \<Longrightarrow> t_pc x = PDead"
    and wt: "\<And>i. waiting_on i x \<Longrightarrow> waiting_on i (thr_of s t)"
    and jn: "\<And>i mt. t_pc x = PJoin i mt \<Longrightarrow> p_state (sl s i) = PROC_EXITED \<and> mt = p_main_thread (sl s i)"
    and rp: "\<And>i. t_pc x = PReap i \<Longrightarrow>
       p_state (sl s i) = PROC_EXITED \<and> at s (p_main_thread (sl s i)) PDead"
    and wk: "\<And>i. t_pc x = PWait i False \<Longrightarrow> p_state (sl s i) \<noteq> PROC_EXITED"
    and dr: "\<And>b. t_pc x = PDrain b \<Longrightarrow> \<exists>i. t_role x = MainOf i \<and> p_exit_requested (sl s i) \<and>
           (\<not> b \<longrightarrow> 0 < p_aux_threads (sl s i))"
  shows "pproc_inv (set_thr t x s)"
proof -
  have w: "aux_weight i x = aux_weight i (thr_of s t)" for i
    using al cr role by (simp add: aux_weight_def aux_alive_def)
  have cur: "current x = current (thr_of s t)"
    using role by simp
  note I = pproc_invD [OF inv]
  show ?thesis
  proof (rule pproc_invI)
    show "inv_slots (set_thr t x s)"
      using I(1) t by (simp add: inv_slots_def aux_total_set_thr w)
    show "inv_owner (set_thr t x s)"
      using I(2) t al cur by (auto simp: inv_owner_def simp del: current.simps)
    show "inv_main (set_thr t x s)"
      using I(3) t al role by (auto simp: inv_main_def)
    show "inv_role (set_thr t x s)"
      using I(4) t al role by (auto simp: inv_role_def)
    show "inv_wait (set_thr t x s)"
      using I(5) t wt by (auto simp: inv_wait_def)
    show "inv_single (set_thr t x s)"
      using I(6) t wt unfolding inv_single_def by (metis set_thr_sel(2,3))
    show "inv_join (set_thr t x s)"
      using I(7) t jn by (auto simp: inv_join_def)
    show "inv_reap (set_thr t x s)"
      using I(8) t rp dead by (auto simp: inv_reap_def)
    show "inv_wakeup (set_thr t x s)"
      using I(9) t wk by (auto simp: inv_wakeup_def)
    show "inv_drainer (set_thr t x s)"
      using I(11) t dr role by (auto simp: inv_drainer_def)
    show "inv_drain (set_thr t x s)"
      using I(10) t dr role by (fastforce simp: inv_drain_def)
  qed (use I in \<open>simp_all add: inv_exit_def inv_count_def inv_pids_def\<close>)
qed

text \<open>slot updates that keep state, owner, identity\<close>
lemma upd_sl_inv:
  assumes inv: "pproc_inv s" and i: "i < MAX_PPROCS"
    and f: "p_state (f (sl s i)) = p_state (sl s i)" "p_main_thread (f (sl s i)) = p_main_thread (sl s i)"
      "p_pid (f (sl s i)) = p_pid (sl s i)" "p_aux_threads (f (sl s i)) = p_aux_threads (sl s i)"
      "p_exit_requested (sl s i) \<Longrightarrow> p_exit_requested (f (sl s i))"
  shows "pproc_inv (upd_sl i f s)"
proof -
  note I = pproc_invD [OF inv]
  from I(1) have len: "length (table (g s)) = MAX_PPROCS" by (simp add: inv_slots_def)
  have cnt: "count_if used (table (g (upd_sl i f s))) = count_if used (table (g s))"
    using i len f(1) by (simp add: upd_sl_def set_slot_def count_if_update used_def flip: slot_def)
  show ?thesis
  proof (rule pproc_invI)
    show "inv_count (upd_sl i f s)"
      using I(13) cnt by (simp add: inv_count_def)
    show "inv_pids (upd_sl i f s)"
      using I(14) f len unfolding inv_pids_def used_def by (simp split: if_splits)
    show "inv_drainer (upd_sl i f s)"
      using I(11) by (simp add: inv_drainer_def)
    show "inv_drain (upd_sl i f s)"
      using I(10) f len by (auto simp: inv_drain_def)
  qed (use I f in \<open>simp_all add: inv_slots_def inv_owner_def inv_main_def inv_role_def inv_wait_def
         inv_single_def
         inv_join_def inv_reap_def inv_wakeup_def inv_exit_def\<close>)
qed

lemma request_exit_inv: "pproc_inv s \<Longrightarrow> i < MAX_PPROCS \<Longrightarrow> pproc_inv (request_exit i code s)"
  unfolding request_exit_def by (rule upd_sl_inv) auto

section \<open>Leaving\<close>

lemma drain_loop_inv:
  assumes inv: "pproc_inv s" and t: "t < length (threads s)"
    and role: "t_role (thr_of s t) = MainOf i"
    and pc: "t_pc (thr_of s t) = PUser \<or> (\<exists>b. t_pc (thr_of s t) = PDrain b)"
    and req: "p_exit_requested (sl s i)"
  shows "pproc_inv (drain_loop i t s)"
proof (cases "p_aux_threads (sl s i) > 0")
  case True
  have "pproc_inv (set_thr t ((thr_of s t)\<lparr>t_pc := PDrain False\<rparr>) s)"
    using pc True role req
    by (intro set_thr_inv [OF inv t]) (auto simp: alive_def creating_def waiting_on_def)
  with True show ?thesis by (simp add: drain_loop_def goto_def)
next
  case False
  note I = pproc_invD [OF inv]
  from I(1) have len: "length (table (g s)) = MAX_PPROCS" by (simp add: inv_slots_def)
  have al: "alive (thr_of s t)" using pc by (auto simp: alive_def)
  have i: "i < MAX_PPROCS" and run: "p_state (sl s i) = PROC_RUNNING"
    using I(2) t al role by (auto simp: inv_owner_def)
  have mt: "p_main_thread (sl s i) = t"
    using I(4) t al role by (auto simp: inv_role_def)
  let ?s1 = "broadcast wake_state (upd_sl i (\<lambda>p. p\<lparr>p_state := PROC_EXITED\<rparr>) s)"
  let ?s' = "set_thr t ((thr_of ?s1 t)\<lparr>t_pc := PLeaving\<rparr>) ?s1"
  have only: "u = t" if "u < length (threads s)" "alive (thr_of s u)" "current (thr_of s u) = Some i" for u
    using no_aux_left [OF I(1,4) i _ that] False mt by simp
  have t1: "t < length (threads ?s1)" using t by simp
  have w: "aux_weight j (thr_of ?s1 t) = 0" for j
    using weight_zero_main [of "thr_of ?s1 t" i j] role pc t
    by (auto simp: wake_state_def split: pc.splits)
  have w': "aux_weight j ((thr_of ?s1 t)\<lparr>t_pc := PLeaving\<rparr>) = 0" for j
    using weight_zero_main role t by simp
  have cnt: "count_if used (table (g ?s')) = count_if used (table (g s))"
    using i len run by (simp add: upd_sl_def set_slot_def count_if_update used_def flip: slot_def)
  have "pproc_inv ?s'"
  proof (rule pproc_invI)
    show "inv_slots ?s'"
      using I(1) t len i aux_total_set_thr [OF t1] w w' by (simp add: inv_slots_def)
    show "inv_owner ?s'"
      using I(2) t only len by (auto simp: inv_owner_def split: role.splits)
    show "inv_main ?s'"
      using I(3) t len mt i role by (auto simp: inv_main_def)
    show "inv_role ?s'"
      using I(4) t len mt by (auto simp: inv_role_def)
    show "inv_wait ?s'"
      using I(5) t len by (auto simp: inv_wait_def)
    show "inv_single ?s'"
      using I(6) t by (auto simp: inv_single_def)
    show "inv_join ?s'"
      using I(7) t len by (auto simp: inv_join_def)
    show "inv_reap ?s'"
      using I(8) t len mt run pc by (auto simp: inv_reap_def)
    show "inv_wakeup ?s'"
      using I(9) t len by (auto simp: inv_wakeup_def)
    show "inv_drainer ?s'"
      using I(11) t len by (auto simp: inv_drainer_def)
    show "inv_drain ?s'"
      using I(10) t len by (auto simp: inv_drain_def)
    show "inv_exit ?s'"
      using I(12) len req by (auto simp: inv_exit_def)
    show "inv_count ?s'"
      using I(13) cnt by (simp add: inv_count_def)
    show "inv_pids ?s'"
      using I(14) len run unfolding inv_pids_def used_def by (simp split: if_splits)
  qed
  with False show ?thesis by (simp add: drain_loop_def goto_def)
qed


subsection \<open>aux leaving\<close>

lemma drop_aux_sel:
  assumes "i < length (table (g s))"
  shows "threads (drop_aux i s) = map (if p_aux_threads (sl s i) = 1 then wake_aux i else id) (threads s)"
    and "length (table (g (drop_aux i s))) = length (table (g s))"
    and "live (g (drop_aux i s)) = live (g s)"
    and "next_pid (g (drop_aux i s)) = next_pid (g s)"
    and "initialized (g (drop_aux i s)) = initialized (g s)"
    and "sl (drop_aux i s) j =
      (if j = i then (sl s i)\<lparr>p_aux_threads := p_aux_threads (sl s i) - 1\<rparr> else sl s j)"
  using assms by (auto simp: drop_aux_def Let_def)

text \<open>one thread gives up its share of the counter\<close>
lemma drop_aux_inv:
  assumes inv: "pproc_inv s" and t: "t < length (threads s)" and i: "i < MAX_PPROCS"
    and role: "t_role x = t_role (thr_of s t)"
    and pc: "t_pc (thr_of s t) = PUser \<or> t_pc (thr_of s t) = PCreateFailed"
    and w: "\<And>j. aux_weight j x = aux_weight j (thr_of s t) - of_bool (j = i)"
    and x: "t_pc x = PLeaving \<and> (\<forall>k. t_role x \<noteq> MainOf k) \<or> t_pc x = PUser"
  shows "pproc_inv (set_thr t x (drop_aux i s))"
proof -
  note I = pproc_invD [OF inv]
  from I(1) have len: "length (table (g s)) = MAX_PPROCS" by (simp add: inv_slots_def)
  with i have il: "i < length (table (g s))" by simp
  note d = drop_aux_sel [OF il]
  have al: "alive (thr_of s t)" using pc by (auto simp: alive_def)
  have t1: "t < length (threads (drop_aux i s))" using t by (simp add: d)
  let ?w = "if p_aux_threads (sl s i) = 1 then wake_aux i else id"
  have th: "thr_of (drop_aux i s) u = ?w (thr_of s u)" if "u < length (threads s)" for u
    using that by (simp add: d(1))
  have wt: "aux_weight j (?w y) = aux_weight j y" for j y
    by (simp add: aux_weight_def)
  have tot: "aux_total j (threads (drop_aux i s)) = aux_total j (threads s)" for j
    by (simp add: d(1))
  let ?s' = "set_thr t x (drop_aux i s)"
  have role': "alive x \<longrightarrow> t_role x = t_role (thr_of s t)" using role by simp
  have cnt: "count_if used (table (g (drop_aux i s))) = count_if used (table (g s))"
    using i len by (simp add: drop_aux_def Let_def upd_sl_def set_slot_def count_if_update used_def
        flip: slot_def)
  have alx: "alive x \<or> (\<forall>k. t_role x \<noteq> MainOf k)"
    using x by (auto simp: alive_def)
  show ?thesis
  proof (rule pproc_invI)
    show "inv_slots ?s'"
      using I(1) t i by (simp add: inv_slots_def d aux_total_set_thr [OF t1] tot th wt w)
    show "inv_owner ?s'"
      using I(2) t al role by (auto simp: inv_owner_def d)
    show "inv_main ?s'"
      using I(3) t role alx al by (auto simp: inv_main_def d)
    show "inv_role ?s'"
      using I(4) t role al by (auto simp: inv_role_def d)
    show "inv_wait ?s'"
      using I(5) t x by (auto simp: inv_wait_def d waiting_on_def [of _ x])
    show "inv_single ?s'"
      using I(6) t x by (auto simp: inv_single_def d waiting_on_def [of _ x])
    show "inv_join ?s'"
      using I(7) t x by (auto simp: inv_join_def d)
    show "inv_reap ?s'"
      using I(8) t x pc by (auto simp: inv_reap_def d)
    show "inv_wakeup ?s'"
      using I(9) t x by (auto simp: inv_wakeup_def d)
    show "inv_drainer ?s'"
      using I(11) t x by (auto simp: inv_drainer_def d split: if_splits)
    show "inv_drain ?s'"
      using I(10) t x by (fastforce simp: inv_drain_def d split: if_splits)
    show "inv_exit ?s'"
      using I(12) by (auto simp: inv_exit_def d)
    show "inv_count ?s'"
      using I(13) cnt by (simp add: inv_count_def d)
    show "inv_pids ?s'"
      using inv_pids_same [OF I(14)] by (simp add: d used_def)
  qed
qed

lemma set_thr_eq: "goto t c s = set_thr t ((thr_of s t)\<lparr>t_pc := c\<rparr>) s" by (simp add: goto_def)

lemma current_SomeE:
  assumes "current x = Some i" obtains "t_role x = MainOf i" | "t_role x = AuxOf i"
  using assms by (auto split: role.splits)

lemma current_range:
  assumes "pproc_inv s" "t < length (threads s)" "alive (thr_of s t)" "current (thr_of s t) = Some i"
  shows "i < MAX_PPROCS" "p_state (sl s i) = PROC_RUNNING" "length (table (g s)) = MAX_PPROCS"
  using assms by (auto simp: pproc_inv_def inv_owner_def inv_slots_def)

lemma thr_drop_aux_t:
  assumes "i < length (table (g s))" "t < length (threads s)" "\<And>b. t_pc (thr_of s t) \<noteq> PDrain b"
  shows "thr_of (drop_aux i s) t = thr_of s t"
  using assms by (auto simp: drop_aux_sel wake_aux_def split: pc.splits)

lemma aux_epilogue_inv:
  assumes inv: "pproc_inv s" and t: "at s t PUser" and role: "t_role (thr_of s t) = AuxOf i"
  shows "pproc_inv (aux_epilogue i t s)"
proof -
  have "alive (thr_of s t)" using t by (simp add: alive_def)
  with inv t role have i: "i < MAX_PPROCS" and len: "length (table (g s)) = MAX_PPROCS"
    using current_range [OF inv, of t i] by auto
  have th: "thr_of (drop_aux i s) t = thr_of s t"
    using thr_drop_aux_t [of i s t] i len t by auto
  have "pproc_inv (set_thr t ((thr_of s t)\<lparr>t_pc := PLeaving\<rparr>) (drop_aux i s))"
    using t role by (intro drop_aux_inv [OF inv _ i]) (auto simp: aux_weight_pc)
  with th show ?thesis by (simp add: aux_epilogue_def goto_def)
qed

lemma create_undo_inv:
  assumes inv: "pproc_inv s" and t: "at s t PCreateFailed" and cur: "current (thr_of s t) = Some i"
  shows "pproc_inv (create_undo t i s)"
proof -
  have "alive (thr_of s t)" using t by (simp add: alive_def)
  with inv t cur have i: "i < MAX_PPROCS" and len: "length (table (g s)) = MAX_PPROCS"
    using current_range [OF inv, of t i] by auto
  have th: "thr_of (drop_aux i s) t = thr_of s t"
    using thr_drop_aux_t [of i s t] i len t by auto
  have "pproc_inv (set_thr t ((thr_of s t)\<lparr>t_pc := PUser, t_ret := RInt (-1)\<rparr>) (drop_aux i s))"
    using t cur by (intro drop_aux_inv [OF inv _ i]) (auto simp: aux_weight_pc)
  with th show ?thesis by (simp add: create_undo_def return_def)
qed

text \<open>a thread that no process depends on ends\<close>
lemma leave_inv:
  assumes inv: "pproc_inv s" and t: "t < length (threads s)"
    and pc: "t_role (thr_of s t) = Host \<and> t_pc (thr_of s t) = PUser \<and> c = PLeaving \<or>
             t_pc (thr_of s t) = PLeaving \<and> c = PDead"
  shows "pproc_inv (goto t c s)"
proof -
  note I = pproc_invD [OF inv]
  let ?x = "(thr_of s t)\<lparr>t_pc := c\<rparr>"
  have w: "aux_weight j ?x = aux_weight j (thr_of s t)" for j
    using pc by (auto simp: aux_weight_pc)
  show ?thesis unfolding goto_def
  proof (rule pproc_invI)
    show "inv_slots (set_thr t ?x s)"
      using I(1) t by (simp add: inv_slots_def aux_total_set_thr w)
    show "inv_owner (set_thr t ?x s)"
      using I(2) t pc by (auto simp: inv_owner_def)
    show "inv_main (set_thr t ?x s)"
      using I(3) t pc by (auto simp: inv_main_def alive_def)
    show "inv_role (set_thr t ?x s)"
      using I(4) t pc by (auto simp: inv_role_def)
    show "inv_wait (set_thr t ?x s)"
      using I(5) t pc by (auto simp: inv_wait_def)
    show "inv_single (set_thr t ?x s)"
      using I(6) t pc by (auto simp: inv_single_def)
    show "inv_join (set_thr t ?x s)"
      using I(7) t pc by (auto simp: inv_join_def)
    show "inv_reap (set_thr t ?x s)"
      using I(8) t pc by (auto simp: inv_reap_def)
    show "inv_wakeup (set_thr t ?x s)"
      using I(9) t pc by (auto simp: inv_wakeup_def)
    show "inv_drain (set_thr t ?x s)"
      using I(10) t pc by (auto simp: inv_drain_def)
    show "inv_drainer (set_thr t ?x s)"
      using I(11) t pc by (auto simp: inv_drainer_def)
  qed (use I in \<open>simp_all add: inv_exit_def inv_count_def inv_pids_def\<close>)
qed

lemma request_exit_sel [simp]:
  "threads (request_exit i code s) = threads s"
  "length (table (g (request_exit i code s))) = length (table (g s))"
  "p_aux_threads (sl (request_exit i code s) j) = p_aux_threads (sl s j)"
  "p_main_thread (sl (request_exit i code s) j) = p_main_thread (sl s j)"
  "p_state (sl (request_exit i code s) j) = p_state (sl s j)"
  "p_pid (sl (request_exit i code s) j) = p_pid (sl s j)"
  "i < length (table (g s)) \<Longrightarrow> p_exit_requested (sl (request_exit i code s) i)"
  by (auto simp: request_exit_def)

lemma return_op_inv:
  assumes inv: "pproc_inv s" and t: "at s t PUser"
  shows "pproc_inv (return_op t code s)"
proof (cases "t_role (thr_of s t)")
  case Host
  with t show ?thesis using leave_inv [OF inv, of t PLeaving] by (simp add: return_op_def)
next
  case (AuxOf i)
  with t show ?thesis using aux_epilogue_inv [OF inv] by (simp add: return_op_def)
next
  case (MainOf i)
  have "alive (thr_of s t)" using t by (simp add: alive_def)
  with t MainOf have i: "i < MAX_PPROCS" and len: "length (table (g s)) = MAX_PPROCS"
    using current_range [OF inv, of t i] by auto
  have "pproc_inv (drain_loop i t (request_exit i code s))"
    using t MainOf i len by (intro drain_loop_inv request_exit_inv inv) auto
  with MainOf show ?thesis by (simp add: return_op_def main_epilogue_def)
qed

lemma exit_op_inv:
  assumes inv: "pproc_inv s" and t: "at s t PUser"
  shows "pproc_inv (exit_op t code s)"
proof (cases "current (thr_of s t)")
  case None
  then have "t_role (thr_of s t) = Host" by (auto split: role.splits)
  with t None show ?thesis using leave_inv [OF inv, of t PLeaving] by (simp add: exit_op_def)
next
  case (Some i)
  have al: "alive (thr_of s t)" using t by (simp add: alive_def)
  with t Some have i: "i < MAX_PPROCS" and len: "length (table (g s)) = MAX_PPROCS"
    and run: "p_state (sl s i) = PROC_RUNNING"
    using current_range [OF inv, of t i] by auto
  let ?s1 = "request_exit i code s"
  have inv1: "pproc_inv ?s1" by (rule request_exit_inv [OF inv i])
  from Some show ?thesis
  proof (rule current_SomeE)
    assume role: "t_role (thr_of s t) = MainOf i"
    with inv t al have "p_main_thread (sl s i) = t"
      by (simp add: pproc_inv_def inv_role_def)
    moreover have "pproc_inv (drain_loop i t ?s1)"
      using t role i len by (intro drain_loop_inv inv1) auto
    ultimately show ?thesis using Some by (simp add: exit_op_def)
  next
    assume role: "t_role (thr_of s t) = AuxOf i"
    have "p_main_thread (sl s i) \<noteq> t"
      using inv i run role by (auto simp: pproc_inv_def inv_main_def)
    moreover have "p_aux_threads (sl s i) > 0"
    proof -
      have "0 < aux_weight i (thr_of s t)"
        using role al by (intro aux_weight_pos) (simp add: aux_alive_def)
      with aux_weight_le [of t "threads s" i] t inv i show ?thesis
        by (simp add: pproc_inv_def inv_slots_def)
    qed
    moreover have "pproc_inv (aux_epilogue i t ?s1)"
      using t role by (intro aux_epilogue_inv inv1) auto
    ultimately show ?thesis using Some by (simp add: exit_op_def aux_epilogue_def)
  qed
qed

lemma wait_loop_inv:
  assumes inv: "pproc_inv s" and t: "t < length (threads s)"
    and pc: "(\<exists>b. t_pc (thr_of s t) = PWait i b)"
  shows "pproc_inv (wait_loop i t s)"
  unfolding wait_loop_def goto_def
  using pc by (auto intro!: set_thr_inv [OF inv t] simp: alive_def creating_def waiting_on_def)

section \<open>Waiting, creating, reaping, spawning\<close>

lemma inv_len: "pproc_inv s \<Longrightarrow> length (table (g s)) = MAX_PPROCS"
  by (simp add: pproc_inv_def inv_slots_def)

lemma return_inv:
  assumes inv: "pproc_inv s" and t: "at s t PUser"
  shows "pproc_inv (return t r s)"
  unfolding return_def using t
  by (intro set_thr_inv [OF inv]) (auto simp: alive_def creating_def)

lemma wait_op_inv:
  assumes inv: "pproc_inv s" and t: "at s t PUser" and one: "one_waiter s (Wait pid)"
  shows "pproc_inv (wait_op t pid s)"
proof (cases "initialized (g s) \<and> find_locked (g s) pid \<noteq> None")
  case False
  then show ?thesis using return_inv [OF inv t] by (auto simp: wait_op_def)
next
  case True
  then obtain i where f: "find_locked (g s) pid = Some i" by auto
  note I = pproc_invD [OF inv]
  from find_locked_SomeD [OF f] have i: "i < MAX_PPROCS" and u: "p_state (sl s i) \<noteq> SLOT_FREE" by auto
  from one f have nw: "\<not> waiting_on i (thr_of s u)" if "u < length (threads s)" for u
    using that by (simp add: one_waiter_def list_all_length)
  define c where "c = (if p_state (sl s i) \<noteq> PROC_EXITED then PWait i False
                        else PJoin i (p_main_thread (sl s i)))"
  have pw: "pc_waits j c \<longleftrightarrow> j = i" for j by (auto simp: c_def)
  have cc: "c \<noteq> PLeaving" "c \<noteq> PDead" "c \<noteq> PCreate" "c \<noteq> PCreateFailed" "c \<noteq> PReap j" "c \<noteq> PDrain b" for j b
    by (auto simp: c_def)
  let ?x = "(thr_of s t)\<lparr>t_pc := c\<rparr>"
  have w: "aux_weight j ?x = aux_weight j (thr_of s t)" for j
    using t cc by (auto simp: aux_weight_pc)
  have "pproc_inv (set_thr t ?x s)"
  proof (rule pproc_invI)
    show "inv_slots (set_thr t ?x s)"
      using I(1) t by (simp add: inv_slots_def aux_total_set_thr w)
    show "inv_owner (set_thr t ?x s)"
      using I(2) t by (auto simp: inv_owner_def alive_def)
    show "inv_main (set_thr t ?x s)"
      using I(3) t cc by (auto simp: inv_main_def alive_def)
    show "inv_role (set_thr t ?x s)"
      using I(4) t by (auto simp: inv_role_def alive_def)
    show "inv_wait (set_thr t ?x s)"
      using I(5) t i u by (auto simp: inv_wait_def pw)
    show "inv_single (set_thr t ?x s)"
      using I(6) t nw by (auto simp: inv_single_def pw)
    show "inv_join (set_thr t ?x s)"
      using I(7) t by (auto simp: inv_join_def c_def)
    show "inv_reap (set_thr t ?x s)"
      using I(8) t cc by (auto simp: inv_reap_def)
    show "inv_wakeup (set_thr t ?x s)"
      using I(9) t by (auto simp: inv_wakeup_def c_def)
    show "inv_drain (set_thr t ?x s)"
      using I(10) t cc by (auto simp: inv_drain_def)
    show "inv_drainer (set_thr t ?x s)"
      using I(11) t cc by (auto simp: inv_drainer_def)
  qed (use I in \<open>simp_all add: inv_exit_def inv_count_def inv_pids_def\<close>)
  with True f show ?thesis by (simp add: wait_op_def wait_loop_def goto_def c_def split: if_splits)
qed

lemma join_inv:
  assumes inv: "pproc_inv s" and t: "at s t (PJoin i mt)" and mt: "at s mt PDead"
  shows "pproc_inv (goto t (PReap i) s)"
  unfolding goto_def using t mt inv
  by (intro set_thr_inv [OF inv])
     (auto simp: alive_def creating_def waiting_on_def pproc_inv_def inv_join_def)

lemma create_enter_inv:
  assumes inv: "pproc_inv s" and t: "at s t PUser"
  shows "pproc_inv (create_enter t fn s)"
proof (cases "fn \<and> current (thr_of s t) \<noteq> None")
  case False
  then show ?thesis using return_inv [OF inv t] by (auto simp: create_enter_def split: option.splits)
next
  case True
  then obtain i where cur: "current (thr_of s t) = Some i" by auto
  note I = pproc_invD [OF inv]
  have al: "alive (thr_of s t)" using t by (simp add: alive_def)
  with t cur have i: "i < MAX_PPROCS" and len: "length (table (g s)) = MAX_PPROCS"
    and run: "p_state (sl s i) = PROC_RUNNING"
    using current_range [OF inv, of t i] by auto
  let ?s1 = "upd_sl i (\<lambda>p. p\<lparr>p_aux_threads := p_aux_threads p + 1\<rparr>) s"
  let ?x = "(thr_of s t)\<lparr>t_pc := PCreate\<rparr>"
  have w: "aux_weight j ?x = aux_weight j (thr_of s t) + of_bool (j = i)" for j
    using t cur by (auto simp: aux_weight_pc)
  have t1: "t < length (threads ?s1)" using t by simp
  have tot: "aux_total j (threads (set_thr t ?x ?s1)) = aux_total j (threads s) + of_bool (j = i)" for j
    using aux_total_set_thr [OF t1, of j ?x] w [of j] by simp
  have nn: "0 \<le> p_aux_threads (sl s i)" using I(1) i by (simp add: inv_slots_def)
  have cnt: "count_if used (table (g ?s1)) = count_if used (table (g s))"
    using i len by (simp add: upd_sl_def set_slot_def count_if_update used_def flip: slot_def)
  have "pproc_inv (set_thr t ?x ?s1)"
  proof (rule pproc_invI)
    show "inv_slots (set_thr t ?x ?s1)"
      using I(1) i len by (simp add: inv_slots_def tot)
    show "inv_owner (set_thr t ?x ?s1)"
      using I(2) t al by (auto simp: inv_owner_def)
    show "inv_main (set_thr t ?x ?s1)"
      using I(3) t al by (auto simp: inv_main_def)
    show "inv_role (set_thr t ?x ?s1)"
      using I(4) t al by (auto simp: inv_role_def)
    show "inv_wait (set_thr t ?x ?s1)"
      using I(5) t by (auto simp: inv_wait_def)
    show "inv_single (set_thr t ?x ?s1)"
      using I(6) t by (auto simp: inv_single_def)
    show "inv_join (set_thr t ?x ?s1)"
      using I(7) t by (auto simp: inv_join_def)
    show "inv_reap (set_thr t ?x ?s1)"
      using I(8) t by (auto simp: inv_reap_def)
    show "inv_wakeup (set_thr t ?x ?s1)"
      using I(9) t by (auto simp: inv_wakeup_def)
    show "inv_drain (set_thr t ?x ?s1)"
      using I(10) t nn by (auto simp: inv_drain_def)
    show "inv_drainer (set_thr t ?x ?s1)"
      using I(11) t by (auto simp: inv_drainer_def)
    show "inv_exit (set_thr t ?x ?s1)"
      using I(12) by (auto simp: inv_exit_def)
    show "inv_count (set_thr t ?x ?s1)"
      using I(13) cnt by (simp add: inv_count_def)
    show "inv_pids (set_thr t ?x ?s1)"
      by (rule inv_pids_same [OF I(14)]) (simp_all add: used_def)
  qed
  with True cur show ?thesis by (simp add: create_enter_def goto_def)
qed

text \<open>a new thread\<close>
lemma thr_append:
  "threads s' = threads s @ [x] \<Longrightarrow> u < length (threads s') \<Longrightarrow>
     thr_of s' u = (if u = length (threads s) then x else thr_of s u)"
  by (auto simp: nth_append)

lemma create_ok_inv:
  assumes inv: "pproc_inv s" and t: "at s t PCreate" and cur: "current (thr_of s t) = Some i"
  shows "pproc_inv (create_ok t i s)"
proof -
  note I = pproc_invD [OF inv]
  have al: "alive (thr_of s t)" using t by (simp add: alive_def)
  with t cur have i: "i < MAX_PPROCS" and len: "length (table (g s)) = MAX_PPROCS"
    and run: "p_state (sl s i) = PROC_RUNNING"
    using current_range [OF inv, of t i] by auto
  let ?n = "new_thread (AuxOf i)"
  let ?s1 = "s\<lparr>threads := threads s @ [?n]\<rparr>"
  let ?x = "(thr_of s t)\<lparr>t_pc := PUser, t_ret := RInt 0\<rparr>"
  let ?s' = "set_thr t ?x ?s1"
  have th: "thr_of ?s' u = (if u = t then ?x else if u = length (threads s) then ?n else thr_of s u)"
    if "u < Suc (length (threads s))" for u
    using that t by (auto simp: nth_append)
  have ln: "length (threads ?s') = Suc (length (threads s))" by simp
  have gs: "g ?s' = g s" by simp
  have n: "alive ?n" "t_role ?n = AuxOf i" "\<not> waiting_on j ?n" "t_pc ?n = PUser" for j
    by (simp_all add: new_thread_def alive_def waiting_on_def)
  have w: "aux_weight j ?x + of_bool (i = j) = aux_weight j (thr_of s t)" for j
    using t cur by (auto simp: aux_weight_pc)
  have t1: "t < length (threads ?s1)" using t by simp
  have tot: "aux_total j (threads ?s') = aux_total j (threads s)" for j
    using aux_total_set_thr [OF t1, of j ?x] w [of j] t by (simp add: nth_append)
  have "pproc_inv ?s'"
  proof (rule pproc_invI)
    show "inv_slots ?s'"
      using I(1) tot by (simp add: inv_slots_def)
    show "inv_owner ?s'"
      using I(2) t al i run cur by (auto simp: inv_owner_def nth_append less_Suc_eq n)
    show "inv_main ?s'"
      using I(3) t al by (auto simp: inv_main_def nth_append less_Suc_eq)
    show "inv_role ?s'"
      using I(4) t al by (auto simp: inv_role_def nth_append less_Suc_eq n)
    show "inv_wait ?s'"
      using I(5) t by (auto simp: inv_wait_def nth_append less_Suc_eq n)
    show "inv_single ?s'"
      using I(6) t by (auto simp: inv_single_def nth_append less_Suc_eq n)
    show "inv_join ?s'"
      using I(7) t by (auto simp: inv_join_def nth_append less_Suc_eq n)
    show "inv_reap ?s'"
      using I(8) t by (auto simp: inv_reap_def nth_append less_Suc_eq n)
    show "inv_wakeup ?s'"
      using I(9) t by (auto simp: inv_wakeup_def nth_append less_Suc_eq n)
    show "inv_drain ?s'"
      using I(10) t by (auto simp: inv_drain_def nth_append less_Suc_eq n)
    show "inv_drainer ?s'"
      using I(11) t by (auto simp: inv_drainer_def nth_append less_Suc_eq n)
  qed (use I in \<open>simp_all add: inv_exit_def inv_count_def inv_pids_def\<close>)
  with t show ?thesis by (simp add: create_ok_def return_def nth_append)
qed

lemma count_used_set_slot:
  "i < length (table G) \<Longrightarrow> count_if used (table (set_slot i p G)) =
     count_if used (table G) - of_bool (used (slot G i)) + of_bool (used p)"
  by (simp add: set_slot_def slot_def count_if_update)

lemma used_zero [simp]: "\<not> used zero_pproc" and used_new [simp]: "used (new_pproc nm en ac av pid mt)"
  by (simp_all add: used_def)

lemma reap_op_inv:
  assumes inv: "pproc_inv s" and t: "at s t (PReap i)"
  shows "pproc_inv (reap_op t i s)"
proof -
  note I = pproc_invD [OF inv]
  have len: "length (table (g s)) = MAX_PPROCS" using inv by (rule inv_len)
  have ex: "p_state (sl s i) = PROC_EXITED" and i: "i < MAX_PPROCS"
    using I(5,8) t by (auto simp: inv_wait_def inv_reap_def waiting_on_def)
  have only: "u = t" if "u < length (threads s)" "waiting_on i (thr_of s u)" for u
    using I(6) t that by (auto simp: inv_single_def waiting_on_def)
  have dead: "current (thr_of s u) \<noteq> Some i" if "u < length (threads s)" "alive (thr_of s u)" for u
    using I(2) that ex by (auto simp: inv_owner_def)
  have nr: "t_role (thr_of s u) \<noteq> MainOf i" if "u < length (threads s)" "alive (thr_of s u)" for u
    using dead [OF that] by auto
  have tot0: "aux_total i (threads s) = 0"
    using dead by (intro aux_total_zero) blast
  let ?G = "(set_slot i zero_pproc (g s))\<lparr>live := live (g s) - 1\<rparr>"
  let ?s1 = "s\<lparr>g := ?G\<rparr>"
  let ?x = "(thr_of s t)\<lparr>t_pc := PUser, t_ret := RInt (p_exit_code (sl s i))\<rparr>"
  let ?s' = "set_thr t ?x ?s1"
  have sl: "slot (set_slot i zero_pproc (g s)) j = (if j = i then zero_pproc else sl s j)" for j
    using i len by (simp add: slot_set_slot_cases)
  have t1: "t < length (threads ?s1)" using t by simp
  have w: "aux_weight j ?x = aux_weight j (thr_of s t)" for j
    using t by (auto simp: aux_weight_pc)
  have tot: "aux_total j (threads ?s') = aux_total j (threads s)" for j
    using aux_total_set_thr [OF t1, of j ?x] w [of j] by simp
  have al: "alive (thr_of s t)" using t by (simp add: alive_def)
  have "pproc_inv ?s'"
  proof (rule pproc_invI)
    show "inv_slots ?s'"
      using I(1) tot tot0 len by (simp add: inv_slots_def sl)
    show "inv_owner ?s'"
      using I(2) t al dead by (auto simp: inv_owner_def sl)
    show "inv_main ?s'"
      using I(3) t al by (auto simp: inv_main_def sl)
    show "inv_role ?s'"
      using I(4) t al nr by (auto simp: inv_role_def sl)
    show "inv_wait ?s'"
      using I(5) t only by (auto simp: inv_wait_def sl)
    show "inv_single ?s'"
      using I(6) t by (auto simp: inv_single_def)
    show "inv_join ?s'"
      using I(7) t only by (auto simp: inv_join_def sl waiting_on_def)
    show "inv_reap ?s'"
      using I(8) t only by (auto simp: inv_reap_def sl waiting_on_def)
    show "inv_wakeup ?s'"
      using I(9) t by (auto simp: inv_wakeup_def sl)
    show "inv_drain ?s'"
      using I(10) t nr by (auto simp: inv_drain_def sl alive_def)
    show "inv_drainer ?s'"
      using I(11) t by (auto simp: inv_drainer_def)
    show "inv_exit ?s'"
      using I(12) by (auto simp: inv_exit_def sl)
    show "inv_count ?s'"
      using I(13) i len ex by (simp add: inv_count_def count_used_set_slot used_def)
    show "inv_pids ?s'"
      using I(14) by (auto simp: inv_pids_def sl)
  qed
  then show ?thesis by (simp add: reap_op_def return_def free_slot_locked_eq)
qed

lemma no_one_in_free_slot:
  assumes "pproc_inv s" "i < MAX_PPROCS" "p_state (sl s i) = SLOT_FREE"
  shows "aux_total i (threads s) = 0"
    "u < length (threads s) \<Longrightarrow> alive (thr_of s u) \<Longrightarrow> current (thr_of s u) \<noteq> Some i"
    "u < length (threads s) \<Longrightarrow> \<not> waiting_on i (thr_of s u)"
proof -
  show own: "current (thr_of s u) \<noteq> Some i" if "u < length (threads s)" "alive (thr_of s u)" for u
    using assms that by (auto simp: pproc_inv_def inv_owner_def)
  show "aux_total i (threads s) = 0"
    using own by (intro aux_total_zero) blast
  show "u < length (threads s) \<Longrightarrow> \<not> waiting_on i (thr_of s u)"
    using assms by (auto simp: pproc_inv_def inv_wait_def)
qed

lemma spawn_refused_inv:
  assumes inv: "pproc_inv s" and t: "at s t PUser" and "spawn_slot en ac (g s) = None"
  shows "pproc_inv (spawn_op t nm en ac av ok s)"
  using assms return_inv [OF inv t] by (simp add: spawn_op_def pproc_spawn_refused Let_def)

lemma free_slot_update_inv:
  assumes inv: "pproc_inv s" and i: "i < MAX_PPROCS" "p_state (sl s i) = SLOT_FREE"
    and wrap: "next_pid (g s) \<noteq> 0"
  shows "pproc_inv (s\<lparr>g := (set_slot i zero_pproc (g s))\<lparr>next_pid := next_pid (g s) + 1\<rparr>\<rparr>)"
    (is "pproc_inv ?s'")
proof -
  note I = pproc_invD [OF inv]
  have len: "length (table (g s)) = MAX_PPROCS" using inv by (rule inv_len)
  note fr = no_one_in_free_slot [OF inv i]
  have nr: "t_role (thr_of s u) \<noteq> MainOf i" if "u < length (threads s)" "alive (thr_of s u)" for u
    using fr(2) [OF that] by auto
  have nw: "t_pc (thr_of s u) \<noteq> PJoin i mt" "t_pc (thr_of s u) \<noteq> PReap i"
    if "u < length (threads s)" for u mt
    using fr(3) [OF that] by (auto simp: waiting_on_def)
  have sl: "slot (set_slot i zero_pproc (g s)) j = (if j = i then zero_pproc else sl s j)" for j
    using i len by (simp add: slot_set_slot_cases)
  have gl: "length (table (g ?s')) = MAX_PPROCS" "live (g ?s') = live (g s)" "initialized (g ?s') = initialized (g s)"
    "threads ?s' = threads s" "next_pid (g ?s') = next_pid (g s) + 1"
    using len by simp_all
  show ?thesis
  proof (rule pproc_invI)
    show "inv_slots ?s'"
      using I(1) fr(1) by (simp add: inv_slots_def sl)
    show "inv_owner ?s'"
      using I(2) fr(2) by (auto simp: inv_owner_def sl)
    show "inv_main ?s'"
      using I(3) by (auto simp: inv_main_def sl)
    show "inv_role ?s'"
      using I(4) nr by (auto simp: inv_role_def sl)
    show "inv_wait ?s'"
      using I(5) fr(3) by (auto simp: inv_wait_def sl)
    show "inv_single ?s'"
      using I(6) by (auto simp: inv_single_def)
    show "inv_join ?s'"
      using I(7) nw by (auto simp: inv_join_def sl)
    show "inv_reap ?s'"
      using I(8) nw by (auto simp: inv_reap_def sl)
    show "inv_wakeup ?s'"
      using I(9) by (auto simp: inv_wakeup_def sl)
    show "inv_drain ?s'"
      using I(10) nr by (auto simp: inv_drain_def sl alive_def)
    show "inv_drainer ?s'"
      using I(11) by (auto simp: inv_drainer_def)
    show "inv_exit ?s'"
      using I(12) by (auto simp: inv_exit_def sl)
    show "inv_count ?s'"
      using I(13) i len by (simp add: inv_count_def count_used_set_slot used_def)
    show "inv_pids ?s'"
      using I(14) wrap word_less_Suc by (auto simp: inv_pids_def sl)
  qed
qed


lemma spawn_created_inv:
  assumes inv: "pproc_inv s" and sp: "spawn_slot en ac (g s) = Some i"
    and wrap: "next_pid (g s) \<noteq> 0"
  shows "pproc_inv (s\<lparr>g := (set_slot i (new_pproc nm en ac av (next_pid (g s)) (length (threads s))) (g s))
            \<lparr>next_pid := next_pid (g s) + 1, live := live (g s) + 1\<rparr>,
          threads := threads s @ [new_thread (MainOf i)]\<rparr>)" (is "pproc_inv ?s'")
proof -
  note I = pproc_invD [OF inv]
  let ?p = "new_pproc nm en ac av (next_pid (g s)) (length (threads s))"
  let ?n = "new_thread (MainOf i)"
  have i: "i < MAX_PPROCS" "p_state (sl s i) = SLOT_FREE"
    using spawn_slot_SomeD [OF sp] by simp_all
  have len: "length (table (g s)) = MAX_PPROCS" using inv by (rule inv_len)
  note fr = no_one_in_free_slot [OF inv i]
  have nr: "t_role (thr_of s u) \<noteq> MainOf i" if "u < length (threads s)" "alive (thr_of s u)" for u
    using fr(2) [OF that] by auto
  have nw: "t_pc (thr_of s u) \<noteq> PJoin i mt" "t_pc (thr_of s u) \<noteq> PReap i"
    if "u < length (threads s)" for u mt
    using fr(3) [OF that] by (auto simp: waiting_on_def)
  have sl: "slot (set_slot i ?p (g s)) j = (if j = i then ?p else sl s j)" for j
    using i len by (simp add: slot_set_slot_cases)
  have n: "alive ?n" "t_role ?n = MainOf i" "\<not> waiting_on j ?n" "t_pc ?n = PUser" for j
    by (simp_all add: new_thread_def alive_def waiting_on_def)
  show ?thesis
  proof (rule pproc_invI)
    show "inv_slots ?s'"
      using I(1) fr(1) by (simp add: inv_slots_def sl)
    show "inv_owner ?s'"
      using I(2) fr(2) i by (auto simp: inv_owner_def sl nth_append less_Suc_eq n)
    show "inv_main ?s'"
      using I(3) by (auto simp: inv_main_def sl nth_append less_Suc_eq n)
    show "inv_role ?s'"
      using I(4) nr by (auto simp: inv_role_def sl nth_append less_Suc_eq n)
    show "inv_wait ?s'"
      using I(5) fr(3) by (auto simp: inv_wait_def sl nth_append less_Suc_eq n)
    show "inv_single ?s'"
      using I(6) by (auto simp: inv_single_def nth_append less_Suc_eq n)
    show "inv_join ?s'"
      using I(7) nw by (auto simp: inv_join_def sl nth_append less_Suc_eq n)
    show "inv_reap ?s'"
      using I(8) nw by (auto simp: inv_reap_def sl nth_append less_Suc_eq n)
    show "inv_wakeup ?s'"
      using I(9) by (auto simp: inv_wakeup_def sl nth_append less_Suc_eq n)
    show "inv_drain ?s'"
      using I(10) nr by (auto simp: inv_drain_def sl alive_def nth_append less_Suc_eq n)
    show "inv_drainer ?s'"
      using I(11) by (auto simp: inv_drainer_def nth_append less_Suc_eq n)
    show "inv_exit ?s'"
      using I(12) by (auto simp: inv_exit_def sl)
    show "inv_count ?s'"
      using I(13) i len by (simp add: inv_count_def count_used_set_slot used_def [of "sl s i"])
    show "inv_pids ?s'"
      using I(14) wrap word_less_Suc word_self_less_Suc by (auto simp: inv_pids_def sl)
  qed
qed

section \<open>The step relation\<close>

lemma spawn_op_inv:
  assumes inv: "pproc_inv s" and t: "at s t PUser" and wrap: "next_pid (g s) \<noteq> 0"
  shows "pproc_inv (spawn_op t nm en ac av ok s)"
proof (cases "spawn_slot en ac (g s)")
  case None
  then show ?thesis using spawn_refused_inv [OF inv t] by simp
next
  case (Some i)
  note sd = spawn_slot_SomeD [OF Some]
  show ?thesis
  proof (cases ok)
    case True
    have "pproc_inv (return t (RPid (next_pid (g s)))
            (s\<lparr>g := (set_slot i (new_pproc nm en ac av (next_pid (g s)) (length (threads s))) (g s))
              \<lparr>next_pid := next_pid (g s) + 1, live := live (g s) + 1\<rparr>,
              threads := threads s @ [new_thread (MainOf i)]\<rparr>))"
      using t by (intro return_inv spawn_created_inv inv Some wrap) (auto simp: nth_append)
    with True Some show ?thesis by (simp add: spawn_op_def pproc_spawn_created Let_def)
  next
    case False
    have "pproc_inv (return t (RPid 0)
            (s\<lparr>g := (set_slot i zero_pproc (g s))\<lparr>next_pid := next_pid (g s) + 1\<rparr>\<rparr>))"
      using t sd by (intro return_inv free_slot_update_inv inv wrap) auto
    with False Some show ?thesis by (simp add: spawn_op_def pproc_spawn_thread_failed Let_def)
  qed
qed

lemma create_err_inv:
  assumes inv: "pproc_inv s" and t: "at s t PCreate"
  shows "pproc_inv (goto t PCreateFailed s)"
  unfolding goto_def using t
  by (intro set_thr_inv [OF inv]) (auto simp: alive_def creating_def)

lemma wake_drain_inv:
  assumes inv: "pproc_inv s" and t: "at s t (PDrain w)" and cur: "current (thr_of s t) = Some i"
  shows "pproc_inv (drain_loop i t s)"
proof -
  from inv t obtain k where "t_role (thr_of s t) = MainOf k"
    by (auto simp: pproc_inv_def inv_drainer_def)
  with cur have r: "t_role (thr_of s t) = MainOf i" by simp
  with inv t have "p_exit_requested (sl s i)"
    by (auto simp: pproc_inv_def inv_drain_def)
  with t r show ?thesis by (intro drain_loop_inv inv) auto
qed

lemmas op_invs = spawn_op_inv create_enter_inv create_ok_inv create_err_inv create_undo_inv
  return_op_inv exit_op_inv wait_op_inv wake_drain_inv wait_loop_inv join_inv reap_op_inv leave_inv

lemma pstep_inv:
  assumes "pstep s t a s'" "pproc_inv s" "one_waiter s a" "no_wrap s a"
  shows "pproc_inv s'"
  using assms by (induction rule: pstep.induct) (auto intro: op_invs simp: no_wrap_def)

lemma start_sys_sel [simp]:
  "g (start_sys n) = zero_globals\<lparr>next_pid := 1, initialized := True\<rparr>"
  "threads (start_sys n) = replicate n (new_thread Host)"
  by (simp_all add: start_sys_def pproc_init_def zero_globals_def)

lemma count_used_zero: "count_if used (table zero_globals) = 0"
  by (simp add: zero_globals_def used_def)

lemma start_sys_inv: "pproc_inv (start_sys n)"
proof -
  have "aux_total i (replicate n (new_thread Host)) = 0" for i
    by (simp add: aux_total_def aux_alive_def creating_def new_thread_def)
  then show ?thesis
    by (intro pproc_invI)
       (simp_all add: inv_defs inv_single_def inv_join_def inv_reap_def inv_drain_def
          inv_drainer_def inv_role_def used_def [abs_def] waiting_on_def new_thread_def
          count_used_zero [unfolded used_def [abs_def]] zero_globals_def [THEN arg_cong, of live])
qed

interpretation pp: machine "\<lambda>s. \<exists>n. s = start_sys n" pfair pproc_inv
proof unfold_locales
  show "\<exists>n. s = start_sys n \<Longrightarrow> pproc_inv s" for s
    using start_sys_inv by blast
  show "pproc_inv s \<Longrightarrow> pfair s l t \<Longrightarrow> pproc_inv t" for s l t
    by (auto simp: pfair_def intro: pstep_inv)
qed

lemma reach_pproc_inv: "execution pfair (start_sys n) tr s \<Longrightarrow> pproc_inv s"
  by (rule pp.reachable_inv) auto

end
