(* ===== verification/PprocRun.thy ===== *)
theory PprocRun
  imports PprocSteps
begin

text \<open>
  The machine of \<^verbatim>\<open>PprocThreads\<close> as a function: given the thread and its action a
  step is determined, so a schedule can be run. \<open>prun\<close> runs one under the two rules of
  use, \<open>prun_free\<close> without them. The concrete runs the properties are exercised on are
  evaluated with these.
\<close>

definition pnext :: "sys \<Rightarrow> tid \<times> act \<Rightarrow> sys option" where
  "pnext s l =
     (let t = fst l; x = thr_of s t in
      if t < length (threads s) then
        (case (t_pc x, snd l) of
           (PUser, Spawn nm en ac av ok) \<Rightarrow> Some (spawn_op t nm en ac av ok s)
         | (PUser, ThreadCreate fn) \<Rightarrow> Some (create_enter t fn s)
         | (PUser, Return code) \<Rightarrow> Some (return_op t code s)
         | (PUser, Exit code) \<Rightarrow> Some (exit_op t code s)
         | (PUser, Wait pid) \<Rightarrow> Some (wait_op t pid s)
         | (PCreate, CreateOk) \<Rightarrow> map_option (\<lambda>i. create_ok t i s) (current x)
         | (PCreate, CreateErr) \<Rightarrow> Some (goto t PCreateFailed s)
         | (PCreateFailed, CreateUndo) \<Rightarrow> map_option (\<lambda>i. create_undo t i s) (current x)
         | (PDrain w, Wake) \<Rightarrow> map_option (\<lambda>i. drain_loop i t s) (current x)
         | (PWait i w, Wake) \<Rightarrow> Some (wait_loop i t s)
         | (PJoin i mt, Join) \<Rightarrow> if at s mt PDead then Some (goto t (PReap i) s) else None
         | (PReap i, Reap) \<Rightarrow> Some (reap_op t i s)
         | (PLeaving, End) \<Rightarrow> Some (goto t PDead s)
         | _ \<Rightarrow> None)
      else None)"

lemma pnext_iff: "pnext s (t, a) = Some s' \<longleftrightarrow> pstep s t a s'"
  by (cases a; cases "t_pc (thr_of s t)")
     (auto simp: pnext_def Let_def pstep_simps split: if_splits)

fun prun_free :: "sys \<Rightarrow> (tid \<times> act) list \<Rightarrow> sys option" where
  "prun_free s [] = Some s"
| "prun_free s (l # ls) = (case pnext s l of None \<Rightarrow> None | Some u \<Rightarrow> prun_free u ls)"

fun prun :: "sys \<Rightarrow> (tid \<times> act) list \<Rightarrow> sys option" where
  "prun s [] = Some s"
| "prun s (l # ls) =
     (if one_waiter s (snd l) \<and> no_wrap s (snd l)
      then (case pnext s l of None \<Rightarrow> None | Some u \<Rightarrow> prun u ls) else None)"

lemma prun_free_iff:
  "prun_free s ls = Some s' \<longleftrightarrow> execution (\<lambda>s l s'. pstep s (fst l) (snd l) s') s ls s'"
  by (induction ls arbitrary: s) (auto simp: execution_Cons pnext_iff [symmetric] split: option.splits)

lemma prun_iff: "prun s ls = Some s' \<longleftrightarrow> execution pfair s ls s'"
  by (induction ls arbitrary: s)
     (auto simp: execution_Cons pfair_def pnext_iff [symmetric] split: option.splits)

lemma pfair_free: "execution pfair s ls s' \<Longrightarrow> execution (\<lambda>s l s'. pstep s (fst l) (snd l) s') s ls s'"
  by (induction rule: execution.induct) (auto simp: pfair_def intro: execution.intros)

text \<open>Evaluating a run: the table stays a chain of updates and is only read by index.\<close>

lemmas run_simps = pnext_def spawn_op_def create_enter_def create_ok_def create_undo_def
  return_op_def exit_op_def main_epilogue_def aux_epilogue_def request_exit_def drain_loop_def
  drop_aux_def wait_op_def wait_loop_def reap_op_def goto_def return_def set_thr_def upd_sl_def
  broadcast_def wake_state_def wake_aux_def new_thread_def one_waiter_def no_wrap_def
  waiting_on_def find_locked_def spawn_slot_def pproc_spawn_def Let_def table_simps

lemma length_table_upd [simp]:
  "length (table (G\<lparr>next_pid := n\<rparr>)) = length (table G)"
  "length (table (G\<lparr>live := l\<rparr>)) = length (table G)"
  "length (table (G\<lparr>initialized := b\<rparr>)) = length (table G)"
  by simp_all

text \<open>
  A process that starts an auxiliary thread and calls \<open>pproc_exit(7)\<close> while the host
  waits for it; the auxiliary thread returns, the main thread drains and ends.
\<close>

definition demo_schedule :: "(tid \<times> act) list" where
  "demo_schedule =
     [(0, Spawn (Some ''a.exe'') (Some 1) 1 [''a.exe''] True), (1, ThreadCreate True),
      (1, CreateOk), (0, Wait 1), (1, Exit 7), (2, Return 0), (1, Wake), (1, End),
      (2, End), (0, Wake), (0, Join)]"

definition demo_at :: "nat \<Rightarrow> sys" where
  "demo_at k = the (prun (start_sys 1) (take k demo_schedule))"

lemma demo_run: "prun (start_sys 1) demo_schedule \<noteq> None"
  by (simp add: demo_schedule_def run_simps)

lemma prun_prefix: "prun s (ks @ ls) \<noteq> None \<Longrightarrow> prun s ks \<noteq> None"
  by (induction ks arbitrary: s) (auto split: option.splits if_splits)

lemma demo_exec: "execution pfair (start_sys 1) (take k demo_schedule) (demo_at k)"
proof -
  have "prun (start_sys 1) (take k demo_schedule) \<noteq> None"
    by (metis append_take_drop_id demo_run prun_prefix)
  then show ?thesis by (auto simp: prun_iff [symmetric] demo_at_def)
qed

lemma demo_between:
  assumes "j \<le> k"
  shows "execution pfair (demo_at j) (drop j (take k demo_schedule)) (demo_at k)"
proof -
  have "take k demo_schedule = take j demo_schedule @ drop j (take k demo_schedule)"
    by (metis append_take_drop_id assms min.absorb1 take_take)
  with demo_exec [of k] obtain u where "execution pfair (start_sys 1) (take j demo_schedule) u"
    "execution pfair u (drop j (take k demo_schedule)) (demo_at k)"
    by (metis execution_append)
  with demo_exec [of j] show ?thesis by (metis option.inject prun_iff)
qed

lemmas demo_simps = demo_at_def demo_schedule_def run_simps

end
