(* ===== verification/PprocHistory.thy ===== *)
theory PprocHistory
  imports PprocRun
begin

text \<open>
  What a process and a thread keep from step to step: a used slot stays the same process
  (pid, name, arguments, main thread, the first exit code) until it is reaped, a thread
  keeps its role and an ended one stays ended, and the pid counter only counts up.
\<close>

definition same_process :: "pproc \<Rightarrow> pproc \<Rightarrow> bool" where
  "same_process p q \<longleftrightarrow> used q \<and> p_pid q = p_pid p \<and> p_name q = p_name p \<and>
     p_argv q = p_argv p \<and> p_main_thread q = p_main_thread p \<and>
     (p_state p = PROC_EXITED \<longrightarrow> p_state q = PROC_EXITED) \<and>
     (p_exit_requested p \<longrightarrow> p_exit_requested q \<and> p_exit_code q = p_exit_code p)"

lemma same_process_refl [simp]: "same_process p p \<longleftrightarrow> used p"
  by (auto simp: same_process_def)

lemma same_process_upd [simp]:
  "same_process p (p\<lparr>p_aux_threads := n\<rparr>) \<longleftrightarrow> used p"
  "same_process p (p\<lparr>p_state := PROC_EXITED\<rparr>)"
  "\<not> p_exit_requested p \<Longrightarrow> same_process p (p\<lparr>p_exit_code := c, p_exit_requested := True\<rparr>) \<longleftrightarrow> used p"
  by (auto simp: same_process_def used_def)

lemma same_process_trans: "same_process p q \<Longrightarrow> same_process q r \<Longrightarrow> same_process p r"
  by (auto simp: same_process_def)

lemma same_request_exit: "used (sl s i) \<Longrightarrow> same_process (sl s i) (sl (request_exit k c s) i)"
  by (auto simp: request_exit_def)

lemma same_drain_loop: "used (sl s i) \<Longrightarrow> same_process (sl s i) (sl (drain_loop k t s) i)"
  by (auto simp: drain_loop_def goto_def)

lemma same_drop_aux: "used (sl s i) \<Longrightarrow> same_process (sl s i) (sl (drop_aux k s) i)"
  by (auto simp: drop_aux_def Let_def)

lemma goto_return_g [simp]: "g (goto t c s) = g s" "g (return t r s) = g s"
  by (simp_all add: goto_def return_def)

lemmas same_ops = same_request_exit same_drain_loop same_drop_aux

lemma same_usedD: "same_process p q \<Longrightarrow> used q" by (simp add: same_process_def)

lemma same_request_then:
  assumes "used (sl s i)"
  shows "same_process (sl s i) (sl (drain_loop k t (request_exit j c s)) i)"
    and "same_process (sl s i) (sl (drop_aux k (request_exit j c s)) i)"
proof -
  have 1: "same_process (sl s i) (sl (request_exit j c s) i)"
    using assms by (rule same_request_exit)
  note u = same_usedD [OF 1]
  show "same_process (sl s i) (sl (drain_loop k t (request_exit j c s)) i)"
    using same_process_trans [OF 1 same_drain_loop [OF u]] .
  show "same_process (sl s i) (sl (drop_aux k (request_exit j c s)) i)"
    using same_process_trans [OF 1 same_drop_aux [OF u]] .
qed

lemma same_return_op:
  assumes u: "used (sl s i)"
  shows "same_process (sl s i) (sl (return_op t c s) i)"
  unfolding return_op_def main_epilogue_def aux_epilogue_def using u
  by (cases "t_role (thr_of s t)") (simp_all add: same_drop_aux same_request_then)

lemma same_exit_op:
  assumes u: "used (sl s i)"
  shows "same_process (sl s i) (sl (exit_op t c s) i)"
  unfolding exit_op_def using u
  by (cases "current (thr_of s t)")
     (simp_all add: Let_def same_request_exit same_request_then del: request_exit_sel current.simps)

lemma same_spawn_op:
  assumes "used (sl s i)" "i < MAX_PPROCS" "length (table (g s)) = MAX_PPROCS"
  shows "same_process (sl s i) (sl (spawn_op t nm en ac av ok s) i)"
  using assms
  by (cases "spawn_slot en ac (g s)")
     (auto simp: spawn_op_def Let_def pproc_spawn_refused pproc_spawn_created
       pproc_spawn_thread_failed slot_set_slot_cases used_def dest: spawn_slot_SomeD)

lemma same_wait_loop: "used (sl s i) \<Longrightarrow> same_process (sl s i) (sl (wait_loop k t s) i)"
  by (simp add: wait_loop_def)

lemma pstep_slot:
  assumes "pstep s t a s'" "length (table (g s)) = MAX_PPROCS" "i < MAX_PPROCS" "used (sl s i)"
  shows "same_process (sl s i) (sl s' i) \<or> a = Reap \<and> at s t (PReap i) \<and> sl s' i = zero_pproc"
  using assms
  by (induction rule: pstep.induct)
     (auto simp: same_return_op same_exit_op same_spawn_op same_wait_loop same_drain_loop same_drop_aux
       create_enter_def create_ok_def create_undo_def wait_op_def reap_op_def Let_def free_slot_locked_eq
       slot_set_slot_cases split: option.splits if_splits)

text \<open>A thread keeps its role and never comes back.\<close>

definition ages :: "thr \<Rightarrow> thr \<Rightarrow> bool" where
  "ages x y \<longleftrightarrow> t_role y = t_role x \<and> (alive y \<longrightarrow> alive x)"

lemma ages_refl [simp]: "ages x x" by (simp add: ages_def)

definition threads_age :: "sys \<Rightarrow> sys \<Rightarrow> bool" where
  "threads_age s s' \<longleftrightarrow> length (threads s) \<le> length (threads s') \<and>
     (\<forall>t<length (threads s). ages (thr_of s t) (thr_of s' t))"

lemma threads_age_refl [simp]: "threads_age s s" by (simp add: threads_age_def)

lemma threads_age_trans: "threads_age s u \<Longrightarrow> threads_age u v \<Longrightarrow> threads_age s v"
  by (auto simp: threads_age_def ages_def)

lemma age_goto: "alive (thr_of s t) \<or> c = PLeaving \<or> c = PDead \<Longrightarrow> threads_age s (goto t c s)"
  by (auto simp: threads_age_def goto_def ages_def)

lemma age_return: "alive (thr_of s t) \<Longrightarrow> threads_age s (return t r s)"
  by (auto simp: threads_age_def return_def ages_def)

lemma age_upd: "threads s' = threads s \<Longrightarrow> threads_age s s'"
  by (simp add: threads_age_def)

lemma age_append: "threads s' = threads s @ xs \<Longrightarrow> threads_age s s'"
  by (simp add: threads_age_def nth_append)

lemma age_broadcast:
  "threads_age s (broadcast wake_state s)" "threads_age s (broadcast (wake_aux i) s)"
  by (simp_all add: threads_age_def ages_def)

lemma age_then: "threads_age s u \<Longrightarrow> threads_age u v \<Longrightarrow> threads_age s v"
  by (rule threads_age_trans)

lemma age_request_exit: "threads_age s (request_exit i c s)"
  by (simp add: age_upd)

lemma age_upd_sl: "threads_age s (upd_sl i f s)"
  by (simp add: age_upd)

lemma age_goto_leave: "threads_age s (goto t PLeaving s)" "threads_age s (goto t PDead s)"
  by (simp_all add: age_goto)

lemma age_drop_aux: "threads_age s (drop_aux i s)"
  by (auto simp: drop_aux_def Let_def intro: age_upd_sl age_then [OF age_upd_sl] age_broadcast)

lemma age_drain_loop: "alive (thr_of s t) \<Longrightarrow> threads_age s (drain_loop i t s)"
  unfolding drain_loop_def
  by (auto intro: age_goto age_then [OF age_upd_sl age_then [OF age_broadcast(1) age_goto_leave(1)]])

lemma age_request_drain: "alive (thr_of s t) \<Longrightarrow> threads_age s (drain_loop i t (request_exit k c s))"
  by (rule age_then [OF age_request_exit age_drain_loop]) simp

lemma age_return_op: "alive (thr_of s t) \<Longrightarrow> threads_age s (return_op t c s)"
  unfolding return_op_def main_epilogue_def aux_epilogue_def
  by (auto intro: age_goto_leave age_request_drain age_then [OF age_drop_aux age_goto_leave(1)]
      split: role.splits)

lemma age_exit_op: "alive (thr_of s t) \<Longrightarrow> threads_age s (exit_op t c s)"
  unfolding exit_op_def Let_def
  by (auto intro: age_goto_leave age_request_drain
      age_then [OF age_request_exit age_goto_leave(1)]
      age_then [OF age_request_exit age_then [OF age_drop_aux age_goto_leave(1)]]
      simp del: request_exit_sel current.simps split: option.splits)

lemma pstep_age:
  assumes "pstep s t a s'"
  shows "threads_age s s'"
  using assms
proof (induction rule: pstep.induct)
  case (spawn s t nm en ac av ok)
  then show ?case
    by (auto simp: spawn_op_def Let_def alive_def nth_append split: prod.splits
        intro: age_then [OF age_append age_return])
next
  case (create_ok s t i)
  then show ?case
    by (auto simp: create_ok_def alive_def nth_append intro: age_then [OF age_append age_return])
next
  case (create_enter s t fn)
  then show ?case
    by (auto simp: create_enter_def alive_def intro: age_return age_then [OF age_upd_sl age_goto]
        split: option.splits)
next
  case (create_undo s t i)
  then have "alive (thr_of s t)" by (simp add: alive_def)
  then have "alive (thr_of (drop_aux i s) t)"
    using create_undo by (simp add: drop_aux_def Let_def)
  then show ?case
    by (auto simp: create_undo_def intro: age_then [OF age_drop_aux age_return])
next
  case (reap s t i)
  then show ?case
    by (auto simp: reap_op_def Let_def alive_def intro: age_then [OF age_upd age_return])
qed (auto simp: wait_op_def wait_loop_def alive_def
       intro: age_return_op age_exit_op age_drain_loop age_goto age_return age_goto_leave
       split: option.splits)

lemma pstep_next_pid:
  assumes "pstep s t a s'"
  shows "next_pid (g s') = next_pid (g s) \<or>
    (next_pid (g s') = next_pid (g s) + 1 \<and> (\<exists>nm en ac av ok. a = Spawn nm en ac av ok))"
proof (cases "\<exists>nm en ac av ok. a = Spawn nm en ac av ok")
  case True
  with assms show ?thesis
    by (auto simp: pstep_simps spawn_op_def Let_def pproc_spawn_def free_slot_locked_eq
        split: option.splits prod.splits)
next
  case False
  with assms show ?thesis
    by (induction rule: pstep.induct)
       (auto simp: return_op_def main_epilogue_def aux_epilogue_def exit_op_def Let_def
         create_enter_def create_ok_def create_undo_def wait_op_def wait_loop_def reap_op_def
         request_exit_def free_slot_locked_eq drain_loop_def drop_aux_def split: option.splits role.splits)
qed

section \<open>Histories\<close>

lemma reach_invD:
  assumes "execution pfair (start_sys n) tr s"
  shows "pproc_inv s"
  using assms by (rule reach_pproc_inv)

lemma reach_len: "execution pfair (start_sys n) tr s \<Longrightarrow> length (table (g s)) = MAX_PPROCS"
  by (simp add: inv_len reach_pproc_inv)

lemma alive_running:
  assumes "pproc_inv s" "t < length (threads s)" "alive (thr_of s t)" "current (thr_of s t) = Some i"
  shows "i < MAX_PPROCS" "p_state (sl s i) = PROC_RUNNING" "used (sl s i)"
    "p_pid (sl s i) \<noteq> 0" "pproc_getpid s t = p_pid (sl s i)"
proof -
  from pproc_invD(2) [OF assms(1)] assms show i: "i < MAX_PPROCS" "p_state (sl s i) = PROC_RUNNING"
    by (auto simp: inv_owner_def simp del: current.simps)
  then show u: "used (sl s i)" by (simp add: used_def)
  from pproc_invD(14) [OF assms(1)] i u show "p_pid (sl s i) \<noteq> 0" by (simp add: inv_pids_def)
  from pproc_invD(13) [OF assms(1)] assms(4) show "pproc_getpid s t = p_pid (sl s i)"
    by (simp add: pproc_getpid_def inv_count_def del: current.simps)
qed

text \<open>A live thread's slot is the same process after any step.\<close>

lemma fair_same_process:
  assumes "pproc_inv s" "pfair s l s'" "i < MAX_PPROCS" "p_state (sl s i) = PROC_RUNNING"
  shows "same_process (sl s i) (sl s' i)"
proof -
  have "used (sl s i)" using assms(4) by (simp add: used_def)
  moreover have "\<not> at s (fst l) (PReap i)"
    using pproc_invD(8) [OF assms(1)] assms(4) by (auto simp: inv_reap_def)
  ultimately show ?thesis
    using pstep_slot [of s "fst l" "snd l" s' i] assms inv_len by (auto simp: pfair_def)
qed

lemma ages_current: "ages x y \<Longrightarrow> current y = current x"
  by (simp add: ages_def)

lemma fair_context_step:
  assumes inv: "pproc_inv s" and st: "pfair s l s'"
    and t: "t < length (threads s)" and cur: "current (thr_of s t) = Some i"
    and same: "alive (thr_of s t) \<Longrightarrow> same_process p (sl s i)"
  shows "t < length (threads s') \<and> current (thr_of s' t) = Some i \<and>
     (alive (thr_of s' t) \<longrightarrow> same_process p (sl s' i))"
proof -
  have "threads_age s s'" using st by (auto simp: pfair_def intro: pstep_age)
  then have age: "t < length (threads s')" "ages (thr_of s t) (thr_of s' t)"
    using t by (auto simp: threads_age_def)
  have "same_process p (sl s' i)" if "alive (thr_of s' t)"
  proof -
    have al: "alive (thr_of s t)" using that age(2) by (simp add: ages_def)
    from same_process_trans [OF same [OF al] fair_same_process [OF inv st]]
    show ?thesis using alive_running [OF inv t al cur] by blast
  qed
  with age cur show ?thesis by (simp add: ages_current del: current.simps)
qed

lemma fair_context:
  assumes "execution pfair s ls s'" "pproc_inv s"
    and "t < length (threads s)" "alive (thr_of s t)" "current (thr_of s t) = Some i"
  shows "alive (thr_of s' t) \<longrightarrow> same_process (sl s i) (sl s' i)"
    and "current (thr_of s' t) = Some i" and "t < length (threads s')"
proof -
  let ?P = "\<lambda>u. t < length (threads u) \<and> current (thr_of u t) = Some i \<and>
    (alive (thr_of u t) \<longrightarrow> same_process (sl s i) (sl u i))"
  have "?P s'"
  proof (rule pp.execution_stable [OF _ assms(1,2)])
    show "?P v" if "pproc_inv u" "?P u" "pfair u l v" for u l v
      using fair_context_step [OF that(1,3)] that(2) by blast
    show "?P s"
      using assms alive_running(3) [OF assms(2-5)] by (simp del: current.simps)
  qed
  then show "alive (thr_of s' t) \<longrightarrow> same_process (sl s i) (sl s' i)"
    "current (thr_of s' t) = Some i" "t < length (threads s')" by simp_all
qed

text \<open>The pid of a used slot is below the counter, so it is not given out again.\<close>

definition remembers :: "u32 \<Rightarrow> int \<Rightarrow> sys \<Rightarrow> bool" where
  "remembers pid c s \<longleftrightarrow>
     (next_pid (g s) = 0 \<or> pid < next_pid (g s)) \<and>
     (\<forall>i<MAX_PPROCS. used (sl s i) \<longrightarrow> p_pid (sl s i) = pid \<longrightarrow>
        p_exit_requested (sl s i) \<and> p_exit_code (sl s i) = c)"

lemma other_slot:
  assumes "i \<noteq> k"
  shows "sl (request_exit k c s) i = sl s i" "sl (drain_loop k t s) i = sl s i"
    "sl (drop_aux k s) i = sl s i"
  using assms by (simp_all add: request_exit_def drain_loop_def drop_aux_def Let_def)

lemma pstep_other_slot:
  assumes "pstep s t a s'" "\<not> (\<exists>nm en ac av ok. a = Spawn nm en ac av ok)" "a \<noteq> Reap"
    "alive (thr_of s t) \<Longrightarrow> current (thr_of s t) \<noteq> Some i"
  shows "sl s' i = sl s i"
  using assms
  by (induction rule: pstep.induct)
     (auto simp: other_slot return_op_def main_epilogue_def aux_epilogue_def exit_op_def Let_def
       create_enter_def create_ok_def create_undo_def wait_op_def wait_loop_def alive_def
       split: option.splits role.splits)

lemma pstep_fresh_slot:
  assumes "pstep s t a s'" "i < MAX_PPROCS" "\<not> used (sl s i)" "used (sl s' i)" "pproc_inv s"
  shows "p_pid (sl s' i) = next_pid (g s) \<and> next_pid (g s') = next_pid (g s) + 1 \<and>
     \<not> p_exit_requested (sl s' i)"
proof -
  have len: "length (table (g s)) = MAX_PPROCS" using assms(5) by (rule inv_len)
  have at: "t < length (threads s)" using assms(1) by (auto elim: pstep.cases)
  have "current (thr_of s t) \<noteq> Some i" if "alive (thr_of s t)"
    using alive_running(3) [OF assms(5) at that] assms(3) by blast
  then consider "\<exists>nm en ac av ok. a = Spawn nm en ac av ok" | "a = Reap"
    using pstep_other_slot [OF assms(1), of i] assms(3,4) by metis
  then show ?thesis
  proof cases
    case 1
    with assms len show ?thesis
      by (auto simp: pstep_simps spawn_op_def Let_def pproc_spawn_def slot_set_slot_cases
          free_slot_locked_eq split: option.splits prod.splits if_splits)
  next
    case 2
    with assms len show ?thesis
      by (auto simp: pstep_simps reap_op_def Let_def slot_set_slot_cases free_slot_locked_eq
          split: if_splits)
  qed
qed

lemma remembers_step:
  assumes inv: "pproc_inv s" and mem: "remembers pid c s" and st: "pfair s l s'"
  shows "remembers pid c s'"
  unfolding remembers_def
proof (intro conjI allI impI)
  obtain t a where l: "l = (t, a)" by (cases l)
  with st have ps: "pstep s t a s'" and nw: "no_wrap s a" by (auto simp: pfair_def)
  have cnt: "next_pid (g s) = 0 \<or> pid < next_pid (g s)" using mem by (simp add: remembers_def)
  then show "next_pid (g s') = 0 \<or> pid < next_pid (g s')"
    using pstep_next_pid [OF ps] nw word_less_Suc [of pid "next_pid (g s)"]
    by (cases "next_pid (g s) + 1 = 0") (auto simp: no_wrap_def)
  fix i assume i: "i < MAX_PPROCS" and u: "used (sl s' i)" and p: "p_pid (sl s' i) = pid"
  have "p_exit_requested (sl s' i) \<and> p_exit_code (sl s' i) = c"
  proof (cases "used (sl s i)")
    case True
    with pstep_slot [OF ps inv_len [OF inv] i] u have "same_process (sl s i) (sl s' i)"
      by auto
    with mem i True p show ?thesis by (simp add: remembers_def same_process_def)
  next
    case False
    from pstep_fresh_slot [OF ps i False u inv] have "pid = next_pid (g s)"
      "next_pid (g s') \<noteq> next_pid (g s)" using p by auto
    then have "next_pid (g s) = 0" using cnt by auto
    moreover have "\<exists>nm en ac av ok. a = Spawn nm en ac av ok"
      using pstep_next_pid [OF ps] \<open>next_pid (g s') \<noteq> next_pid (g s)\<close> by auto
    ultimately show ?thesis using nw by (auto simp: no_wrap_def)
  qed
  then show "p_exit_requested (sl s' i)" "p_exit_code (sl s' i) = c" by simp_all
qed

lemma remembers_start:
  assumes "pproc_inv s" "i < MAX_PPROCS" "used (sl s i)" "p_exit_requested (sl s i)"
  shows "remembers (p_pid (sl s i)) (p_exit_code (sl s i)) s"
  using pproc_invD(14) [OF assms(1)] assms(2-4)
  unfolding inv_pids_def remembers_def by metis

lemma fair_ages: "execution pfair s ls s' \<Longrightarrow> threads_age s s'"
  by (induction rule: execution.induct) (auto simp: pfair_def dest: pstep_age intro: age_then)

lemma fair_remembers:
  assumes "execution pfair s ls s'" "pproc_inv s" "remembers pid c s"
  shows "remembers pid c s'"
proof (rule pp.execution_stable [where P = "remembers pid c"])
  show "remembers pid c v" if "pproc_inv u" "remembers pid c u" "pfair u l v" for u l v
    using that by (rule remembers_step)
qed (fact assms)+

lemma fair_current:
  "execution pfair s ls s' \<Longrightarrow> t < length (threads s) \<Longrightarrow>
     t < length (threads s') \<and> current (thr_of s' t) = current (thr_of s t)"
  by (drule fair_ages) (simp add: threads_age_def ages_def)

lemma find_locked_unique:
  assumes "pproc_inv s" "i < MAX_PPROCS" "used (sl s i)"
  shows "find_locked (g s) (p_pid (sl s i)) = Some i"
  unfolding find_locked_def
proof (rule first_in_unique)
  fix j
  assume "j < MAX_PPROCS"
    "p_state (sl s j) \<noteq> SLOT_FREE \<and> p_pid (sl s j) = p_pid (sl s i)"
  with pproc_invD(14) [OF assms(1)] assms show "j = i"
    by (auto simp: inv_pids_def used_def)
qed (use assms in \<open>simp_all add: used_def\<close>)

lemma exited_not_alive:
  assumes "pproc_inv s" "p_state (sl s i) = PROC_EXITED" "t < length (threads s)"
    "current (thr_of s t) = Some i"
  shows "\<not> alive (thr_of s t)"
  using alive_running(2) [OF assms(1,3) _ assms(4)] assms(2) by fastforce

lemma pproc_count_used:
  "pproc_inv s \<Longrightarrow> pproc_count (g s) = count_if used (table (g s))"
  by (simp add: pproc_count_def pproc_invD(13) [unfolded inv_count_def])

end
