(* ===== verification/PprocProps.thy ===== *)
theory PprocProps
  imports PprocHistory
begin

text \<open>
  The properties of the pseudo-process layer, over all interleavings of the machine's
  critical sections from \<open>pproc_init\<close> on, each with a run that exercises it.
\<close>

text \<open>C1: in any interleaving of the threads in which no process has two waiters at once and
  the 32-bit pid counter does not wrap (\<open>pfair\<close>: the code prevents neither), a live thread of a pseudo-process has a context: its
  thread-local pointer names a slot in use whose process is running, so \<open>pproc_getpid\<close>
  returns a valid pid, and a lookup of that pid finds the thread's own slot.\<close>

theorem process_context_safe:
  assumes "execution pfair (start_sys n) tr s"
    and "t < length (threads s)" "alive (thr_of s t)" "current (thr_of s t) = Some i"
  shows "i < MAX_PPROCS \<and> p_state (sl s i) = PROC_RUNNING \<and>
    pproc_getpid s t = p_pid (sl s i) \<and> pproc_getpid s t \<noteq> PPROC_INVALID_PID \<and>
    find_locked (g s) (pproc_getpid s t) = Some i"
proof -
  note inv = reach_pproc_inv [OF assms(1)]
  note al = alive_running [OF inv assms(2-4)]
  from find_locked_unique [OF inv al(1,3)] al show ?thesis by simp
qed

lemma process_context_safe_witness:
  "pproc_getpid (demo_at 6) 1 \<noteq> PPROC_INVALID_PID \<and>
   p_state (sl (demo_at 6) 0) = PROC_RUNNING"
  using process_context_safe [OF demo_exec, of 1 6 0]
  by (simp add: demo_simps alive_def)

text \<open>a thread's process identity does not change while the thread lives: whatever the
  other threads do, \<open>pproc_getpid\<close> and \<open>pproc_getname\<close> answer the same.\<close>

theorem identity_stable:
  assumes "execution pfair (start_sys n) tr s" "execution pfair s tr' s'"
    and "t < length (threads s)" "alive (thr_of s t)" "alive (thr_of s' t)"
  shows "pproc_getpid s' t = pproc_getpid s t \<and> pproc_getname s' t = pproc_getname s t"
proof (cases "current (thr_of s t)")
  case None
  then have "current (thr_of s' t) = None"
    using fair_current [OF assms(2,3)] by simp
  with None show ?thesis by (simp add: pproc_getpid_def pproc_getname_def del: current.simps)
next
  case (Some i)
  note inv = reach_pproc_inv [OF assms(1)]
  note inv' = pp.execution_inv [OF assms(2) inv]
  from fair_context [OF assms(2) inv assms(3,4) Some] assms(5)
  have "same_process (sl s i) (sl s' i)" "current (thr_of s' t) = Some i" by simp_all
  with Some pproc_invD(13) [OF inv] pproc_invD(13) [OF inv'] show ?thesis
    by (simp add: pproc_getpid_def pproc_getname_def same_process_def inv_count_def
        del: current.simps)
qed

lemma identity_stable_witness:
  "pproc_getpid (demo_at 6) 1 = pproc_getpid (demo_at 2) 1 \<and>
   pproc_getname (demo_at 6) 1 = pproc_getname (demo_at 2) 1"
  by (rule identity_stable [OF demo_exec demo_between])
     (simp_all add: demo_simps alive_def)

text \<open>C4: the auxiliary counter is exact (it counts the auxiliary threads that can still
  run and those being created) and a process is marked exited only when none is left and
  no thread of it is alive.\<close>

theorem exited_is_drained:
  assumes "execution pfair (start_sys n) tr s" and "i < MAX_PPROCS"
  shows "p_aux_threads (sl s i) = aux_total i (threads s) \<and>
    (p_state (sl s i) = PROC_EXITED \<longrightarrow>
       p_aux_threads (sl s i) = 0 \<and>
       (\<forall>t<length (threads s). current (thr_of s t) = Some i \<longrightarrow> \<not> alive (thr_of s t)))"
proof -
  note inv = reach_pproc_inv [OF assms(1)]
  from pproc_invD(1) [OF inv] assms(2)
  have c: "p_aux_threads (sl s i) = aux_total i (threads s)" by (simp add: inv_slots_def)
  moreover have "aux_total i (threads s) = 0" if "p_state (sl s i) = PROC_EXITED"
    using exited_not_alive [OF inv that] by (intro aux_total_zero)
  ultimately show ?thesis using exited_not_alive [OF inv] by auto
qed

lemma exited_is_drained_witness:
  "p_state (sl (demo_at 7) 0) = PROC_EXITED \<and> p_aux_threads (sl (demo_at 7) 0) = 0 \<and>
   p_aux_threads (sl (demo_at 4) 0) = 1"
  using exited_is_drained [OF demo_exec, of 0 7] exited_is_drained [OF demo_exec, of 0 4]
  by (simp add: demo_simps)

text \<open>C5: no wake-up is lost. A waiter blocked without a pending signal waits for a process
  that has not exited, whose main thread is alive and will set the state; a main thread
  blocked without one still has auxiliary threads, whose last one will signal it.\<close>

theorem no_lost_wakeup:
  assumes "execution pfair (start_sys n) tr s" and "t < length (threads s)"
  shows "(t_pc (thr_of s t) = PWait i False \<longrightarrow>
            p_state (sl s i) = PROC_RUNNING \<and> alive (thr_of s (p_main_thread (sl s i))))
       \<and> (t_pc (thr_of s t) = PDrain False \<longrightarrow> current (thr_of s t) = Some k \<longrightarrow>
            0 < p_aux_threads (sl s k))"
proof (intro conjI impI)
  note inv = reach_pproc_inv [OF assms(1)]
  {
    assume w: "t_pc (thr_of s t) = PWait i False"
    then have "i < MAX_PPROCS" "p_state (sl s i) \<noteq> SLOT_FREE"
      using pproc_invD(5) [OF inv] assms(2) by (auto simp: inv_wait_def waiting_on_def)
    moreover have "p_state (sl s i) \<noteq> PROC_EXITED"
      using pproc_invD(9) [OF inv] assms(2) w by (auto simp: inv_wakeup_def)
    ultimately show "p_state (sl s i) = PROC_RUNNING"
      "alive (thr_of s (p_main_thread (sl s i)))"
      using pproc_invD(3) [OF inv] pproc_state.exhaust [of "p_state (sl s i)"]
      by (auto simp: inv_main_def)
  }
  assume d: "t_pc (thr_of s t) = PDrain False" and k: "current (thr_of s t) = Some k"
  from pproc_invD(11) [OF inv] assms(2) d obtain j where "t_role (thr_of s t) = MainOf j"
    by (auto simp: inv_drainer_def)
  with k pproc_invD(10) [OF inv] assms(2) d show "0 < p_aux_threads (sl s k)"
    by (auto simp: inv_drain_def)
qed

lemma no_lost_wakeup_witness:
  "p_state (sl (demo_at 4) 0) = PROC_RUNNING \<and> 0 < p_aux_threads (sl (demo_at 5) 0)"
  using no_lost_wakeup [OF demo_exec, of 0 4 0] no_lost_wakeup [OF demo_exec, of 1 5 0 0]
  by (simp add: demo_simps)

lemma zero_globals_sel: "live zero_globals = 0" "initialized zero_globals = False"
  by (simp_all add: zero_globals_def)

text \<open>two processes never have the same pid, and the pid of a process in use is not
  \<open>PPROC_INVALID_PID\<close>.\<close>

theorem pids_distinct:
  assumes "execution pfair (start_sys n) tr s"
    and "i < MAX_PPROCS" "j < MAX_PPROCS" "used (sl s i)" "used (sl s j)"
  shows "p_pid (sl s i) \<noteq> PPROC_INVALID_PID \<and> (p_pid (sl s i) = p_pid (sl s j) \<longleftrightarrow> i = j)"
  using pproc_invD(14) [OF reach_pproc_inv [OF assms(1)]] assms(2-5)
  by (auto simp: inv_pids_def)

lemma pids_distinct_witness: "p_pid (sl (demo_at 3) 0) \<noteq> PPROC_INVALID_PID"
  using pids_distinct [OF demo_exec, of 0 0 3] by (simp add: demo_simps used_def)

text \<open>C3: the exit code of a process is the one of its first exit: once an exit was
  requested, \<open>pproc_wait\<close>, however much later it gets to reap, returns the code recorded
  then, the pid is unknown afterwards, and one process fewer is counted.\<close>

theorem wait_returns_first_exit_code:
  assumes "execution pfair (start_sys n) tr s" "execution pfair s tr' s'"
    and "i < MAX_PPROCS" "used (sl s i)" "p_exit_requested (sl s i)"
    and "at s' t (PReap j)" "p_pid (sl s' j) = p_pid (sl s i)"
    and "s'' = reap_op t j s'"
  shows "pstep s' t Reap s'' \<and> t_ret (thr_of s'' t) = RInt (p_exit_code (sl s i)) \<and>
    find_locked (g s'') (p_pid (sl s i)) = None \<and> pproc_count (g s'') = pproc_count (g s') - 1"
proof -
  note inv = reach_pproc_inv [OF assms(1)]
  note inv' = pp.execution_inv [OF assms(2) inv]
  have j: "j < MAX_PPROCS" "used (sl s' j)"
    using pproc_invD(5) [OF inv'] assms(6) by (auto simp: inv_wait_def waiting_on_def used_def)
  from fair_remembers [OF assms(2) inv remembers_start [OF inv assms(3-5)]] j assms(7)
  have code: "p_exit_code (sl s' j) = p_exit_code (sl s i)" by (simp add: remembers_def)
  have gone: "p_pid (sl s' k) \<noteq> p_pid (sl s' j)" if "k < MAX_PPROCS" "used (sl s' k)" "k \<noteq> j" for k
    using pproc_invD(14) [OF inv'] j that by (auto simp: inv_pids_def)
  have "find_locked (g s'') (p_pid (sl s i)) = None"
    unfolding find_locked_def assms(7,8) [symmetric]
  proof (rule first_in_NoneI)
    fix k assume "k < MAX_PPROCS"
    with gone [of k] inv_len [OF inv'] j
    show "\<not> (p_state (sl s'' k) \<noteq> SLOT_FREE \<and> p_pid (sl s'' k) = p_pid (sl s' j))"
      by (auto simp: assms(8) reap_op_def Let_def return_def free_slot_locked_eq slot_set_slot_cases
          used_def)
  qed
  moreover have "initialized (g s')" using pproc_invD(13) [OF inv'] by (simp add: inv_count_def)
  ultimately show ?thesis using assms(6) code
    by (auto simp: assms(8) reap_op_def Let_def return_def pproc_count_def pstep_simps
        free_slot_locked_eq)
qed

lemma wait_returns_first_exit_code_witness:
  "t_ret (thr_of (reap_op 0 0 (demo_at 11)) 0) = RInt 7"
proof -
  have "t_ret (thr_of (reap_op 0 0 (demo_at 11)) 0) = RInt (p_exit_code (sl (demo_at 5) 0))"
    using wait_returns_first_exit_code [OF demo_exec demo_between, of 5 11 0 0 0]
    by (simp add: demo_simps used_def)
  then show ?thesis by (simp add: demo_simps)
qed

text \<open>the live count is the number of processes not yet reaped; it stays between 0 and
  the size of the table.\<close>

theorem live_count_exact:
  assumes "execution pfair (start_sys n) tr s"
  shows "pproc_count (g s) = count_if used (table (g s)) \<and>
    0 \<le> pproc_count (g s) \<and> pproc_count (g s) \<le> int MAX_PPROCS"
  using pproc_count_used [OF reach_pproc_inv [OF assms]] reach_len [OF assms]
    count_if_le_length [of used "table (g s)"] by simp

lemma live_count_exact_witness: "0 \<le> pproc_count (g (demo_at 5)) \<and> pproc_count (g (demo_at 5)) = 1"
  using live_count_exact [OF demo_exec, of 5]
  by (simp add: demo_simps pproc_count_def zero_globals_sel)

text \<open>a spawn is refused with \<open>PPROC_INVALID_PID\<close> and no effect exactly when the layer
  is not initialized, the entry is NULL, \<open>argc\<close> is negative or every slot is in use.\<close>

theorem spawn_refused:
  "(spawn_slot en ac G = None \<longleftrightarrow>
      \<not> initialized G \<or> en = None \<or> ac < 0 \<or> (\<forall>i<MAX_PPROCS. used (slot G i))) \<and>
   (spawn_slot en ac G = None \<longrightarrow> pproc_spawn nm en ac av created G = (PPROC_INVALID_PID, G))"
  by (auto simp: spawn_slot_None_iff used_def pproc_spawn_refused)

lemma spawn_refused_witness:
  "pproc_spawn (Some ''a'') (Some 1) 0 [] (Some 3) zero_globals = (PPROC_INVALID_PID, zero_globals)"
  using spawn_refused [of "Some 1" 0 zero_globals "Some ''a''" "[]" "Some 3"]
  by (simp add: zero_globals_def)

text \<open>a spawn that is not refused returns the counter's value, which was not in use; the
  new process is found under it, running, with the name and the NULL-terminated arguments
  passed, the thread that runs it, no exit request and no auxiliary thread; the other
  processes are as before and one more is counted.\<close>

theorem spawn_creates:
  assumes "execution pfair (start_sys n) tr s" and "spawn_slot en ac (g s) = Some i"
    and "next_pid (g s) \<noteq> 0"
    and "pproc_spawn nm en ac av (Some mt) (g s) = (pid, G')"
  shows "pid \<noteq> PPROC_INVALID_PID \<and> find_locked (g s) pid = None \<and> find_locked G' pid = Some i \<and>
    slot G' i = new_pproc nm en ac av pid mt \<and>
    (\<forall>j<MAX_PPROCS. j \<noteq> i \<longrightarrow> slot G' j = sl s j) \<and>
    pproc_count G' = pproc_count (g s) + 1"
proof -
  note inv = reach_pproc_inv [OF assms(1)]
  note sd = spawn_slot_SomeD [OF assms(2)]
  from assms(4) have pid: "pid = next_pid (g s)"
    and G: "G' = (set_slot i (new_pproc nm en ac av pid mt) (g s))
             \<lparr>next_pid := next_pid (g s) + 1, live := live (g s) + 1\<rparr>"
    by (auto simp: pproc_spawn_created [OF assms(2)])
  have fresh: "p_pid (sl s j) \<noteq> pid" if "j < MAX_PPROCS" "p_state (sl s j) \<noteq> SLOT_FREE" for j
    using pproc_invD(14) [OF inv] that assms(3) pid by (auto simp: inv_pids_def used_def)
  have slots: "slot G' j = (if j = i then new_pproc nm en ac av pid mt else sl s j)" for j
    using reach_len [OF assms(1)] sd by (simp add: G slot_set_slot_cases)
  have "find_locked (g s) pid = None"
    unfolding find_locked_def using fresh by (intro first_in_NoneI) auto
  moreover have "find_locked G' pid = Some i"
    unfolding find_locked_def using sd fresh by (intro first_in_unique) (auto simp: slots split: if_splits)
  moreover have "pproc_count G' = pproc_count (g s) + 1"
    using sd by (simp add: pproc_count_def G)
  ultimately show ?thesis using assms(3) by (auto simp: pid slots)
qed

lemma spawn_creates_witness:
  "find_locked (snd (pproc_spawn None (Some 7) 0 [] (Some 9) (g (demo_at 0)))) 1 = Some 0 \<and>
   p_name (slot (snd (pproc_spawn None (Some 7) 0 [] (Some 9) (g (demo_at 0)))) 0) = Some ''(anonymous)''"
proof -
  define r where "r = pproc_spawn None (Some 7) 0 [] (Some 9) (g (demo_at 0))"
  have s: "spawn_slot (Some 7) 0 (g (demo_at 0)) = Some 0" "next_pid (g (demo_at 0)) = 1"
    by (simp_all add: demo_simps)
  have "fst r = 1" by (simp add: r_def pproc_spawn_created [OF s(1)] s(2))
  then have "pproc_spawn None (Some 7) 0 [] (Some 9) (g (demo_at 0)) = (1, snd r)"
    by (metis prod.collapse r_def)
  from spawn_creates [OF demo_exec s(1) _ this] s(2) show ?thesis
    by (simp add: r_def [symmetric] new_pproc_def)
qed

text \<open>when \<open>pthread_create\<close> fails inside a spawn, the call returns
  \<open>PPROC_INVALID_PID\<close> and gives the slot back: no process is added or changed and none is
  counted, only the pid is spent.\<close>

theorem spawn_thread_failure:
  assumes "spawn_slot en ac G = Some i" and "length (table G) = MAX_PPROCS"
    and "pproc_spawn nm en ac av None G = (r, G')"
  shows "r = PPROC_INVALID_PID \<and> slot G' i = zero_pproc \<and> (\<forall>j. j \<noteq> i \<longrightarrow> slot G' j = slot G j) \<and>
    pproc_count G' = pproc_count G \<and> count_if used (table G') = count_if used (table G) \<and>
    next_pid G' = next_pid G + 1"
proof -
  note sd = spawn_slot_SomeD [OF assms(1)]
  from assms(3) have "r = 0" and G: "G' = (set_slot i zero_pproc G)\<lparr>next_pid := next_pid G + 1\<rparr>"
    by (auto simp: pproc_spawn_thread_failed [OF assms(1)])
  then show ?thesis using sd assms(2)
    by (auto simp: slot_set_slot_cases pproc_count_def count_used_set_slot used_def zero_pproc_def)
qed

lemma spawn_thread_failure_witness:
  "fst (pproc_spawn (Some ''a'') (Some 1) 0 [] None (g (start_sys 1))) = PPROC_INVALID_PID \<and>
   pproc_count (snd (pproc_spawn (Some ''a'') (Some 1) 0 [] None (g (start_sys 1)))) = 0"
  using spawn_thread_failure [of "Some 1" 0 "g (start_sys 1)" 0 "Some ''a''" "[]", OF _ _ prod.collapse [symmetric]]
  by (simp add: run_simps pproc_count_def zero_globals_sel)

text \<open>Joining an ended main thread: three steps of the waiter.\<close>

lemma wait_ended:
  assumes "at s t (PWait i w)" "p_state (sl s i) = PROC_EXITED" "at s (p_main_thread (sl s i)) PDead"
  defines "s1 \<equiv> goto t (PReap i) (goto t (PJoin i (p_main_thread (sl s i))) s)"
  shows "execution pfair s [(t, Wake), (t, Join), (t, Reap)] (reap_op t i s1)"
proof -
  let ?mt = "p_main_thread (sl s i)"
  let ?u = "goto t (PJoin i ?mt) s"
  have ne: "?mt \<noteq> t" using assms(1,3) by auto
  have "pstep s t Wake ?u"
    using pstep.wake_wait [OF assms(1)] assms(2) by (simp add: wait_loop_def)
  moreover have "pstep ?u t Join s1"
    unfolding s1_def using assms(1,3) ne by (intro pstep.join) (auto simp: goto_def)
  moreover have "pstep s1 t Reap (reap_op t i s1)"
    using assms(1) by (intro pstep.reap) (simp add: s1_def goto_def)
  ultimately show ?thesis
    by (auto simp: execution_Cons pfair_def one_waiter_def no_wrap_def)
qed

lemma goto_goto_other_state: "g (goto t c s) = g s" by simp

text \<open>C25: waiting for an exited process completes: at most four more steps, none of them
  one another thread could refuse, take the waiter through the wake-up, the join and the
  reap, with the recorded exit code as the result and the process gone.\<close>

theorem wait_completes:
  assumes "execution pfair (start_sys n) tr s"
    and "at s t (PWait i w)" and "p_state (sl s i) = PROC_EXITED"
  shows "\<exists>tr' s'. length tr' \<le> 4 \<and> execution pfair s tr' s' \<and> at s' t PUser \<and>
    t_ret (thr_of s' t) = RInt (p_exit_code (sl s i)) \<and> \<not> used (sl s' i)"
proof -
  let ?mt = "p_main_thread (sl s i)"
  note inv = reach_pproc_inv [OF assms(1)]
  have i: "i < MAX_PPROCS" "p_state (sl s i) \<noteq> SLOT_FREE"
    using pproc_invD(5) [OF inv] assms(2) by (auto simp: inv_wait_def waiting_on_def)
  then have mt: "?mt < length (threads s)" "\<not> alive (thr_of s ?mt)"
    using pproc_invD(3) [OF inv] assms(3) by (auto simp: inv_main_def)
  have res: "at (reap_op t i u) t PUser \<and>
      t_ret (thr_of (reap_op t i u) t) = RInt (p_exit_code (sl s i)) \<and>
      \<not> used (sl (reap_op t i u) i)"
    if "g u = g s" "length (threads u) = length (threads s)" for u
    using that assms(2) i inv_len [OF inv]
    by (auto simp: reap_op_def Let_def return_def free_slot_locked_eq slot_set_slot_cases)
  show ?thesis
  proof (cases "t_pc (thr_of s ?mt) = PDead")
    case True
    with wait_ended [OF assms(2,3)] mt(1) res show ?thesis
      by (intro exI [of _ "[(t, Wake), (t, Join), (t, Reap)]"] exI conjI)
         (auto simp: goto_def)
  next
    case False
    with mt have lv: "at s ?mt PLeaving" by (simp add: alive_def)
    let ?s = "goto ?mt PDead s"
    have "?mt \<noteq> t" using lv assms(2) by auto
    then have "at ?s t (PWait i w)" "p_state (sl ?s i) = PROC_EXITED"
      "at ?s (p_main_thread (sl ?s i)) PDead"
      using assms(2,3) mt(1) by (simp_all add: goto_def)
    note ex = wait_ended [OF this]
    have "pfair s (?mt, End) ?s"
      using pstep.ended [OF lv] by (simp add: pfair_def one_waiter_def no_wrap_def)
    from move [OF this ex] res show ?thesis
      by (intro exI [of _ "(?mt, End) # [(t, Wake), (t, Join), (t, Reap)]"] exI conjI)
         (auto simp: goto_def)
  qed
qed

lemma wait_completes_witness:
  "\<exists>tr' s'. length tr' \<le> 4 \<and> execution pfair (demo_at 7) tr' s' \<and> at s' 0 PUser \<and>
    t_ret (thr_of s' 0) = RInt 7 \<and> \<not> used (sl s' 0)"
  using wait_completes [OF demo_exec, of 0 7 0 True] by (simp add: demo_simps)

text \<open>the main thread's way out never hangs on a finished process: blocked in the drain
  loop with no auxiliary thread left it has its signal, and its next step marks the process
  exited and signals every thread that waits for it.\<close>

theorem drained_main_exits:
  assumes "execution pfair (start_sys n) tr s"
    and "at s t (PDrain w)" "current (thr_of s t) = Some i" "aux_total i (threads s) = 0"
  shows "w \<and> (\<exists>s'. pfair s (t, Wake) s' \<and> p_state (sl s' i) = PROC_EXITED \<and> at s' t PLeaving \<and>
    (\<forall>u<length (threads s). \<forall>j b. t_pc (thr_of s u) = PWait j b \<longrightarrow> t_pc (thr_of s' u) = PWait j True))"
proof -
  note inv = reach_pproc_inv [OF assms(1)]
  from assms(2) have al: "t < length (threads s)" "alive (thr_of s t)" by (simp_all add: alive_def)
  have i: "i < MAX_PPROCS" "p_aux_threads (sl s i) = 0"
    using alive_running(1) [OF inv al assms(3)] pproc_invD(1) [OF inv] assms(4)
    by (auto simp: inv_slots_def)
  from pproc_invD(11) [OF inv] assms(2) obtain j where "t_role (thr_of s t) = MainOf j"
    by (auto simp: inv_drainer_def)
  with assms(2,3) i pproc_invD(10) [OF inv] have w: w
    by (auto simp: inv_drain_def)
  have st: "pfair s (t, Wake) (drain_loop i t s)"
    using pstep.wake_drain [OF assms(2,3)] by (simp add: pfair_def one_waiter_def no_wrap_def)
  have dl: "drain_loop i t s = goto t PLeaving
      (broadcast wake_state (upd_sl i (\<lambda>p. p\<lparr>p_state := PROC_EXITED\<rparr>) s))"
    using i(2) by (simp add: drain_loop_def)
  have ex: "p_state (sl (drain_loop i t s) i) = PROC_EXITED" "at (drain_loop i t s) t PLeaving"
    using i inv_len [OF inv] al by (simp_all add: dl goto_def)
  have "\<forall>u<length (threads s). \<forall>j b. t_pc (thr_of s u) = PWait j b \<longrightarrow>
      t_pc (thr_of (drain_loop i t s) u) = PWait j True"
    using assms(2) by (auto simp: dl goto_def)
  with w st ex show ?thesis by blast
qed

lemma drained_main_exits_witness:
  "\<exists>s'. pfair (demo_at 6) (1, Wake) s' \<and> p_state (sl s' 0) = PROC_EXITED"
  using drained_main_exits [OF demo_exec, of 1 6 True 0]
  by (auto simp: demo_simps aux_total_def aux_alive_def alive_def creating_def)

text \<open>\<open>pproc_exit\<close> and the return of the entry record an exit code only on the first
  exit of the process; an auxiliary thread that calls \<open>pproc_exit\<close> ends itself and takes
  itself off the count, the main thread drains first.\<close>

theorem exit_effect:
  assumes "execution pfair (start_sys n) tr s"
    and "at s t PUser" "current (thr_of s t) = Some i" and s'_def: "s' = exit_op t code s"
  shows "p_exit_requested (sl s' i) \<and>
    p_exit_code (sl s' i) = (if p_exit_requested (sl s i) then p_exit_code (sl s i) else code) \<and>
    (t_role (thr_of s t) = AuxOf i \<longrightarrow>
       at s' t PLeaving \<and> p_aux_threads (sl s' i) = p_aux_threads (sl s i) - 1) \<and>
    (t_role (thr_of s t) = MainOf i \<longrightarrow>
       (if p_aux_threads (sl s i) = 0 then at s' t PLeaving \<and> p_state (sl s' i) = PROC_EXITED
        else at s' t (PDrain False) \<and> p_state (sl s' i) = PROC_RUNNING))"
proof -
  note inv = reach_pproc_inv [OF assms(1)]
  have al: "t < length (threads s)" "alive (thr_of s t)" using assms(2) by (simp_all add: alive_def)
  note run = alive_running [OF inv al assms(3)]
  note len = inv_len [OF inv]
  have cnt: "p_aux_threads (sl s i) = aux_total i (threads s)"
    using pproc_invD(1) [OF inv] run(1) by (simp add: inv_slots_def)
  show ?thesis
  proof (cases "t_role (thr_of s t)")
    case Host with assms(3) show ?thesis by simp
  next
    case (MainOf k)
    with assms(3) have k: "t_role (thr_of s t) = MainOf i" by simp
    with pproc_invD(4) [OF inv] al have "p_main_thread (sl s i) = t" by (simp add: inv_role_def)
    moreover have "0 < aux_total i (threads s) \<longleftrightarrow> aux_total i (threads s) \<noteq> 0"
      using aux_total_nonneg [of i "threads s"] by linarith
    ultimately show ?thesis using k run(1,2) len al cnt
      by (auto simp: s'_def exit_op_def Let_def drain_loop_def goto_def request_exit_def)
  next
    case (AuxOf k)
    with assms(3) have k: "t_role (thr_of s t) = AuxOf i" by simp
    have "p_main_thread (sl s i) \<noteq> t"
      using pproc_invD(3) [OF inv] run(1,2) k by (auto simp: inv_main_def)
    moreover have "0 < p_aux_threads (sl s i)"
      using aux_weight_le [OF al(1), of i] aux_weight_pos [of i "thr_of s t"] k al(2) cnt
      by (simp add: aux_alive_def)
    ultimately show ?thesis using k run(1,2) len al
      by (auto simp: s'_def exit_op_def Let_def drop_aux_def goto_def request_exit_def)
  qed
qed

lemma exit_effect_witness: "p_exit_code (sl (exit_op 1 7 (demo_at 4)) 0) = 7"
  using exit_effect [OF demo_exec _ _ refl, of 1 4 0 7] by (simp add: demo_simps)

text \<open>misuse is answered by an error value and changes no process: a thread with no
  process gets pid 0, no name, no exit request and -1 from \<open>pproc_thread_create\<close>; a NULL
  function gets -1; waiting for a pid that is not in use, reaped ones included, returns -1
  at once; before \<open>pproc_init\<close> every call fails.\<close>

theorem misuse_errors:
  "(current (thr_of s t) = None \<longrightarrow>
      pproc_getpid s t = PPROC_INVALID_PID \<and> pproc_getname s t = None \<and> \<not> pproc_exiting s t \<and>
      create_enter t fn s = return t (RInt (-1)) s) \<and>
   create_enter t False s = return t (RInt (-1)) s \<and>
   (find_locked (g s) pid = None \<longrightarrow> wait_op t pid s = return t (RInt (-1)) s) \<and>
   (\<not> initialized (g s) \<longrightarrow>
      pproc_getpid s t = PPROC_INVALID_PID \<and> pproc_getname s t = None \<and> \<not> pproc_exiting s t \<and>
      pproc_count (g s) = 0 \<and> wait_op t pid s = return t (RInt (-1)) s \<and>
      pproc_spawn nm en ac av cr (g s) = (PPROC_INVALID_PID, g s)) \<and>
   g (return t (RInt (-1)) s) = g s"
  by (auto simp: pproc_getpid_def pproc_getname_def pproc_exiting_def create_enter_def wait_op_def
      pproc_count_def pproc_spawn_def spawn_slot_def split: option.splits simp del: current.simps)

lemma misuse_errors_witness:
  "pproc_getpid (demo_at 5) 0 = PPROC_INVALID_PID \<and>
   wait_op 0 77 (start_sys 1) = return 0 (RInt (-1)) (start_sys 1)"
proof -
  have "find_locked (g (start_sys 1)) 77 = None"
    unfolding find_locked_def by (rule first_in_NoneI) simp
  then show ?thesis
    using misuse_errors [of "demo_at 5" 0 True 0] misuse_errors [of "start_sys 1" 0 True 77]
    by (simp add: demo_simps)
qed

abbreviation psteps :: "sys \<Rightarrow> (tid \<times> act) list \<Rightarrow> sys \<Rightarrow> bool" where
  "psteps \<equiv> execution (\<lambda>s l s'. pstep s (fst l) (snd l) s')"

text \<open>with two waiters on one process the second can be left behind: when the first
  reaps before the second has run its loop test, the second goes back to sleep on a slot
  that is free, with no thread left to wake it.\<close>

theorem second_waiter_hangs:
  "\<exists>tr s. psteps (start_sys 2) tr s \<and> t_pc (thr_of s 1) = PWait 0 False \<and>
     p_state (sl s 0) = SLOT_FREE \<and> pproc_count (g s) = 0 \<and>
     list_all (\<lambda>x. current x = None \<or> t_pc x = PDead) (threads s)"
proof -
  let ?tr = "[(0, Spawn None (Some 7) 0 [] True), (0, Wait 1), (1, Wait 1), (2, Return 5), (2, End),
    (0, Wake), (0, Join), (0, Reap), (1, Wake)]"
  obtain s where s: "prun_free (start_sys 2) ?tr = Some s" and
    "t_pc (thr_of s 1) = PWait 0 False \<and>
     p_state (sl s 0) = SLOT_FREE \<and> pproc_count (g s) = 0 \<and>
     list_all (\<lambda>x. current x = None \<or> t_pc x = PDead) (threads s)"
    by (simp add: run_simps pproc_count_def numeral_2_eq_2 less_Suc_eq zero_globals_def [THEN arg_cong, of live])
  then show ?thesis unfolding prun_free_iff by blast
qed

text \<open>with two waiters past the loop test both reap: the slot is freed twice and the
  count of live processes becomes negative.\<close>

theorem double_reap:
  "\<exists>tr s. psteps (start_sys 2) tr s \<and> pproc_count (g s) = -1"
proof -
  let ?tr = "[(0, Spawn None (Some 7) 0 [] True), (0, Wait 1), (1, Wait 1), (2, Return 5), (2, End),
    (0, Wake), (1, Wake), (0, Join), (1, Join), (0, Reap), (1, Reap)]"
  obtain s where "prun_free (start_sys 2) ?tr = Some s" and "pproc_count (g s) = -1"
    by (simp add: run_simps pproc_count_def numeral_2_eq_2 zero_globals_def [THEN arg_cong, of live])
  then show ?thesis unfolding prun_free_iff by blast
qed

text \<open>A spawn whose thread cannot be created spends a pid; \<open>n\<close> of them spend \<open>n\<close>.\<close>

lemma spend_pids:
  "\<exists>s. psteps (start_sys 1) (replicate n (0, Spawn None (Some 7) 0 [] False)) s \<and>
     next_pid (g s) = of_nat (Suc n) \<and> p_state (sl s 0) = SLOT_FREE \<and> live (g s) = 0 \<and>
     initialized (g s) \<and> length (table (g s)) = MAX_PPROCS \<and>
     length (threads s) = 1 \<and> t_pc (thr_of s 0) = PUser"
proof (induction n)
  case 0
  show ?case by (simp add: run_simps zero_globals_def [THEN arg_cong, of live])
next
  case (Suc n)
  let ?a = "Spawn None (Some 7) 0 [] False"
  from Suc obtain s where s: "psteps (start_sys 1) (replicate n (0, ?a)) s"
    "next_pid (g s) = of_nat (Suc n)" "p_state (sl s 0) = SLOT_FREE" "live (g s) = 0"
    "initialized (g s)" "length (table (g s)) = MAX_PPROCS"
    "length (threads s) = 1" "t_pc (thr_of s 0) = PUser" by blast
  let ?u = "spawn_op 0 None (Some 7) 0 [] False s"
  have sp: "spawn_slot (Some 7) 0 (g s) = Some 0"
    using s by (simp add: spawn_slot_def)
  have "psteps (start_sys 1) (replicate n (0, ?a) @ [(0, ?a)]) ?u"
    using s by (intro execution_snoc [OF s(1)]) (simp add: pstep_simps)
  then have "psteps (start_sys 1) (replicate (Suc n) (0, ?a)) ?u"
    by (metis replicate_Suc replicate_append_same)
  moreover have "next_pid (g ?u) = of_nat (Suc (Suc n)) \<and> p_state (sl ?u 0) = SLOT_FREE \<and>
      live (g ?u) = 0 \<and> initialized (g ?u) \<and> length (table (g ?u)) = MAX_PPROCS \<and>
      length (threads ?u) = 1 \<and> t_pc (thr_of ?u 0) = PUser"
    using s sp
    by (simp add: spawn_op_def Let_def pproc_spawn_thread_failed return_def slot_set_slot_cases)
  ultimately show ?case by blast
qed

text \<open>the pid counter can wrap: after 2^32 - 1 spawns have spent the other values, a
  spawn that succeeds returns \<open>PPROC_INVALID_PID\<close>, the value that reports a failure, while
  the process runs and is counted.\<close>

theorem pid_wrap_returns_invalid:
  "\<exists>tr s. psteps (start_sys 1) tr s \<and> t_ret (thr_of s 0) = RPid PPROC_INVALID_PID \<and>
     p_state (sl s 0) = PROC_RUNNING \<and> p_pid (sl s 0) = PPROC_INVALID_PID \<and> pproc_count (g s) = 1"
proof -
  obtain tr s where s: "psteps (start_sys 1) tr s" "next_pid (g s) = of_nat (Suc (2 ^ 32 - 1))"
    "p_state (sl s 0) = SLOT_FREE" "live (g s) = 0"
    "initialized (g s)" "length (table (g s)) = MAX_PPROCS"
    "length (threads s) = 1" "t_pc (thr_of s 0) = PUser" using spend_pids by blast
  have wrap: "next_pid (g s) = 0"
    by (simp only: s(2)) simp
  let ?u = "spawn_op 0 None (Some 7) 0 [] True s"
  have sp: "spawn_slot (Some 7) 0 (g s) = Some 0"
    using s by (simp add: spawn_slot_def)
  have "psteps (start_sys 1) (tr @ [(0, Spawn None (Some 7) 0 [] True)]) ?u"
    using s by (intro execution_snoc [OF s(1)]) (simp add: pstep_simps)
  moreover have "t_ret (thr_of ?u 0) = RPid PPROC_INVALID_PID \<and>
     p_state (sl ?u 0) = PROC_RUNNING \<and> p_pid (sl ?u 0) = PPROC_INVALID_PID \<and> pproc_count (g ?u) = 1"
    using s sp wrap
    by (simp add: spawn_op_def Let_def pproc_spawn_created return_def slot_set_slot_cases
        pproc_count_def nth_append)
  ultimately show ?thesis by blast
qed

end
