(* ===== verification/Bytes.thy ===== *)
theory Bytes
  imports Prelude
begin

text \<open>
  Machine words in memory and on the wire: the little-endian bytes of a word, as every
  target of the repository (arm64, x86-64) stores it. The wire structs of the server, the
  PE headers and the relocation entries are written and read with these.
\<close>

unbundle bit_operations_syntax

fun le_bytes :: "nat \<Rightarrow> 'a::len word \<Rightarrow> byte list" where
  "le_bytes 0 w = []"
| "le_bytes (Suc n) w = ucast w # le_bytes n (drop_bit 8 w)"

fun le_word :: "byte list \<Rightarrow> 'a::len word" where
  "le_word [] = 0"
| "le_word (b # bs) = ucast b OR push_bit 8 (le_word bs)"

lemma length_le_bytes [simp]: "length (le_bytes n w) = n"
  by (induction n arbitrary: w) auto

lemma le_word_step:
  fixes w :: "'a::len word"
  shows "ucast (ucast w :: byte) OR push_bit 8 (take_bit n (drop_bit 8 w)) = take_bit (8 + n) w"
  by (rule bit_word_eqI) (auto simp: bit_simps not_le less_diff_conv2)

lemma le_word_le_bytes_take: "le_word (le_bytes n w) = take_bit (8 * n) (w :: 'a::len word)"
  by (induction n arbitrary: w) (simp_all add: le_word_step)

lemma le_word_le_bytes: "LENGTH('a) \<le> 8 * n \<Longrightarrow> le_word (le_bytes n w) = (w :: 'a::len word)"
  by (simp add: le_word_le_bytes_take take_bit_word_eq_self)

end
