(* ===== verification/PsrvHandles.thy ===== *)
theory PsrvHandles
  imports Machines Bytes
begin

text \<open>
  The handle table of \<^verbatim>\<open>native/pseudoproc/psrv.c\<close> and the request dispatcher
  \<^verbatim>\<open>handle_request\<close>, whose body is one critical section of \<^verbatim>\<open>s.lock\<close>. The table
  implements a list of owners that only grows: handle \<open>h\<close> is entry \<open>h - 1\<close>, and an
  allocation is an append.
\<close>

section \<open>Data\<close>

abbreviation MAX_HANDLES :: nat where
  "MAX_HANDLES \<equiv> 4096"

abbreviation PSRV_PING :: u32 where "PSRV_PING \<equiv> 1"
abbreviation PSRV_NEW_HANDLE :: u32 where "PSRV_NEW_HANDLE \<equiv> 2"
abbreviation PSRV_DUP_HANDLE :: u32 where "PSRV_DUP_HANDLE \<equiv> 3"

record psrv_request =
  rq_op :: u32
  rq_pid :: u32
  rq_arg :: u64

record psrv_reply =
  rp_status :: u32 \<comment> \<open>\<open>int32_t\<close>, two's complement\<close>
  rp_value :: u64

text \<open>The part of the server state that \<^verbatim>\<open>handle_request\<close> touches.\<close>

record htab =
  handle_owner :: "u32 list"
  next_handle :: u64

definition owner :: "'z htab_scheme \<Rightarrow> u64 \<Rightarrow> u32" where
  "owner s h = handle_owner s ! unat h"

definition set_owner :: "u64 \<Rightarrow> u32 \<Rightarrow> 'z htab_scheme \<Rightarrow> 'z htab_scheme" where
  "set_owner h p s = s\<lparr>handle_owner := (handle_owner s)[unat h := p]\<rparr>"

definition zero_reply :: psrv_reply where
  "zero_reply = \<lparr>rp_status = 0, rp_value = 0\<rparr>"

text \<open>
  \<^verbatim>\<open>h = s.next_handle++; if (h >= MAX_HANDLES) fail; s.handle_owner[h] = pid\<close>: the tail
  that NEW and DUP share.
\<close>

definition grant :: "u32 \<Rightarrow> 'z htab_scheme \<Rightarrow> psrv_reply \<times> 'z htab_scheme" where
  "grant p s =
     (let h = next_handle s; s1 = s\<lparr>next_handle := h + 1\<rparr>
      in if unat h \<ge> MAX_HANDLES then (zero_reply\<lparr>rp_status := -1\<rparr>, s1)
         else (zero_reply\<lparr>rp_value := h\<rparr>, set_owner h p s1))"

definition handle_request ::
  "psrv_request \<Rightarrow> 'z htab_scheme \<Rightarrow> psrv_reply \<times> 'z htab_scheme" where
  "handle_request q s =
     (if rq_op q = PSRV_PING then (zero_reply\<lparr>rp_value := rq_arg q\<rparr>, s)
      else if rq_op q = PSRV_NEW_HANDLE then grant (rq_pid q) s
      else if rq_op q = PSRV_DUP_HANDLE then
        (if unat (rq_arg q) \<ge> MAX_HANDLES \<or> owner s (rq_arg q) = 0
         then (zero_reply\<lparr>rp_status := -1\<rparr>, s)
         else grant (rq_pid q) s)
      else (zero_reply\<lparr>rp_status := -2\<rparr>, s))"

text \<open>Requests served one after the other, in the order they take the lock.\<close>

fun serve :: "psrv_request list \<Rightarrow> 'z htab_scheme \<Rightarrow> psrv_reply list \<times> 'z htab_scheme" where
  "serve [] s = ([], s)"
| "serve (q # qs) s =
     (let (r, s1) = handle_request q s; (rs, s2) = serve qs s1 in (r # rs, s2))"

text \<open>What \<^verbatim>\<open>psrv_start\<close> leaves of this part: all zero, handle 0 reserved.\<close>

definition fresh_htab :: htab where
  "fresh_htab = \<lparr>handle_owner = replicate MAX_HANDLES 0, next_handle = 1\<rparr>"

section \<open>The abstract table\<close>

text \<open>
  The contract: a list of owners, one per handle given out, with room for
  \<open>MAX_HANDLES - 1\<close>. A granted request appends its pid and returns the new length. A handle
  is valid when it was given out and its owner is not 0: the code takes an owner of 0 for a
  free entry, also where a request came with pid 0.
\<close>

fun spec_grant :: "u32 \<Rightarrow> u32 list \<Rightarrow> psrv_reply \<times> u32 list" where
  "spec_grant p os =
     (if length os < MAX_HANDLES - 1
      then (zero_reply\<lparr>rp_value := of_nat (length os + 1)\<rparr>, os @ [p])
      else (zero_reply\<lparr>rp_status := -1\<rparr>, os))"

definition granted :: "u32 list \<Rightarrow> u64 \<Rightarrow> bool" where
  "granted os h \<longleftrightarrow> 1 \<le> unat h \<and> unat h \<le> length os \<and> os ! (unat h - 1) \<noteq> 0"

definition spec_request :: "psrv_request \<Rightarrow> u32 list \<Rightarrow> psrv_reply \<times> u32 list" where
  "spec_request q os =
     (if rq_op q = PSRV_PING then (zero_reply\<lparr>rp_value := rq_arg q\<rparr>, os)
      else if rq_op q = PSRV_NEW_HANDLE then spec_grant (rq_pid q) os
      else if rq_op q = PSRV_DUP_HANDLE then
        (if granted os (rq_arg q) then spec_grant (rq_pid q) os
         else (zero_reply\<lparr>rp_status := -1\<rparr>, os))
      else (zero_reply\<lparr>rp_status := -2\<rparr>, os))"

definition abs_htab :: "'z htab_scheme \<Rightarrow> u32 list" where
  "abs_htab s = take (min (unat (next_handle s)) MAX_HANDLES - 1) (drop 1 (handle_owner s))"

section \<open>The invariant and the refinement\<close>

definition htab_inv :: "'z htab_scheme \<Rightarrow> bool" where
  "htab_inv s \<longleftrightarrow> length (handle_owner s) = MAX_HANDLES \<and> next_handle s \<noteq> 0 \<and>
     handle_owner s ! 0 = 0 \<and>
     (\<forall>i<MAX_HANDLES. unat (next_handle s) \<le> i \<longrightarrow> handle_owner s ! i = 0)"

text \<open>The one condition of the contract: the 64-bit counter does not wrap.\<close>

definition counter_ok :: "'z htab_scheme \<Rightarrow> bool" where
  "counter_ok s \<longleftrightarrow> next_handle s + 1 \<noteq> 0"

definition hstep :: "htab \<Rightarrow> psrv_request \<times> psrv_reply \<Rightarrow> htab \<Rightarrow> bool" where
  "hstep s l t \<longleftrightarrow> counter_ok s \<and> handle_request (fst l) s = (snd l, t)"

definition spec_step :: "u32 list \<Rightarrow> psrv_request \<times> psrv_reply \<Rightarrow> u32 list \<Rightarrow> bool" where
  "spec_step os l os' \<longleftrightarrow> spec_request (fst l) os = (snd l, os')"

lemma length_abs_htab:
  "htab_inv s \<Longrightarrow> length (abs_htab s) = min (unat (next_handle s)) MAX_HANDLES - 1"
  by (simp add: abs_htab_def htab_inv_def)

lemma fresh_htab_inv: "htab_inv fresh_htab"
  by (simp add: htab_inv_def fresh_htab_def)

lemma abs_fresh_htab: "abs_htab fresh_htab = []"
  by (simp add: abs_htab_def fresh_htab_def)

lemma grant_inv:
  assumes "htab_inv s" "next_handle s + 1 \<noteq> 0"
  shows "htab_inv (snd (grant p s))"
  using assms unat_word_Suc [OF assms(2)]
  by (auto simp: grant_def Let_def set_owner_def htab_inv_def nth_list_update less_Suc_eq unat_gt_0)

lemma nth_abs_htab:
  assumes "htab_inv s" "i < length (abs_htab s)"
  shows "abs_htab s ! i = handle_owner s ! Suc i"
  using assms length_abs_htab [OF assms(1)] by (simp add: abs_htab_def htab_inv_def)

lemma granted_iff:
  assumes "htab_inv s"
  shows "granted (abs_htab s) h \<longleftrightarrow> unat h < MAX_HANDLES \<and> owner s h \<noteq> 0"
proof -
  have pos: "1 \<le> unat (next_handle s)"
    using assms by (simp add: htab_inv_def Suc_le_eq unat_gt_0)
  show ?thesis
  proof (cases "1 \<le> unat h \<and> unat h \<le> length (abs_htab s)")
    case True
    then have "abs_htab s ! (unat h - 1) = handle_owner s ! unat h"
      using nth_abs_htab [OF assms, of "unat h - 1"] by (cases "unat h") auto
    moreover have "unat h < MAX_HANDLES" using True length_abs_htab [OF assms] by auto
    ultimately show ?thesis using True by (simp add: granted_def owner_def)
  next
    case False
    with assms pos show ?thesis unfolding granted_def length_abs_htab [OF assms] owner_def htab_inv_def
      by (cases "unat h = 0"; cases "unat h < unat (next_handle s)") auto
  qed
qed

lemma grant_abs:
  assumes "htab_inv s" "next_handle s + 1 \<noteq> 0"
  shows "spec_grant p (abs_htab s) = (fst (grant p s), abs_htab (snd (grant p s)))"
proof -
  have pos: "1 \<le> unat (next_handle s)"
    using assms by (simp add: htab_inv_def Suc_le_eq unat_gt_0)
  have len: "length (handle_owner s) = MAX_HANDLES" using assms by (simp add: htab_inv_def)
  show ?thesis
  proof (cases "unat (next_handle s) < MAX_HANDLES")
    case True
    have "abs_htab (snd (grant p s)) = abs_htab s @ [p]"
      using True pos len unat_word_Suc [OF assms(2)]
      by (auto simp: grant_def Let_def set_owner_def abs_htab_def list_eq_iff_nth_eq nth_append
          nth_list_update min_def)
    then show ?thesis using True pos
      by (simp add: length_abs_htab [OF assms(1)] grant_def Let_def min_def)
  next
    case False
    then show ?thesis using len unat_word_Suc [OF assms(2)]
      by (simp add: length_abs_htab [OF assms(1)] grant_def Let_def abs_htab_def)
  qed
qed

lemma handle_request_inv:
  "htab_inv s \<Longrightarrow> counter_ok s \<Longrightarrow> htab_inv (snd (handle_request q s))"
  by (auto simp: handle_request_def counter_ok_def intro: grant_inv)

lemma handle_request_abs:
  "htab_inv s \<Longrightarrow> counter_ok s \<Longrightarrow>
     spec_request q (abs_htab s) = (fst (handle_request q s), abs_htab (snd (handle_request q s)))"
  by (auto simp: handle_request_def spec_request_def counter_ok_def granted_iff grant_abs
      simp del: spec_grant.simps)

interpretation handles: simulation "\<lambda>s. s = fresh_htab" hstep htab_inv abs_htab "\<lambda>os. os = []" spec_step
proof unfold_locales
  fix s t :: htab and l :: "psrv_request \<times> psrv_reply"
  show "htab_inv s" if "s = fresh_htab" using that fresh_htab_inv by simp
  show "abs_htab s = []" if "s = fresh_htab" using that abs_fresh_htab by simp
  show "htab_inv t" if "htab_inv s" "hstep s l t"
    using handle_request_inv [of s "fst l"] that by (simp add: hstep_def)
  show "spec_step (abs_htab s) l (abs_htab t)" if "htab_inv s" "hstep s l t"
    using handle_request_abs [of s "fst l"] that by (simp add: hstep_def spec_step_def)
qed

end
