(* ===== verification/PsrvIO.thy ===== *)
theory PsrvIO
  imports PsrvHandles
begin

text \<open>
  The socket side of \<^verbatim>\<open>native/pseudoproc/psrv.c\<close>: \<^verbatim>\<open>read_full\<close> and
  \<^verbatim>\<open>write_full\<close> over a kernel that moves any number of bytes per call, interrupts
  calls and fails, the wire image of the two structs, and \<^verbatim>\<open>psrv_call\<close>.

  A schedule lists what successive system calls do. The loops run along it; \<open>None\<close> is a
  schedule that ends while the call still blocks.
\<close>

section \<open>The loops\<close>

datatype io =
    Chunk nat \<comment> \<open>the kernel moves up to this many bytes\<close>
  | Eintr
  | Closed \<comment> \<open>\<open>read\<close> returns 0\<close>
  | Failed \<comment> \<open>-1 with another \<open>errno\<close>\<close>

text \<open>
  Result, buffer filled so far, bytes left in the stream, rest of the schedule. A read moves
  at least one byte when there is one; on an empty stream it keeps blocking.
\<close>

fun read_loop :: "io list \<Rightarrow> nat \<Rightarrow> byte list \<Rightarrow> byte list \<Rightarrow>
    (int \<times> byte list \<times> byte list \<times> io list) option" where
  "read_loop evs len got st =
     (if len \<le> length got then Some (int (length got), got, st, evs)
      else case evs of
        [] \<Rightarrow> None
      | Eintr # es \<Rightarrow> read_loop es len got st
      | Closed # es \<Rightarrow> Some (0, got, st, es)
      | Failed # es \<Rightarrow> Some (-1, got, st, es)
      | Chunk k # es \<Rightarrow>
          let n = min (max 1 k) (len - length got)
          in read_loop es len (got @ take n st) (drop n st))"

declare read_loop.simps [simp del]

definition read_full :: "io list \<Rightarrow> nat \<Rightarrow> byte list \<Rightarrow>
    (int \<times> byte list \<times> byte list \<times> io list) option" where
  "read_full evs len st = read_loop evs len [] st"

text \<open>
  Result, bytes that reached the stream, rest of the schedule. A write may accept nothing.
  \<open>Closed\<close> does not happen to a write; a broken pipe is \<open>Failed\<close>.
\<close>

fun write_loop :: "io list \<Rightarrow> byte list \<Rightarrow> nat \<Rightarrow> byte list \<Rightarrow> (int \<times> byte list \<times> io list) option" where
  "write_loop evs buf put st =
     (if length buf \<le> put then Some (int put, st, evs)
      else case evs of
        [] \<Rightarrow> None
      | Eintr # es \<Rightarrow> write_loop es buf put st
      | Closed # es \<Rightarrow> Some (-1, st, es)
      | Failed # es \<Rightarrow> Some (-1, st, es)
      | Chunk k # es \<Rightarrow>
          let n = min k (length buf - put)
          in write_loop es buf (put + n) (st @ take n (drop put buf)))"

declare write_loop.simps [simp del]

definition write_full :: "io list \<Rightarrow> byte list \<Rightarrow> byte list \<Rightarrow> (int \<times> byte list \<times> io list) option" where
  "write_full evs buf st = write_loop evs buf 0 st"

text \<open>The two loops, one turn at a time.\<close>

lemma read_loop_complete: "len \<le> length got \<Longrightarrow> read_loop evs len got st = Some (int (length got), got, st, evs)"
  by (subst read_loop.simps) simp

lemma read_loop_turn:
  assumes "length got < len"
  shows "read_loop [] len got st = None"
    "read_loop (Eintr # es) len got st = read_loop es len got st"
    "read_loop (Closed # es) len got st = Some (0, got, st, es)"
    "read_loop (Failed # es) len got st = Some (-1, got, st, es)"
    "read_loop (Chunk k # es) len got st =
       read_loop es len (got @ take (min (max 1 k) (len - length got)) st)
         (drop (min (max 1 k) (len - length got)) st)"
  using assms by (subst read_loop.simps; simp add: Let_def)+

lemma write_loop_complete: "length buf \<le> put \<Longrightarrow> write_loop evs buf put st = Some (int put, st, evs)"
  by (subst write_loop.simps) simp

lemma write_loop_turn:
  assumes "put < length buf"
  shows "write_loop [] buf put st = None"
    "write_loop (Eintr # es) buf put st = write_loop es buf put st"
    "write_loop (Closed # es) buf put st = Some (-1, st, es)"
    "write_loop (Failed # es) buf put st = Some (-1, st, es)"
    "write_loop (Chunk k # es) buf put st =
       write_loop es buf (put + min k (length buf - put))
         (st @ take (min k (length buf - put)) (drop put buf))"
  using assms by (subst write_loop.simps; simp add: Let_def)+

lemmas loop_turns = read_loop_complete read_loop_turn write_loop_complete write_loop_turn

section \<open>What the loops move\<close>

text \<open>No byte is lost, duplicated or reordered, and a count is reported only when complete.\<close>

lemma read_loop_result:
  assumes "read_loop evs len got st = Some (r, buf, st', es)" and "length got \<le> len"
  shows "buf @ st' = got @ st \<and> length buf \<le> len \<and>
    (r = int len \<and> length buf = len \<or> r = 0 \<and> Closed \<in> set evs \<or> r = -1 \<and> Failed \<in> set evs)"
  using assms
proof (induction evs arbitrary: got st)
  case Nil
  then show ?case by (cases "length got < len") (auto simp: loop_turns)
next
  case (Cons e evs)
  show ?case
  proof (cases "length got < len")
    case True
    show ?thesis
    proof (cases e)
      case (Chunk k)
      define n where "n = min (max 1 k) (len - length got)"
      with True have n: "length got + n \<le> len" by simp
      from Chunk True Cons.prems(1)
      have "read_loop evs len (got @ take n st) (drop n st) = Some (r, buf, st', es)"
        by (simp add: loop_turns n_def)
      moreover have "length (got @ take n st) \<le> len" using n by auto
      ultimately show ?thesis using Cons.IH [of "got @ take n st" "drop n st"] by auto
    qed (use True Cons in \<open>auto simp: loop_turns\<close>)
  qed (use Cons.prems in \<open>auto simp: loop_turns\<close>)
qed

lemma write_loop_result:
  assumes "write_loop evs buf put st = Some (r, st', es)" and "put \<le> length buf"
  shows "\<exists>k. put \<le> k \<and> k \<le> length buf \<and> st' = st @ take (k - put) (drop put buf) \<and>
      (r = int (length buf) \<and> k = length buf \<or> r = -1 \<and> (Failed \<in> set evs \<or> Closed \<in> set evs))"
  using assms
proof (induction evs arbitrary: put st)
  case Nil
  then show ?case by (cases "put < length buf") (auto simp: loop_turns)
next
  case (Cons e evs)
  show ?case
  proof (cases "put < length buf")
    case True
    show ?thesis
    proof (cases e)
      case (Chunk k)
      define n where "n = min k (length buf - put)"
      with True have n: "put + n \<le> length buf" by simp
      from Chunk True Cons.prems(1)
      have "write_loop evs buf (put + n) (st @ take n (drop put buf)) = Some (r, st', es)"
        by (simp add: loop_turns n_def)
      from Cons.IH [OF this] True n obtain j where
        j: "put + n \<le> j" "j \<le> length buf"
          "st' = st @ take n (drop put buf) @ take (j - (put + n)) (drop (put + n) buf)"
          "r = int (length buf) \<and> j = length buf \<or> r = -1 \<and> (Failed \<in> set evs \<or> Closed \<in> set evs)"
        by auto
      have "take n (drop put buf) @ take (j - (put + n)) (drop (put + n) buf) = take (j - put) (drop put buf)"
        using j(1) take_add [of n "j - (put + n)" "drop put buf"] by (simp add: add.commute)
      with j show ?thesis by (intro exI [of _ j]) auto
    qed (use True Cons in \<open>auto simp: loop_turns intro!: exI [of _ put]\<close>)
  qed (use Cons.prems in \<open>auto simp: loop_turns intro!: exI [of _ put]\<close>)
qed

text \<open>Enough progress in the schedule, and no end of the connection, completes the call.\<close>

definition benign :: "io list \<Rightarrow> bool" where
  "benign evs \<longleftrightarrow> Closed \<notin> set evs \<and> Failed \<notin> set evs"

definition chunks :: "io list \<Rightarrow> nat" where
  "chunks evs = length (filter (\<lambda>e. case e of Chunk k \<Rightarrow> 0 < k | _ \<Rightarrow> False) evs)"

lemma benign_Cons [simp]: "benign (e # evs) \<longleftrightarrow> e \<noteq> Closed \<and> e \<noteq> Failed \<and> benign evs"
  by (auto simp: benign_def)

lemma chunks_Cons [simp]:
  "chunks (e # evs) = (case e of Chunk k \<Rightarrow> of_bool (0 < k) | _ \<Rightarrow> 0) + chunks evs"
  by (simp add: chunks_def split: io.splits)

lemma chunks_Nil [simp]: "chunks [] = 0"
  by (simp add: chunks_def)

lemma read_loop_done:
  assumes "benign evs" "len \<le> length got + length st" "len \<le> length got + chunks evs"
  shows "\<exists>r. read_loop evs len got st = Some r"
  using assms
proof (induction evs arbitrary: got st)
  case Nil
  then show ?case by (simp add: loop_turns)
next
  case (Cons e evs)
  show ?case
  proof (cases "length got < len")
    case True
    show ?thesis
    proof (cases e)
      case (Chunk k)
      define n where "n = min (max 1 k) (len - length got)"
      then have "1 \<le> n" "n \<le> len - length got" using True by auto
      then have "\<exists>r. read_loop evs len (got @ take n st) (drop n st) = Some r"
        using Chunk Cons.prems by (intro Cons.IH) (auto simp: of_bool_def split: if_splits)
      with Chunk True show ?thesis by (simp only: loop_turns n_def)
    qed (use True Cons in \<open>auto simp: loop_turns\<close>)
  qed (simp add: loop_turns)
qed

lemma write_loop_done:
  assumes "benign evs" "length buf \<le> put + chunks evs"
  shows "\<exists>r. write_loop evs buf put st = Some r"
  using assms
proof (induction evs arbitrary: put st)
  case Nil
  then show ?case by (simp add: loop_turns)
next
  case (Cons e evs)
  show ?case
  proof (cases "put < length buf")
    case True
    show ?thesis
    proof (cases e)
      case (Chunk k)
      define n where "n = min k (length buf - put)"
      then have "of_bool (0 < k) \<le> n" using True by auto
      then have "\<exists>r. write_loop evs buf (put + n) (st @ take n (drop put buf)) = Some r"
        using Chunk Cons.prems by (intro Cons.IH) auto
      with Chunk True show ?thesis by (simp only: loop_turns n_def)
    qed (use True Cons in \<open>auto simp: loop_turns\<close>)
  qed (simp add: loop_turns)
qed

lemma read_full_result:
  assumes "read_full evs len st = Some (r, buf, st', es)"
  shows "buf @ st' = st \<and>
    (r = int len \<and> buf = take len st \<and> length buf = len \<or>
     r = 0 \<and> Closed \<in> set evs \<or> r = -1 \<and> Failed \<in> set evs)"
  using read_loop_result [OF assms [unfolded read_full_def]] by auto

lemma read_full_done:
  assumes "benign evs" "len \<le> length st" "len \<le> chunks evs"
  shows "\<exists>es. read_full evs len st = Some (int len, take len st, drop len st, es)"
proof -
  obtain r buf st' es where r: "read_full evs len st = Some (r, buf, st', es)"
    using read_loop_done [of evs len "[]" st] assms by (auto simp: read_full_def)
  from read_full_result [OF r] assms(1)
  have "r = int len" "buf = take len st" "buf @ st' = st" by (auto simp: benign_def)
  then have "st' = drop len st" by (metis append_take_drop_id same_append_eq)
  with r \<open>r = int len\<close> \<open>buf = take len st\<close> show ?thesis by blast
qed

lemma write_full_done:
  assumes "benign evs" "length buf \<le> chunks evs"
  shows "\<exists>es. write_full evs buf st = Some (int (length buf), st @ buf, es)"
proof -
  obtain r st' es where r: "write_loop evs buf 0 st = Some (r, st', es)"
    using write_loop_done [of evs buf 0 st] assms by auto
  from write_loop_result [OF r] assms(1)
  have "r = int (length buf)" "st' = st @ buf" by (auto simp: benign_def)
  with r show ?thesis by (simp add: write_full_def)
qed

section \<open>The structs on the wire\<close>

text \<open>
  Both ends copy the structs as they lie in memory: fields little-endian, the 8-byte field
  aligned, so a reply has four bytes of padding, which the \<^verbatim>\<open>memset\<close> in
  \<^verbatim>\<open>handle_request\<close> cleared.
\<close>

abbreviation STRUCT_SIZE :: nat where
  "STRUCT_SIZE \<equiv> 16"

definition request_bytes :: "psrv_request \<Rightarrow> byte list" where
  "request_bytes q = le_bytes 4 (rq_op q) @ le_bytes 4 (rq_pid q) @ le_bytes 8 (rq_arg q)"

definition bytes_request :: "byte list \<Rightarrow> psrv_request" where
  "bytes_request bs = \<lparr>rq_op = le_word (take 4 bs), rq_pid = le_word (take 4 (drop 4 bs)),
     rq_arg = le_word (take 8 (drop 8 bs))\<rparr>"

definition reply_bytes :: "psrv_reply \<Rightarrow> byte list" where
  "reply_bytes r = le_bytes 4 (rp_status r) @ replicate 4 0 @ le_bytes 8 (rp_value r)"

definition bytes_reply :: "byte list \<Rightarrow> psrv_reply" where
  "bytes_reply bs = \<lparr>rp_status = le_word (take 4 bs), rp_value = le_word (take 8 (drop 8 bs))\<rparr>"

lemma wire_length [simp]:
  "length (request_bytes q) = STRUCT_SIZE" "length (reply_bytes r) = STRUCT_SIZE"
  by (simp_all add: request_bytes_def reply_bytes_def)

lemma bytes_request_inverse [simp]: "bytes_request (request_bytes q) = q"
  by (simp add: bytes_request_def request_bytes_def le_word_le_bytes)

lemma bytes_reply_inverse [simp]: "bytes_reply (reply_bytes r) = r"
  by (simp add: bytes_reply_def reply_bytes_def le_word_le_bytes)

section \<open>The client's call\<close>

text \<open>
  Schedules for the write and the read, the bytes on the way to the server and those on the
  way back. The result is the return value, the reply buffer when it is complete, and the
  two streams.
\<close>

definition psrv_call :: "io list \<Rightarrow> io list \<Rightarrow> psrv_request \<Rightarrow> byte list \<Rightarrow> byte list \<Rightarrow>
    (int \<times> psrv_reply option \<times> byte list \<times> byte list) option" where
  "psrv_call wevs revs q up down =
     (case write_full wevs (request_bytes q) up of
        None \<Rightarrow> None
      | Some (w, up', _) \<Rightarrow>
          if w \<noteq> int STRUCT_SIZE then Some (-1, None, up', down)
          else (case read_full revs STRUCT_SIZE down of
                  None \<Rightarrow> None
                | Some (r, buf, down', _) \<Rightarrow>
                    if r \<noteq> int STRUCT_SIZE then Some (-1, None, up', down')
                    else Some (0, Some (bytes_reply buf), up', down')))"

end
