(* ===== verification/PsrvServer.thy ===== *)
theory PsrvServer
  imports PsrvIO
begin

text \<open>
  The server thread of \<^verbatim>\<open>native/pseudoproc/psrv.c\<close> and its life cycle: the client
  table, one iteration of \<^verbatim>\<open>server_loop\<close>, start, stop and connect, with the
  descriptors that are open and what is in the sockets and the self-pipe. \<open>psrv_connect\<close>
  and \<open>psrv_stop\<close> work outside their critical sections too: the first is two operations,
  the second five (the write, the locked section after the join, the two closes, the store
  to \<open>running\<close>), and the step relation lets the other threads run between any two.
  \<open>psrv_start\<close> is one operation: until its last store \<open>running\<close> is 0, so that the other
  calls return at once. There is one caller of \<open>psrv_start\<close> and one of \<open>psrv_stop\<close> at a
  time.
\<close>

section \<open>State\<close>

abbreviation MAX_CLIENTS :: nat where
  "MAX_CLIENTS \<equiv> 128"

text \<open>The server's end of a client socket, as the kernel holds it.\<close>

record peer =
  pe_in :: "byte list" \<comment> \<open>bytes from the client not yet read\<close>
  pe_out :: "byte list" \<comment> \<open>bytes written to the client\<close>
  pe_reads :: "io list" \<comment> \<open>what reads will do\<close>
  pe_writes :: "io list" \<comment> \<open>what writes will do\<close>

text \<open>How far a call of \<^verbatim>\<open>psrv_stop\<close> has come.\<close>

datatype stop_phase = Not_stopping | Joining | Emptied | Read_closed | Both_closed

text \<open>The struct \<open>s\<close> (its handle part is \<open>htab\<close>), then the kernel's side.\<close>

record psrv = htab +
  running :: bool
  wakeup :: "int \<times> int"
  client_fds :: "int list"
  nclients :: nat
  peers :: "int \<Rightarrow> peer"
  wake_pipe :: "char list"
  open_fds :: "int list"
  looping :: bool \<comment> \<open>the server thread has not returned\<close>
  connecting :: "int list" \<comment> \<open>client ends of the calls half way through \<open>psrv_connect\<close>\<close>
  stop_at :: stop_phase
  late :: "int list" \<comment> \<open>bookkeeping: entries added after \<open>psrv_stop\<close> emptied the table\<close>

definition close_fd :: "int \<Rightarrow> psrv \<Rightarrow> psrv" where
  "close_fd fd s = s\<lparr>open_fds := removeAll fd (open_fds s)\<rparr>"

definition clients :: "psrv \<Rightarrow> int list" where
  "clients s = take (nclients s) (client_fds s)"

text \<open>The ends of the self-pipe that are not closed yet, and whether the table was emptied.\<close>

definition wake_held :: "psrv \<Rightarrow> int list" where
  "wake_held s =
     (if \<not> running s then []
      else case stop_at s of
        Read_closed \<Rightarrow> [snd (wakeup s)] | Both_closed \<Rightarrow> []
      | _ \<Rightarrow> [fst (wakeup s), snd (wakeup s)])"

definition emptied :: "psrv \<Rightarrow> bool" where
  "emptied s \<longleftrightarrow> stop_at s \<in> {Emptied, Read_closed, Both_closed}"

section \<open>The server loop\<close>

text \<open>\<^verbatim>\<open>close(s.client_fds[j]); s.client_fds[j] = s.client_fds[--s.nclients]\<close>\<close>

definition drop_client :: "int \<Rightarrow> psrv \<Rightarrow> psrv" where
  "drop_client fd s =
     (case first_in (\<lambda>j. client_fds s ! j = fd) (nclients s) of
        None \<Rightarrow> s
      | Some j \<Rightarrow>
          let s1 = close_fd (client_fds s ! j) s; n = nclients s - 1
          in s1\<lparr>nclients := n, client_fds := (client_fds s)[j := client_fds s ! n]\<rparr>)"

text \<open>One ready client: read a request, answer it, or drop the connection.\<close>

definition serve_client :: "int \<Rightarrow> psrv \<Rightarrow> psrv option" where
  "serve_client fd s =
     (let p = peers s fd in
      case read_full (pe_reads p) STRUCT_SIZE (pe_in p) of
        None \<Rightarrow> None
      | Some (n, buf, rest, revs) \<Rightarrow>
          let p1 = p\<lparr>pe_in := rest, pe_reads := revs\<rparr>; s1 = s\<lparr>peers := (peers s)(fd := p1)\<rparr>
          in if n \<le> 0 then Some (drop_client fd s1)
             else let (reply, s2) = handle_request (bytes_request buf) s1
                  in (case write_full (pe_writes p1) (reply_bytes reply) (pe_out p1) of
                        None \<Rightarrow> None
                      | Some (_, out, wevs) \<Rightarrow>
                          Some (s2\<lparr>peers := (peers s2)(fd := p1\<lparr>pe_out := out, pe_writes := wevs\<rparr>)\<rparr>)))"

text \<open>
  The ready clients in the order of the poll set, which was copied from the table before
  \<^verbatim>\<open>poll\<close>. \<open>None\<close>: the thread blocks in a read or a write.
\<close>

fun serve_ready :: "(int \<times> bool) list \<Rightarrow> psrv \<Rightarrow> psrv option" where
  "serve_ready [] s = Some s"
| "serve_ready ((fd, ready) # xs) s =
     (if \<not> ready then serve_ready xs s
      else case serve_client fd s of None \<Rightarrow> None | Some s1 \<Rightarrow> serve_ready xs s1)"

datatype polled =
    PollIntr | PollFailed
  | Ready bool "bool list" \<comment> \<open>\<open>POLLIN\<close> on the self-pipe; \<open>POLLIN\<close> or \<open>POLLHUP\<close> per client\<close>

datatype turn = Again | Return_NULL | Blocks

definition server_iter :: "polled \<Rightarrow> psrv \<Rightarrow> turn \<times> psrv" where
  "server_iter po s =
     (case po of
        PollIntr \<Rightarrow> (Again, s)
      | PollFailed \<Rightarrow> (Return_NULL, s\<lparr>looping := False\<rparr>)
      | Ready True _ \<Rightarrow>
          (case wake_pipe s of
             [] \<Rightarrow> (Again, s)
           | c # cs \<Rightarrow>
               if c = CHR ''q'' then (Return_NULL, s\<lparr>wake_pipe := cs, looping := False\<rparr>)
               else (Again, s\<lparr>wake_pipe := cs\<rparr>))
      | Ready False rs \<Rightarrow>
          (case serve_ready (zip (clients s) rs) s of
             None \<Rightarrow> (Blocks, s) | Some s1 \<Rightarrow> (Again, s1)))"

section \<open>Life cycle\<close>

text \<open>
  \<open>pipe_fds\<close>: what \<^verbatim>\<open>pipe\<close> returned, if it did not fail. The rest of the state is
  zeroed first.
\<close>

definition psrv_start :: "(int \<times> int) option \<Rightarrow> bool \<Rightarrow> psrv \<Rightarrow> int \<times> psrv" where
  "psrv_start pipe_fds thread_ok s =
     (if running s then (0, s)
      else
        let s0 = s\<lparr>running := False, wakeup := (0, 0), client_fds := replicate MAX_CLIENTS 0,
                   nclients := 0, late := [], handle_owner := replicate MAX_HANDLES 0, next_handle := 1\<rparr>
        in (case pipe_fds of
              None \<Rightarrow> (-1, s0)
            | Some (a, b) \<Rightarrow>
                let s1 = s0\<lparr>wakeup := (a, b), wake_pipe := [], open_fds := a # b # open_fds s0\<rparr>
                in if \<not> thread_ok then (-1, close_fd b (close_fd a s1))
                   else (0, s1\<lparr>running := True, looping := True\<rparr>)))"

text \<open>
  \<^verbatim>\<open>psrv_stop\<close> up to \<^verbatim>\<open>pthread_join\<close>; \<open>wrote\<close>: the \<open>'q'\<close> went into the
  pipe. The result says whether the call goes on.
\<close>

definition stop_send :: "bool \<Rightarrow> psrv \<Rightarrow> bool \<times> psrv" where
  "stop_send wrote s =
     (if \<not> running s \<or> \<not> wrote then (False, s)
      else (True, s\<lparr>wake_pipe := wake_pipe s @ [CHR ''q''], stop_at := Joining\<rparr>))"

text \<open>The critical section once the server thread has been joined.\<close>

definition stop_clear :: "psrv \<Rightarrow> psrv" where
  "stop_clear s = (fold close_fd (clients s) s)\<lparr>nclients := 0, late := [], stop_at := Emptied\<rparr>"

text \<open>Then, without the lock, the two closes and the store to \<open>running\<close>.\<close>

definition stop_close_read :: "psrv \<Rightarrow> psrv" where
  "stop_close_read s = (close_fd (fst (wakeup s)) s)\<lparr>stop_at := Read_closed\<rparr>"

definition stop_close_write :: "psrv \<Rightarrow> psrv" where
  "stop_close_write s = (close_fd (snd (wakeup s)) s)\<lparr>stop_at := Both_closed\<rparr>"

definition stop_done :: "psrv \<Rightarrow> psrv" where
  "stop_done s = s\<lparr>running := False, stop_at := Not_stopping\<rparr>"

text \<open>
  \<^verbatim>\<open>psrv_connect\<close> up to the unlock; \<open>sv\<close> is the pair \<^verbatim>\<open>socketpair\<close> returned.
  \<open>Some r\<close>: the call returned \<open>r\<close>.
\<close>

definition connect_enter :: "(int \<times> int) option \<Rightarrow> psrv \<Rightarrow> int option \<times> psrv" where
  "connect_enter sv s =
     (case sv of
        None \<Rightarrow> (Some (-1), s)
      | Some (a, b) \<Rightarrow>
          let s1 = s\<lparr>open_fds := a # b # open_fds s\<rparr>
          in if \<not> running s1 \<or> nclients s1 = MAX_CLIENTS
             then (Some (-1), close_fd b (close_fd a s1))
             else (None, s1\<lparr>client_fds := (client_fds s1)[nclients s1 := a],
                             nclients := nclients s1 + 1, connecting := b # connecting s1,
                             late := late s1 @ (if emptied s1 then [a] else [])\<rparr>))"

text \<open>
  The wake-up byte and the result. The descriptor written is read from the state now; the
  byte goes into the self-pipe only if its write end has not been closed.
\<close>

definition connect_wake :: "int \<Rightarrow> bool \<Rightarrow> psrv \<Rightarrow> int \<times> psrv" where
  "connect_wake b wrote s =
     (let s1 = s\<lparr>connecting := removeAll b (connecting s)\<rparr>
      in if \<not> wrote then (-1, close_fd b s1)
         else (b, s1\<lparr>wake_pipe := wake_pipe s1 @
                         (if snd (wakeup s1) \<in> set (wake_held s1) then [CHR ''n''] else [])\<rparr>))"

definition psrv_connect :: "(int \<times> int) option \<Rightarrow> bool \<Rightarrow> psrv \<Rightarrow> int \<times> psrv" where
  "psrv_connect sv wrote s =
     (case connect_enter sv s of
        (Some r, s1) \<Rightarrow> (r, s1)
      | (None, s1) \<Rightarrow> connect_wake (snd (the sv)) wrote s1)"

section \<open>The step relation\<close>

definition fresh_fds :: "(int \<times> int) option \<Rightarrow> psrv \<Rightarrow> bool" where
  "fresh_fds p s = (case p of None \<Rightarrow> True
     | Some (a, b) \<Rightarrow> a \<noteq> b \<and> a \<notin> set (open_fds s) \<and> b \<notin> set (open_fds s))"

definition servers_fd :: "int \<Rightarrow> psrv \<Rightarrow> bool" where
  "servers_fd fd s = (fd \<in> set (clients s) \<or> fd \<in> set (connecting s) \<or>
     fd \<in> set (wake_held s))"

datatype event =
    Start "(int \<times> int) option" bool
  | Stop_send bool | Stop_clear | Stop_close_read | Stop_close_write | Stop_done
  | Connect_enter "(int \<times> int) option" | Connect_wake int bool
  | Iterate polled
  | Socket int peer \<comment> \<open>a client sends, receives or closes\<close>
  | Other_open int | Other_close int \<comment> \<open>the rest of the process\<close>

text \<open>
  The server thread takes a turn only when it does not block; \<open>pthread_join\<close> returns when
  it has returned; a new descriptor is one that is not open; a write succeeds only on an
  open descriptor, and on the self-pipe only while its read end is open.
\<close>

fun srv_step :: "psrv \<Rightarrow> event \<Rightarrow> psrv \<Rightarrow> bool" where
  "srv_step s (Start pf ok) t = (fresh_fds pf s \<and> t = snd (psrv_start pf ok s))"
| "srv_step s (Stop_send w) t = (stop_at s = Not_stopping \<and> t = snd (stop_send w s))"
| "srv_step s Stop_clear t = (stop_at s = Joining \<and> \<not> looping s \<and> t = stop_clear s)"
| "srv_step s Stop_close_read t = (stop_at s = Emptied \<and> t = stop_close_read s)"
| "srv_step s Stop_close_write t = (stop_at s = Read_closed \<and> t = stop_close_write s)"
| "srv_step s Stop_done t = (stop_at s = Both_closed \<and> t = stop_done s)"
| "srv_step s (Connect_enter sv) t = (fresh_fds sv s \<and> t = snd (connect_enter sv s))"
| "srv_step s (Connect_wake b w) t = (b \<in> set (connecting s) \<and>
     (w \<longrightarrow> snd (wakeup s) \<in> set (open_fds s) \<and> stop_at s \<noteq> Read_closed) \<and>
     t = snd (connect_wake b w s))"
| "srv_step s (Iterate po) t =
     (looping s \<and> fst (server_iter po s) \<noteq> Blocks \<and> t = snd (server_iter po s))"
| "srv_step s (Socket fd p) t = (t = s\<lparr>peers := (peers s)(fd := p)\<rparr>)"
| "srv_step s (Other_open fd) t = (fd \<notin> set (open_fds s) \<and> t = s\<lparr>open_fds := fd # open_fds s\<rparr>)"
| "srv_step s (Other_close fd) t = (\<not> servers_fd fd s \<and> t = close_fd fd s)"

text \<open>The state before the first \<open>psrv_start\<close>: all zero.\<close>

definition init_srv :: psrv where
  "init_srv = \<lparr>handle_owner = replicate MAX_HANDLES 0, next_handle = 0, running = False,
     wakeup = (0, 0), client_fds = replicate MAX_CLIENTS 0, nclients = 0,
     peers = (\<lambda>_. \<lparr>pe_in = [], pe_out = [], pe_reads = [], pe_writes = []\<rparr>), wake_pipe = [],
     open_fds = [], looping = False, connecting = [], stop_at = Not_stopping, late = []\<rparr>"

section \<open>The client table\<close>

text \<open>
  At most \<open>MAX_CLIENTS\<close> connections, no descriptor twice, every one of them open and none
  of them an end of the self-pipe; once \<open>psrv_stop\<close> has emptied the table it holds what
  came late, and nothing came late before.
\<close>

definition clients_ok :: "psrv \<Rightarrow> bool" where
  "clients_ok s \<longleftrightarrow> length (client_fds s) = MAX_CLIENTS \<and> nclients s \<le> MAX_CLIENTS \<and>
     distinct (clients s) \<and> set (clients s) \<subseteq> set (open_fds s) \<and>
     set (connecting s) \<subseteq> set (open_fds s) \<and> set (connecting s) \<inter> set (clients s) = {} \<and>
     distinct (wake_held s) \<and> set (wake_held s) \<subseteq> set (open_fds s) \<and>
     set (wake_held s) \<inter> (set (clients s) \<union> set (connecting s)) = {} \<and>
     (if emptied s \<or> \<not> running s then clients s = late s else late s = [])"

lemma close_fd_sel [simp]:
  "client_fds (close_fd fd s) = client_fds s" "nclients (close_fd fd s) = nclients s"
  "running (close_fd fd s) = running s" "wakeup (close_fd fd s) = wakeup s"
  "peers (close_fd fd s) = peers s" "handle_owner (close_fd fd s) = handle_owner s"
  "next_handle (close_fd fd s) = next_handle s" "wake_pipe (close_fd fd s) = wake_pipe s"
  "clients (close_fd fd s) = clients s" "looping (close_fd fd s) = looping s"
  "connecting (close_fd fd s) = connecting s" "stop_at (close_fd fd s) = stop_at s"
  "late (close_fd fd s) = late s" "wake_held (close_fd fd s) = wake_held s"
  "emptied (close_fd fd s) = emptied s"
  "set (open_fds (close_fd fd s)) = set (open_fds s) - {fd}"
  by (auto simp: close_fd_def clients_def wake_held_def emptied_def cong: stop_phase.case_cong)

lemma take_update_last:
  assumes "j < n" "n \<le> length xs" "distinct (take n xs)"
  shows "distinct (take (n - 1) (xs[j := xs ! (n - 1)]))"
    and "set (take (n - 1) (xs[j := xs ! (n - 1)])) = set (take n xs) - {xs ! j}"
proof -
  let ?ys = "take n xs"
  have ys: "length ?ys = n" "?ys ! j = xs ! j" "?ys ! (n - 1) = xs ! (n - 1)"
    using assms by auto
  have eq: "take (n - 1) (xs[j := xs ! (n - 1)]) = butlast (?ys[j := last ?ys])"
  proof -
    have "last ?ys = xs ! (n - 1)" using assms ys by (subst last_conv_nth) auto
    then show ?thesis using assms(1,2)
      by (simp only: butlast_conv_take take_update_swap length_list_update length_take) simp
  qed
  obtain zs z where z: "?ys = zs @ [z]"
    using assms(1,2) by (cases ?ys rule: rev_cases) auto
  have lz: "length zs = n - 1" using z ys(1) by (metis butlast_snoc length_butlast)
  have d: "distinct zs" "z \<notin> set zs" using z assms(3) by auto
  have jn: "j = n - 1 \<or> j < n - 1" using assms(1) by linarith
  show "distinct (take (n - 1) (xs[j := xs ! (n - 1)]))"
    using jn d lz unfolding eq z
    by (auto simp: list_update_append distinct_list_update)
  show "set (take (n - 1) (xs[j := xs ! (n - 1)])) = set ?ys - {xs ! j}"
    using jn
  proof
    assume j: "j = n - 1"
    then have "xs ! j = z" using z ys(2) lz by (metis nth_append_length)
    with j lz d(2) show ?thesis unfolding eq z
      by (simp add: list_update_append)
  next
    assume j: "j < n - 1"
    then have "xs ! j = zs ! j" using z ys(2) lz by (metis nth_append)
    with j d lz show ?thesis unfolding eq z
      by (simp add: list_update_append set_update_distinct insert_Diff_if) (metis nth_mem)
  qed
qed

lemma drop_client_cases:
  assumes "length (client_fds s) = MAX_CLIENTS" "nclients s \<le> MAX_CLIENTS"
  obtains (absent) "fd \<notin> set (clients s)" "drop_client fd s = s"
  | (present) j where "j < nclients s" "client_fds s ! j = fd" "fd \<in> set (clients s)"
    "drop_client fd s = (close_fd fd s)\<lparr>nclients := nclients s - 1,
       client_fds := (client_fds s)[j := client_fds s ! (nclients s - 1)]\<rparr>"
proof (cases "first_in (\<lambda>j. client_fds s ! j = fd) (nclients s)")
  case None
  then have "fd \<notin> set (clients s)"
    using first_in_NoneD [OF None] assms by (auto simp: clients_def in_set_conv_nth)
  then show ?thesis using None absent by (simp add: drop_client_def)
next
  case (Some j)
  then have j: "j < nclients s" "client_fds s ! j = fd" by (auto dest: first_in_SomeD)
  then have "fd \<in> set (clients s)"
    using assms by (auto simp: clients_def in_set_conv_nth)
  with j Some present show ?thesis by (simp add: drop_client_def Let_def)
qed

lemma drop_client_clients:
  assumes "length (client_fds s) = MAX_CLIENTS" "nclients s \<le> MAX_CLIENTS" "distinct (clients s)"
  shows "set (clients (drop_client fd s)) = set (clients s) - {fd} \<and>
    distinct (clients (drop_client fd s)) \<and>
    nclients (drop_client fd s) = nclients s - of_bool (fd \<in> set (clients s))"
  using assms(1,2)
proof (cases rule: drop_client_cases [where fd = fd])
  case (present j)
  with assms take_update_last [of j "nclients s" "client_fds s"] show ?thesis
    by (simp add: clients_def)
qed (use assms in auto)

lemma drop_client_sel [simp]:
  "length (client_fds (drop_client fd s)) = length (client_fds s)"
  "running (drop_client fd s) = running s" "wakeup (drop_client fd s) = wakeup s"
  "connecting (drop_client fd s) = connecting s" "stop_at (drop_client fd s) = stop_at s"
  "late (drop_client fd s) = late s" "wake_held (drop_client fd s) = wake_held s"
  "emptied (drop_client fd s) = emptied s"
  "looping (drop_client fd s) = looping s" "peers (drop_client fd s) = peers s"
  "handle_owner (drop_client fd s) = handle_owner s" "next_handle (drop_client fd s) = next_handle s"
  by (simp_all add: drop_client_def Let_def wake_held_def emptied_def
      split: option.splits cong: stop_phase.case_cong)

lemma drop_client_open:
  assumes "length (client_fds s) = MAX_CLIENTS" "nclients s \<le> MAX_CLIENTS"
  shows "set (open_fds (drop_client fd s)) =
    (if fd \<in> set (clients s) then set (open_fds s) - {fd} else set (open_fds s))"
  using assms by (cases rule: drop_client_cases [where fd = fd]) auto

text \<open>Only the server thread drops clients, and it has ended when the table is emptied.\<close>

lemma drop_client_ok:
  "clients_ok s \<Longrightarrow> running s \<Longrightarrow> \<not> emptied s \<Longrightarrow> clients_ok (drop_client fd s)"
  using drop_client_clients [of s fd] drop_client_open [of s fd]
  unfolding clients_ok_def by (auto simp: set_diff_eq)

end
