(* ===== verification/PsrvInv.thy ===== *)
theory PsrvInv
  imports PsrvServer
begin

text \<open>
  Every step of the server keeps the client table consistent with the open descriptors.
\<close>

lemma grant_srv_sel [simp]:
  "client_fds (snd (grant p s)) = client_fds s" "nclients (snd (grant p s)) = nclients s"
  "running (snd (grant p s)) = running s" "wakeup (snd (grant p s)) = wakeup s"
  "open_fds (snd (grant p s)) = open_fds s" "connecting (snd (grant p s)) = connecting s"
  "stop_at (snd (grant p s)) = stop_at s"
  "late (snd (grant p s)) = late s" "looping (snd (grant p s)) = looping s"
  "peers (snd (grant p s)) = peers s" "wake_pipe (snd (grant p s)) = wake_pipe s"
  by (simp_all add: grant_def Let_def set_owner_def)

lemma handle_request_srv_sel [simp]:
  "client_fds (snd (handle_request q s)) = client_fds s"
  "nclients (snd (handle_request q s)) = nclients s"
  "running (snd (handle_request q s)) = running s"
  "wakeup (snd (handle_request q s)) = wakeup s"
  "open_fds (snd (handle_request q s)) = open_fds s"
  "connecting (snd (handle_request q s)) = connecting s"
  "stop_at (snd (handle_request q s)) = stop_at s"
  "late (snd (handle_request q s)) = late s"
  "looping (snd (handle_request q s)) = looping s"
  "peers (snd (handle_request q s)) = peers s"
  by (simp_all add: handle_request_def)

text \<open>The part of the state the invariant reads.\<close>

definition table_part :: "psrv \<Rightarrow> (int list \<times> nat \<times> int list \<times> int list) \<times>
    bool \<times> (int \<times> int) \<times> stop_phase \<times> int list" where
  "table_part s = ((client_fds s, nclients s, open_fds s, connecting s),
     running s, wakeup s, stop_at s, late s)"

lemma table_part_sel:
  assumes "table_part s = table_part t"
  shows "client_fds s = client_fds t" "nclients s = nclients t" "open_fds s = open_fds t"
    "connecting s = connecting t" "running s = running t" "late s = late t"
    "clients s = clients t" "wake_held s = wake_held t" "emptied s = emptied t"
  using assms by (simp_all add: table_part_def clients_def wake_held_def emptied_def cong: stop_phase.case_cong)

lemma clients_ok_cong: "table_part s = table_part t \<Longrightarrow> clients_ok s = clients_ok t"
  unfolding clients_ok_def
  using table_part_sel [of s t] by simp

lemma clients_ok_upd [simp]:
  "clients_ok (s\<lparr>peers := p\<rparr>) = clients_ok s" "clients_ok (s\<lparr>wake_pipe := w\<rparr>) = clients_ok s"
  "clients_ok (s\<lparr>looping := b\<rparr>) = clients_ok s"
  by (rule clients_ok_cong; simp add: table_part_def)+

lemma clients_ok_handle [simp]: "clients_ok (snd (handle_request q s)) = clients_ok s"
  by (rule clients_ok_cong) (simp add: table_part_def)

text \<open>What the server thread leaves alone.\<close>

definition life :: "psrv \<Rightarrow> bool \<times> stop_phase \<times> bool" where
  "life s = (running s, stop_at s, looping s)"

lemma life_upd [simp]:
  "life (s\<lparr>peers := p\<rparr>) = life s" "life (s\<lparr>wake_pipe := w\<rparr>) = life s"
  "life (drop_client fd s) = life s" "life (snd (handle_request q s)) = life s"
  by (simp_all add: life_def)

lemma serve_client_life: "serve_client fd s = Some t \<Longrightarrow> life t = life s"
proof -
  assume sc: "serve_client fd s = Some t"
  have "life s2 = life s" if "handle_request q (s\<lparr>peers := P\<rparr>) = (r, s2)" for q r s2 P
    using life_upd(4) [of q "s\<lparr>peers := P\<rparr>"] that by simp
  with sc show ?thesis
    by (auto simp: serve_client_def Let_def split: option.splits prod.splits if_splits)
qed

lemma serve_ready_life: "serve_ready xs s = Some t \<Longrightarrow> life t = life s"
  by (induction xs s rule: serve_ready.induct)
     (auto split: if_splits option.splits dest: serve_client_life)

text \<open>The server thread turns only while the table belongs to it.\<close>

definition serving :: "psrv \<Rightarrow> bool" where
  "serving s \<longleftrightarrow> running s \<and> \<not> emptied s"

lemma serving_life: "life s = life t \<Longrightarrow> serving s = serving t"
  by (simp add: serving_def life_def emptied_def)

lemma serve_client_ok:
  assumes sc: "serve_client fd s = Some t" and ok: "clients_ok s" "serving s"
  shows "clients_ok t"
proof -
  have "clients_ok s2" if "handle_request q (s\<lparr>peers := P\<rparr>) = (r, s2)" for q r s2 P
    using clients_ok_handle [of q "s\<lparr>peers := P\<rparr>"] that ok by simp
  moreover have "clients_ok (drop_client fd (s\<lparr>peers := P\<rparr>))" for P
    using drop_client_ok [of "s\<lparr>peers := P\<rparr>" fd] ok by (simp add: serving_def emptied_def)
  ultimately show ?thesis using sc
    by (auto simp: serve_client_def Let_def split: option.splits prod.splits if_splits)
qed

lemma serve_ready_ok: "serve_ready xs s = Some t \<Longrightarrow> clients_ok s \<Longrightarrow> serving s \<Longrightarrow> clients_ok t"
proof (induction xs s rule: serve_ready.induct)
  case (2 fd ready xs s)
  show ?case
  proof (cases "ready")
    case True
    with 2(3) obtain u where u: "serve_client fd s = Some u" "serve_ready xs u = Some t"
      by (auto split: option.splits)
    have "serving u" using 2(5) serving_life [OF serve_client_life [OF u(1)]] by simp
    with 2(2) [OF _ u(1,2)] serve_client_ok [OF u(1) 2(4,5)] True show ?thesis by simp
  qed (use 2 in simp)
qed simp

lemma server_iter_ok: "clients_ok s \<Longrightarrow> serving s \<Longrightarrow> clients_ok (snd (server_iter po s))"
  by (auto simp: server_iter_def intro: serve_ready_ok
      split: polled.splits bool.splits list.splits option.splits)

lemma clients_replicate [simp]: "nclients s = 0 \<Longrightarrow> clients s = []"
  by (simp add: clients_def)

lemma psrv_start_ok:
  assumes "clients_ok s" "fresh_fds pf s" "\<not> running s \<Longrightarrow> stop_at s = Not_stopping"
  shows "clients_ok (snd (psrv_start pf ok s))"
proof (cases "running s")
  case False
  with assms show ?thesis
    by (cases pf; cases ok)
       (auto simp: psrv_start_def Let_def clients_ok_def fresh_fds_def wake_held_def emptied_def)
qed (simp add: psrv_start_def assms(1))

lemma fold_close_sel [simp]:
  "client_fds (fold close_fd fds s) = client_fds s" "nclients (fold close_fd fds s) = nclients s"
  "running (fold close_fd fds s) = running s" "wakeup (fold close_fd fds s) = wakeup s"
  "connecting (fold close_fd fds s) = connecting s" "looping (fold close_fd fds s) = looping s"
  "peers (fold close_fd fds s) = peers s" "stop_at (fold close_fd fds s) = stop_at s"
  "late (fold close_fd fds s) = late s"
  "set (open_fds (fold close_fd fds s)) = set (open_fds s) - set fds"
  by (induction fds arbitrary: s) auto

lemma stop_send_ok:
  "clients_ok s \<Longrightarrow> stop_at s = Not_stopping \<Longrightarrow> clients_ok (snd (stop_send w s))"
  by (auto simp: stop_send_def clients_ok_def clients_def wake_held_def emptied_def)

lemma stop_clear_ok:
  "clients_ok s \<Longrightarrow> stop_at s = Joining \<Longrightarrow> clients_ok (stop_clear s)"
  by (auto simp: clients_ok_def stop_clear_def clients_def wake_held_def emptied_def)

lemma stop_close_ok:
  "clients_ok s \<Longrightarrow> running s \<Longrightarrow> stop_at s = Emptied \<Longrightarrow> clients_ok (stop_close_read s)"
  "clients_ok s \<Longrightarrow> running s \<Longrightarrow> stop_at s = Read_closed \<Longrightarrow> clients_ok (stop_close_write s)"
  by (auto simp: clients_ok_def stop_close_read_def stop_close_write_def clients_def wake_held_def emptied_def)

lemma stop_done_ok:
  "clients_ok s \<Longrightarrow> stop_at s = Both_closed \<Longrightarrow> clients_ok (stop_done s)"
  by (auto simp: clients_ok_def stop_done_def clients_def wake_held_def emptied_def)

lemmas stop_ok = stop_send_ok stop_clear_ok stop_close_ok stop_done_ok

lemma take_snoc_update: "n < length xs \<Longrightarrow> take (Suc n) (xs[n := x]) = take n xs @ [x]"
  by (simp add: take_Suc_conv_app_nth)

lemma connect_enter_ok:
  assumes "clients_ok s" "fresh_fds sv s"
  shows "clients_ok (snd (connect_enter sv s))"
proof (cases sv)
  case (Some ab)
  obtain a b where ab: "ab = (a, b)" by (cases ab)
  show ?thesis
  proof (cases "\<not> running s \<or> nclients s = MAX_CLIENTS")
    case True
    then show ?thesis using assms Some ab
      by (auto simp: connect_enter_def Let_def clients_ok_def clients_def fresh_fds_def wake_held_def emptied_def
        cong: stop_phase.case_cong)
  next
    case False
    then have "nclients s < length (client_fds s)" using assms(1) by (auto simp: clients_ok_def)
    then show ?thesis using assms Some ab False
      by (auto simp: connect_enter_def Let_def clients_ok_def clients_def fresh_fds_def take_snoc_update
        wake_held_def emptied_def split: stop_phase.splits)
  qed
qed (simp add: connect_enter_def assms(1))

lemma connect_wake_ok:
  assumes "clients_ok s" "b \<in> set (connecting s)"
  shows "clients_ok (snd (connect_wake b w s))"
  using assms by (auto simp: connect_wake_def Let_def clients_ok_def clients_def wake_held_def emptied_def
      split: stop_phase.splits)

definition srv_inv :: "psrv \<Rightarrow> bool" where
  "srv_inv s \<longleftrightarrow> clients_ok s \<and> (stop_at s \<noteq> Not_stopping \<longrightarrow> running s) \<and> (looping s \<longrightarrow> serving s)"

lemma server_iter_life:
  "running (snd (server_iter po s)) = running s" "stop_at (snd (server_iter po s)) = stop_at s"
  "looping (snd (server_iter po s)) \<Longrightarrow> looping s"
  by (auto simp: server_iter_def life_def dest: serve_ready_life
      split: polled.splits bool.splits list.splits option.splits if_splits)

lemmas srv_inv_simps = srv_inv_def serving_def emptied_def

lemma srv_step_inv:
  assumes "srv_inv s" "srv_step s e t"
  shows "srv_inv t"
proof (cases e)
  case (Start pf ok)
  with assms show ?thesis
    using psrv_start_ok [of s pf ok]
    by (auto simp: srv_inv_simps psrv_start_def Let_def split: option.splits prod.splits)
next
  case (Stop_send w)
  with assms show ?thesis using stop_send_ok [of s w]
    by (auto simp: srv_inv_simps stop_send_def split: if_splits)
next
  case Stop_clear
  with assms show ?thesis using stop_clear_ok [of s] by (auto simp: srv_inv_simps stop_clear_def)
next
  case Stop_close_read
  with assms show ?thesis using stop_close_ok(1) [of s] by (auto simp: srv_inv_simps stop_close_read_def)
next
  case Stop_close_write
  with assms show ?thesis using stop_close_ok(2) [of s] by (auto simp: srv_inv_simps stop_close_write_def)
next
  case Stop_done
  with assms show ?thesis using stop_done_ok [of s] by (auto simp: srv_inv_simps stop_done_def)
next
  case (Connect_enter sv)
  with assms show ?thesis using connect_enter_ok [of s sv]
    by (auto simp: srv_inv_simps connect_enter_def Let_def split: option.splits prod.splits)
next
  case (Connect_wake b w)
  with assms show ?thesis using connect_wake_ok [of s b w]
    by (auto simp: srv_inv_simps connect_wake_def Let_def)
next
  case (Iterate po)
  with assms show ?thesis
    using server_iter_ok [of s po] server_iter_life [of po s] by (auto simp: srv_inv_simps)
next
  case (Socket fd p)
  with assms show ?thesis by (auto simp: srv_inv_simps)
next
  case (Other_close fd)
  with assms show ?thesis
    by (auto simp: srv_inv_simps clients_ok_def servers_fd_def clients_def)
next
  case (Other_open fd)
  with assms show ?thesis
    by (auto simp: srv_inv_simps clients_ok_def clients_def wake_held_def cong: stop_phase.case_cong)
qed

lemma init_srv_inv: "srv_inv init_srv"
  by (simp add: srv_inv_def clients_ok_def init_srv_def clients_def wake_held_def)

interpretation srv: machine "\<lambda>s. s = init_srv" srv_step srv_inv
  by unfold_locales (auto simp: init_srv_inv intro: srv_step_inv)

end
