(* ===== verification/PsrvProps.thy ===== *)
theory PsrvProps
  imports PsrvInv
begin

text \<open>
  The properties of the server: the handle table implements an append-only list, a call
  returns what \<^verbatim>\<open>handle_request\<close> computes whatever the kernel does to the transfers,
  and the client table agrees with the open descriptors.
\<close>

section \<open>Handles\<close>

text \<open>C6: the handle table implements its contract: after any sequence of requests, from
  whatever pid, in which the 64-bit handle counter does not wrap (it is 0 again after 2^64
  allocations), the answer to the next request and the table it leaves are those of the
  append-only list of owners, on every operation and every error path. In the list, as in
  the table, a handle whose owner is pid 0 counts as not given out.\<close>

theorem handle_request_refines:
  assumes "execution hstep fresh_htab tr s" "counter_ok s"
  shows "spec_request q (abs_htab s) = (fst (handle_request q s), abs_htab (snd (handle_request q s)))
    \<and> execution spec_step [] tr (abs_htab s)"
  using handles.reachable_inv [OF refl assms(1)]
    handles.reachable_sim [OF refl assms(1), unfolded abs_fresh_htab] assms(2)
  by (simp add: handle_request_abs)

definition new_req :: "u32 \<Rightarrow> psrv_request" where
  "new_req pid = \<lparr>rq_op = PSRV_NEW_HANDLE, rq_pid = pid, rq_arg = 0\<rparr>"

definition dup_req :: "u32 \<Rightarrow> u64 \<Rightarrow> psrv_request" where
  "dup_req pid h = \<lparr>rq_op = PSRV_DUP_HANDLE, rq_pid = pid, rq_arg = h\<rparr>"

lemmas handle_simps = handle_request_def grant_def Let_def set_owner_def owner_def new_req_def dup_req_def
  zero_reply_def fresh_htab_def hstep_def counter_ok_def

lemma handle_request_refines_witness:
  "spec_request (dup_req 5 1) [7] = (zero_reply\<lparr>rp_value := 2\<rparr>, [7, 5])"
proof -
  let ?s = "snd (handle_request (new_req 7) fresh_htab)"
  have ex: "execution hstep fresh_htab [(new_req 7, fst (handle_request (new_req 7) fresh_htab))] ?s"
    by (rule execution_one) (simp add: handle_simps)
  have p: "counter_ok ?s" by (simp add: handle_simps)
  have two: "replicate 2 0 = [0, 0 :: u32]" by (simp add: numeral_2_eq_2)
  have a: "abs_htab ?s = [7]" by (simp add: handle_simps abs_htab_def drop_update_swap take_update_swap)
  have "spec_request (dup_req 5 1) (abs_htab ?s) = (fst (handle_request (dup_req 5 1) ?s),
      abs_htab (snd (handle_request (dup_req 5 1) ?s)))"
    using handle_request_refines [OF ex p] by blast
  then show ?thesis unfolding a
    by (simp add: handle_simps abs_htab_def drop_update_swap take_update_swap two)
qed

text \<open>The handles a history gave out.\<close>

definition grants :: "(psrv_request \<times> psrv_reply) list \<Rightarrow> u64 list" where
  "grants tr = map (\<lambda>l. rp_value (snd l))
     (filter (\<lambda>l. rq_op (fst l) \<in> {PSRV_NEW_HANDLE, PSRV_DUP_HANDLE} \<and> rp_status (snd l) = 0) tr)"

lemma spec_execution_grants:
  "execution spec_step os tr os' \<Longrightarrow> length os \<le> MAX_HANDLES - 1 \<Longrightarrow>
     grants tr = map of_nat [Suc (length os)..<Suc (length os')] \<and> length os \<le> length os' \<and>
     length os' \<le> MAX_HANDLES - 1"
proof (induction rule: execution.induct)
  case (stop s)
  then show ?case by (simp add: grants_def)
next
  case (move os l os1 tr os')
  let ?w = "rq_op (fst l) \<in> {PSRV_NEW_HANDLE, PSRV_DUP_HANDLE} \<and> rp_status (snd l) = 0"
  have "(?w \<and> os1 = os @ [rq_pid (fst l)] \<and> rp_value (snd l) = of_nat (Suc (length os)) \<and>
      length os < MAX_HANDLES - 1) \<or> (\<not> ?w \<and> os1 = os)"
    using move.hyps(1)
    by (cases "snd l") (auto simp: spec_step_def spec_request_def zero_reply_def split: if_splits)
  with move.IH move.prems show ?case
    by (auto simp: grants_def upt_conv_Cons simp del: upt_Suc)
qed

text \<open>handles are unique: the requests a history granted got the handles 1, 2, 3, ...,
  each once, none of them 0 and at most 4095 of them.\<close>

theorem handles_unique:
  assumes "execution hstep fresh_htab tr s"
  shows "grants tr = map of_nat [1..<Suc (length (abs_htab s))] \<and> distinct (grants tr) \<and>
    0 \<notin> set (grants tr) \<and> length (abs_htab s) \<le> MAX_HANDLES - 1"
proof -
  from spec_execution_grants [of "[]" tr "abs_htab s"] handles.reachable_sim [OF refl assms, unfolded abs_fresh_htab]
  have g: "grants tr = map of_nat [1..<Suc (length (abs_htab s))]" "length (abs_htab s) \<le> MAX_HANDLES - 1"
    by (simp_all del: upt_Suc)
  have inj: "inj_on (of_nat :: nat \<Rightarrow> u64) {0..<MAX_HANDLES}"
    by (rule inj_onI) (auto simp: word_of_nat_eq_iff take_bit_nat_eq_self)
  have sub: "{1..<Suc (length (abs_htab s))} \<subseteq> {0..<MAX_HANDLES}" using g(2) by auto
  have "distinct (grants tr)"
    unfolding g(1) using inj_on_subset [OF inj sub] by (simp add: distinct_map del: upt_Suc)
  moreover have "0 \<notin> set (grants tr)"
  proof
    assume "0 \<in> set (grants tr)"
    then obtain k where "k \<in> {1..<Suc (length (abs_htab s))}" "(of_nat k :: u64) = of_nat 0"
      unfolding g(1) by (auto simp del: upt_Suc)
    with inj_onD [OF inj, of k 0] sub show False by auto
  qed
  ultimately show ?thesis using g by simp
qed

lemma handles_unique_witness:
  "distinct (grants [(new_req 7, fst (handle_request (new_req 7) fresh_htab))])"
proof -
  have "execution hstep fresh_htab [(new_req 7, fst (handle_request (new_req 7) fresh_htab))]
      (snd (handle_request (new_req 7) fresh_htab))"
    by (rule execution_one) (simp add: handle_simps)
  from handles_unique [OF this] show ?thesis by blast
qed

text \<open>a handle just granted can be duplicated by its client exactly when the pid in the
  request is not 0, as long as the table has room: pid 0 is recorded as a free entry.\<close>

theorem new_handle_duplicable_iff:
  assumes "execution hstep fresh_htab tr s" and "unat (next_handle s) < MAX_HANDLES - 1"
    and "handle_request (new_req pid) s = (r, s')"
  shows "rp_status r = 0 \<and>
    (rp_status (fst (handle_request (dup_req pid (rp_value r)) s')) = 0 \<longleftrightarrow> pid \<noteq> 0)"
proof -
  have inv: "htab_inv s" using handles.reachable_inv [OF refl assms(1)] .
  then have len: "length (handle_owner s) = MAX_HANDLES" by (simp add: htab_inv_def)
  have "unat (next_handle s + 1) = unat (next_handle s) + 1"
    using assms(2) by (subst unat_add_lem [THEN iffD1]) auto
  with assms len show ?thesis by (auto simp: handle_simps)
qed

lemma new_handle_duplicable_iff_witness:
  "rp_status (fst (handle_request (dup_req 0 1) (snd (handle_request (new_req 0) fresh_htab)))) \<noteq> 0"
  using new_handle_duplicable_iff [OF stop _ prod.collapse [symmetric], of 0]
  by (simp add: handle_simps)

text \<open>a request that is not granted changes no entry: an unknown operation gets -2, an
  out-of-range, reserved or free handle cannot be duplicated (-1), and when the table is
  exhausted NEW and DUP get -1; a ping is echoed.\<close>

theorem handle_request_refusals:
  "(rq_op q \<notin> {PSRV_PING, PSRV_NEW_HANDLE, PSRV_DUP_HANDLE} \<longrightarrow>
      handle_request q s = (zero_reply\<lparr>rp_status := -2\<rparr>, s)) \<and>
   (rq_op q = PSRV_PING \<longrightarrow> handle_request q s = (zero_reply\<lparr>rp_value := rq_arg q\<rparr>, s)) \<and>
   (rq_op q = PSRV_DUP_HANDLE \<and> (MAX_HANDLES \<le> unat (rq_arg q) \<or> owner s (rq_arg q) = 0) \<longrightarrow>
      handle_request q s = (zero_reply\<lparr>rp_status := -1\<rparr>, s)) \<and>
   (rq_op q \<in> {PSRV_NEW_HANDLE, PSRV_DUP_HANDLE} \<and> MAX_HANDLES \<le> unat (next_handle s) \<longrightarrow>
      rp_status (fst (handle_request q s)) = -1 \<and>
      handle_owner (snd (handle_request q s)) = handle_owner s)"
  by (auto simp: handle_request_def grant_def Let_def)

lemma handle_request_refusals_witness:
  "handle_request (dup_req 7 3) fresh_htab = (zero_reply\<lparr>rp_status := -1\<rparr>, fresh_htab)"
  using handle_request_refusals [of "dup_req 7 3" fresh_htab]
  by (simp add: dup_req_def owner_def fresh_htab_def)

section \<open>Transfers\<close>

text \<open>C29: \<^verbatim>\<open>read_full\<close> under any behaviour of the kernel: short reads and
  interruptions never lose, repeat or reorder a byte, the full count is returned exactly for
  the first \<open>len\<close> bytes of the stream, and any other result means the connection ended or
  failed. With enough progress and neither of these it does return.\<close>

theorem read_full_correct:
  "(read_full evs len st = Some (r, buf, st', es) \<longrightarrow>
      buf @ st' = st \<and> (r = int len \<and> buf = take len st \<and> length buf = len \<or>
        r = 0 \<and> Closed \<in> set evs \<or> r = -1 \<and> Failed \<in> set evs)) \<and>
   (benign evs \<and> len \<le> length st \<and> len \<le> chunks evs \<longrightarrow>
      (\<exists>es. read_full evs len st = Some (int len, take len st, drop len st, es)))"
  using read_full_result read_full_done by blast

lemma read_full_correct_witness:
  "\<exists>es. read_full [Eintr, Chunk 1, Chunk 5] 2 [7, 8, 9] = Some (2, [7, 8], [9], es)"
  using read_full_correct [of "[Eintr, Chunk 1, Chunk 5]" 2 "[7, 8, 9]"]
  by (simp add: benign_def)

text \<open>\<^verbatim>\<open>write_full\<close> under any behaviour of the kernel: what reaches the stream is
  a prefix of the buffer, all of it when the full length is returned; with enough progress
  and no failure it returns the length.\<close>

theorem write_full_correct:
  "(write_full evs buf st = Some (r, st', es) \<longrightarrow>
      (\<exists>k\<le>length buf. st' = st @ take k buf \<and>
        (r = int (length buf) \<and> k = length buf \<or> r = -1 \<and> \<not> benign evs))) \<and>
   (benign evs \<and> length buf \<le> chunks evs \<longrightarrow>
      (\<exists>es. write_full evs buf st = Some (int (length buf), st @ buf, es)))"
  using write_loop_result [of evs buf 0 st r st' es] write_full_done [of evs buf st]
  by (fastforce simp: write_full_def benign_def)

lemma write_full_correct_witness:
  "\<exists>es. write_full [Chunk 0, Chunk 1, Eintr, Chunk 1] [7, 8] [] = Some (2, [7, 8], es)"
  using write_full_correct [of "[Chunk 0, Chunk 1, Eintr, Chunk 1]" "[7, 8]" "[]"]
  by (simp add: benign_def)

text \<open>the wire format: the request and reply structs are 16 bytes and reading back
  their bytes gives the struct.\<close>

theorem wire_roundtrip:
  "bytes_request (request_bytes q) = q \<and> bytes_reply (reply_bytes r) = r \<and>
   length (request_bytes q) = STRUCT_SIZE \<and> length (reply_bytes r) = STRUCT_SIZE"
  by simp

text \<open>C7: a call is a remote procedure call: whatever way the kernel splits and interrupts
  the four transfers, the client's \<^verbatim>\<open>psrv_call\<close> returns 0 with exactly the reply
  \<^verbatim>\<open>handle_request\<close> computes for its request, and the server's table is the one
  that leaves.\<close>

theorem psrv_call_correct:
  assumes p: "peers s fd = \<lparr>pe_in = request_bytes q @ queued, pe_out = [], pe_reads = sr, pe_writes = sw\<rparr>"
    and sched: "benign sr" "STRUCT_SIZE \<le> chunks sr" "benign sw" "STRUCT_SIZE \<le> chunks sw"
      "benign cw" "STRUCT_SIZE \<le> chunks cw" "benign cr" "STRUCT_SIZE \<le> chunks cr"
  shows "\<exists>s'. serve_client fd s = Some s' \<and>
    handle_owner s' = handle_owner (snd (handle_request q s)) \<and>
    next_handle s' = next_handle (snd (handle_request q s)) \<and> pe_in (peers s' fd) = queued \<and>
    psrv_call cw cr q [] (pe_out (peers s' fd)) = Some (0, Some (fst (handle_request q s)), request_bytes q, [])"
proof -
  obtain revs where r: "read_full sr STRUCT_SIZE (request_bytes q @ queued) = Some (16, request_bytes q, queued, revs)"
    using read_full_done [of sr STRUCT_SIZE "request_bytes q @ queued"] sched by auto
  let ?s1 = "s\<lparr>peers := (peers s)(fd := (peers s fd)\<lparr>pe_in := queued, pe_reads := revs\<rparr>)\<rparr>"
  have h: "fst (handle_request q ?s1) = fst (handle_request q s)"
    "handle_owner (snd (handle_request q ?s1)) = handle_owner (snd (handle_request q s))"
    "next_handle (snd (handle_request q ?s1)) = next_handle (snd (handle_request q s))"
    by (simp_all add: handle_request_def grant_def Let_def set_owner_def owner_def)
  let ?rb = "reply_bytes (fst (handle_request q s))"
  obtain wevs where w: "write_full sw ?rb [] = Some (16, ?rb, wevs)"
    using write_full_done [of sw ?rb "[]"] sched by auto
  obtain e1 where c1: "write_full cw (request_bytes q) [] = Some (16, request_bytes q, e1)"
    using write_full_done [of cw "request_bytes q" "[]"] sched by auto
  obtain e2 where c2: "read_full cr STRUCT_SIZE ?rb = Some (16, ?rb, [], e2)"
    using read_full_done [of cr STRUCT_SIZE ?rb] sched by auto
  show ?thesis
    using p r w c1 c2 h
    by (cases "handle_request q ?s1") (auto simp: serve_client_def Let_def psrv_call_def)
qed

definition one_byte_each :: "io list" where
  "one_byte_each = Eintr # replicate 16 (Chunk 1)"

lemma one_byte_each: "benign one_byte_each" "STRUCT_SIZE \<le> chunks one_byte_each"
  by (simp_all add: one_byte_each_def benign_def chunks_def)

lemma psrv_call_correct_witness:
  "\<exists>out. psrv_call one_byte_each one_byte_each (new_req 7) [] out =
     Some (0, Some (zero_reply\<lparr>rp_value := 1\<rparr>), request_bytes (new_req 7), [])"
proof -
  let ?s = "init_srv\<lparr>next_handle := 1, peers := (\<lambda>_. \<lparr>pe_in = request_bytes (new_req 7) @ [],
      pe_out = [], pe_reads = one_byte_each, pe_writes = one_byte_each\<rparr>)\<rparr>"
  have "fst (handle_request (new_req 7) ?s) = zero_reply\<lparr>rp_value := 1\<rparr>"
    by (simp add: handle_simps)
  with psrv_call_correct [of ?s 5 "new_req 7" "[]", OF _ one_byte_each one_byte_each one_byte_each one_byte_each]
  show ?thesis by auto
qed

section \<open>The server thread\<close>

text \<open>C24: in any interleaving of starts, stops, connects, server turns and the rest of the
  process (the five steps of one \<^verbatim>\<open>psrv_stop\<close> included), the client table is sound: at
  most 128 connections, none twice, all of them open; until \<^verbatim>\<open>psrv_stop\<close> closes them, both
  ends of the running server's self-pipe are open and are not connections; and from the
  moment \<^verbatim>\<open>psrv_stop\<close> has emptied the table, also when the server no longer runs, the
  table holds exactly the connections that \<^verbatim>\<open>psrv_connect\<close> let in after that moment, and
  before it there are none of these. The witness runs into such a connection.\<close>

theorem client_table_sound:
  assumes "execution srv_step init_srv tr s"
  shows "nclients s \<le> MAX_CLIENTS \<and> length (client_fds s) = MAX_CLIENTS \<and> distinct (clients s) \<and>
    set (clients s) \<subseteq> set (open_fds s) \<and>
    (running s \<and> stop_at s \<in> {Not_stopping, Joining, Emptied} \<longrightarrow>
       fst (wakeup s) \<in> set (open_fds s) - set (clients s) \<and>
       snd (wakeup s) \<in> set (open_fds s) - set (clients s)) \<and>
    (if running s \<and> \<not> emptied s then late s = [] else clients s = late s)"
  using srv.reachable_inv [OF refl assms]
  by (auto simp: srv_inv_def clients_ok_def wake_held_def split: if_splits)

text \<open>A server that is started and connected to twice.\<close>

definition two_clients :: "event list" where
  "two_clients = [Start (Some (3, 4)) True, Connect_enter (Some (5, 6)), Connect_wake 6 True,
     Connect_enter (Some (7, 8)), Connect_wake 8 True]"

lemma write_end_held [simp]:
  "snd (wakeup s) \<in> set (wake_held s) \<longleftrightarrow> running s \<and> stop_at s \<noteq> Both_closed"
  by (simp add: wake_held_def split: stop_phase.split)

lemma emptied_phase:
  "emptied s = (case stop_at s of Not_stopping \<Rightarrow> False | Joining \<Rightarrow> False | _ \<Rightarrow> True)"
  by (simp add: emptied_def split: stop_phase.split)

lemmas srv_simps = emptied_phase psrv_start_def connect_enter_def connect_wake_def stop_send_def
  stop_clear_def stop_close_read_def stop_close_write_def stop_done_def
  server_iter_def close_fd_def clients_def fresh_fds_def servers_fd_def init_srv_def Let_def

lemma two_clients_run:
  "\<exists>s. execution srv_step init_srv two_clients s \<and> clients s = [5, 7] \<and> running s \<and> looping s \<and>
     open_fds s = [7, 8, 5, 6, 3, 4] \<and> wake_pipe s = ''nn'' \<and> wakeup s = (3, 4) \<and>
     stop_at s = Not_stopping \<and> late s = [] \<and>
     connecting s = []"
  by (simp add: two_clients_def execution_Cons srv_simps numeral_2_eq_2 take_update_swap)

text \<open>
  The server is stopped, and another client connects after the table was emptied: its wake-up
  byte finds the pipe closed, so the call fails, but its entry stays in the table and open.
\<close>

definition late_client :: "event list" where
  "late_client = [Iterate (Ready True []), Iterate (Ready True []), Stop_send True,
     Iterate (Ready True []), Stop_clear, Connect_enter (Some (9, 10)), Stop_close_read,
     Stop_close_write, Connect_wake 10 False, Stop_done]"

lemma emptied_stop_at [simp]: "emptied (s\<lparr>stop_at := Emptied\<rparr>)"
  by (simp add: emptied_def)

lemma late_client_run:
  assumes "running s" "looping s" "stop_at s = Not_stopping" "wake_pipe s = ''nn''" "connecting s = []"
    "wakeup s = (3, 4)" "open_fds s = [7, 8, 5, 6, 3, 4]" "clients s = [5, 7]"
    "0 < length (client_fds s)"
  shows "\<exists>t. execution srv_step s late_client t \<and> late t = [9] \<and> \<not> running t \<and> 9 \<in> set (open_fds t)"
  using assms
  by (simp add: late_client_def execution_Cons server_iter_def stop_send_def stop_clear_def
      connect_enter_def stop_close_read_def stop_close_write_def connect_wake_def stop_done_def
      close_fd_def fresh_fds_def emptied_phase)

lemma client_table_sound_witness:
  "\<exists>s. execution srv_step init_srv (two_clients @ late_client) s \<and> \<not> running s \<and>
     clients s = late s \<and> late s = [9] \<and> nclients s \<le> MAX_CLIENTS \<and> set (clients s) \<subseteq> set (open_fds s)"
proof -
  obtain r where r: "execution srv_step init_srv two_clients r" "clients r = [5, 7]" "running r"
    "looping r" "stop_at r = Not_stopping" "wake_pipe r = ''nn''" "connecting r = []"
    "wakeup r = (3, 4)" "open_fds r = [7, 8, 5, 6, 3, 4]" using two_clients_run by blast
  then have "0 < length (client_fds r)" by (cases "client_fds r") (auto simp: clients_def)
  with late_client_run [of r] r obtain s where s: "execution srv_step init_srv (two_clients @ late_client) s"
    "\<not> running s" "late s = [9]" "9 \<in> set (open_fds s)" by (auto simp: execution_append)
  with client_table_sound [OF s(1)] show ?thesis by (intro exI [of _ s]) simp
qed

text \<open>a vanished client is removed exactly: its descriptor is closed and leaves the
  table, every other connection stays, open, and the count goes down by one.\<close>

theorem drop_client_exact:
  assumes "execution srv_step init_srv tr s" and "fd \<in> set (clients s)"
  shows "set (clients (drop_client fd s)) = set (clients s) - {fd} \<and>
    distinct (clients (drop_client fd s)) \<and> nclients (drop_client fd s) = nclients s - 1 \<and>
    set (open_fds (drop_client fd s)) = set (open_fds s) - {fd}"
  using drop_client_clients [of s fd] drop_client_open [of s fd] srv.reachable_inv [OF refl assms(1)] assms(2)
  by (auto simp: srv_inv_def clients_ok_def)

lemma drop_client_exact_witness:
  "\<exists>s. set (clients (drop_client 5 s)) = {7}"
proof -
  obtain s where s: "execution srv_step init_srv two_clients s" "clients s = [5, 7]"
    using two_clients_run by blast
  with drop_client_exact [OF s(1), of 5] show ?thesis by (intro exI [of _ s]) auto
qed

text \<open>Serving one client with a complete request.\<close>

definition ready_peer :: "peer \<Rightarrow> psrv_request \<Rightarrow> bool" where
  "ready_peer p q \<longleftrightarrow> (\<exists>queued. pe_in p = request_bytes q @ queued) \<and>
     benign (pe_reads p) \<and> STRUCT_SIZE \<le> chunks (pe_reads p) \<and>
     benign (pe_writes p) \<and> STRUCT_SIZE \<le> chunks (pe_writes p)"

definition same_handles :: "psrv \<Rightarrow> psrv \<Rightarrow> bool" where
  "same_handles s t \<longleftrightarrow> handle_owner s = handle_owner t \<and> next_handle s = next_handle t"

lemma handle_request_same:
  assumes "same_handles s t"
  shows "fst (handle_request q s) = fst (handle_request q t)"
    and "same_handles (snd (handle_request q s)) (snd (handle_request q t))"
  using assms
  by (simp_all add: same_handles_def handle_request_def grant_def Let_def set_owner_def owner_def)

lemma same_handles_refl [simp]: "same_handles s s" "same_handles (s\<lparr>peers := P\<rparr>) t = same_handles s t"
  by (simp_all add: same_handles_def)

lemma serve_Cons:
  "fst (serve (q # qs) s) = fst (handle_request q s) # fst (serve qs (snd (handle_request q s)))"
  "snd (serve (q # qs) s) = snd (serve qs (snd (handle_request q s)))"
  by (simp_all add: Let_def split: prod.split)

lemma serve_same:
  "same_handles s t \<Longrightarrow> fst (serve qs s) = fst (serve qs t) \<and> same_handles (snd (serve qs s)) (snd (serve qs t))"
proof (induction qs arbitrary: s t)
  case (Cons q qs)
  note h = handle_request_same [OF Cons.prems, of q]
  from Cons.IH [OF h(2)] h(1) show ?case by (simp add: serve_Cons del: serve.simps)
qed simp

lemma serve_client_ready:
  assumes "ready_peer (peers s fd) q"
  shows "\<exists>s'. serve_client fd s = Some s' \<and> same_handles s' (snd (handle_request q s)) \<and>
    pe_out (peers s' fd) = pe_out (peers s fd) @ reply_bytes (fst (handle_request q s)) \<and>
    (\<forall>d. d \<noteq> fd \<longrightarrow> peers s' d = peers s d) \<and> clients s' = clients s"
proof -
  from assms obtain queued where q: "pe_in (peers s fd) = request_bytes q @ queued"
    by (auto simp: ready_peer_def)
  obtain revs where r: "read_full (pe_reads (peers s fd)) STRUCT_SIZE (pe_in (peers s fd)) =
      Some (16, request_bytes q, queued, revs)"
    using read_full_done [of "pe_reads (peers s fd)" STRUCT_SIZE "pe_in (peers s fd)"] assms q
    by (auto simp: ready_peer_def)
  let ?s1 = "s\<lparr>peers := (peers s)(fd := (peers s fd)\<lparr>pe_in := queued, pe_reads := revs\<rparr>)\<rparr>"
  have h: "fst (handle_request q ?s1) = fst (handle_request q s)"
    "same_handles (snd (handle_request q ?s1)) (snd (handle_request q s))"
    using handle_request_same [of ?s1 s q] by simp_all
  let ?rb = "reply_bytes (fst (handle_request q s))"
  obtain wevs where w: "write_full (pe_writes (peers s fd)) ?rb (pe_out (peers s fd)) =
      Some (16, pe_out (peers s fd) @ ?rb, wevs)"
    using write_full_done [of "pe_writes (peers s fd)" ?rb] assms by (fastforce simp: ready_peer_def)
  have k: "peers (snd (handle_request q ?s1)) = peers ?s1" "clients (snd (handle_request q ?s1)) = clients s"
    by (simp_all add: clients_def)
  show ?thesis
    using r w h k
    by (cases "handle_request q ?s1") (auto simp: serve_client_def Let_def clients_def)
qed

lemma serve_ready_all:
  assumes "distinct (map fst cs)" "\<And>fd q. (fd, q) \<in> set cs \<Longrightarrow> ready_peer (peers s fd) q"
  shows "\<exists>t. serve_ready (map (\<lambda>c. (fst c, True)) cs) s = Some t \<and>
    same_handles t (snd (serve (map snd cs) s)) \<and> clients t = clients s \<and>
    (\<forall>k<length cs. pe_out (peers t (fst (cs ! k))) =
       pe_out (peers s (fst (cs ! k))) @ reply_bytes (fst (serve (map snd cs) s) ! k)) \<and>
    (\<forall>d. d \<notin> fst ` set cs \<longrightarrow> peers t d = peers s d)"
  using assms
proof (induction cs arbitrary: s)
  case Nil
  then show ?case by simp
next
  case (Cons c cs)
  obtain fd q where c: "c = (fd, q)" by (cases c)
  obtain u where u: "serve_client fd s = Some u" "same_handles u (snd (handle_request q s))"
    "pe_out (peers u fd) = pe_out (peers s fd) @ reply_bytes (fst (handle_request q s))"
    "\<And>d. d \<noteq> fd \<Longrightarrow> peers u d = peers s d" "clients u = clients s"
    using serve_client_ready [of s fd q] Cons.prems(2) c by auto
  have nf: "fd \<notin> fst ` set cs" and d: "distinct (map fst cs)" using Cons.prems(1) c by auto
  have "ready_peer (peers u e) r" if "(e, r) \<in> set cs" for e r
  proof -
    have "e \<noteq> fd" using nf that by force
    with u(4) Cons.prems(2) that show ?thesis by auto
  qed
  from Cons.IH [OF d this] obtain t where
    t: "serve_ready (map (\<lambda>c. (fst c, True)) cs) u = Some t" "same_handles t (snd (serve (map snd cs) u))"
      "clients t = clients u" "\<forall>k<length cs. pe_out (peers t (fst (cs ! k))) =
         pe_out (peers u (fst (cs ! k))) @ reply_bytes (fst (serve (map snd cs) u) ! k)"
      "\<forall>d. d \<notin> fst ` set cs \<longrightarrow> peers t d = peers u d" by auto
  note sv = serve_same [OF u(2), of "map snd cs"]
  have old: "peers u (fst (cs ! k)) = peers s (fst (cs ! k))" if "k < length cs" for k
    using u(4) nf that by (metis image_eqI nth_mem)
  let ?rs = "fst (handle_request q s) # fst (serve (map snd cs) (snd (handle_request q s)))"
  have srv: "fst (serve (map snd (c # cs)) s) = ?rs"
    "snd (serve (map snd (c # cs)) s) = snd (serve (map snd cs) (snd (handle_request q s)))"
    by (simp_all add: c serve_Cons del: serve.simps)
  have outs: "pe_out (peers t (fst ((c # cs) ! k))) =
      pe_out (peers s (fst ((c # cs) ! k))) @ reply_bytes (?rs ! k)" if "k < length (c # cs)" for k
    using that t(4,5) u(3) nf sv old by (cases k) (auto simp: c)
  moreover have "same_handles t (snd (serve (map snd (c # cs)) s))"
    using t(2) sv unfolding srv by (simp add: same_handles_def)
  moreover have "peers t d = peers s d" if "d \<notin> fst ` set (c # cs)" for d
    using that t(5) u(4) by (auto simp: c)
  ultimately show ?case using u(1,5) t(1,3)
    by (intro exI [of _ t]) (simp only: srv, auto simp: c)
qed

text \<open>C8: a turn of the server answers every ready client once, in the order of the poll
  set: when the ready clients have complete requests, the handle table ends as if they had
  been served one after the other, each socket gets its own reply and no other is touched.\<close>

theorem server_turn_serves_all:
  assumes "distinct (map fst cs)" "map fst cs = clients s"
    and "\<And>fd q. (fd, q) \<in> set cs \<Longrightarrow> ready_peer (peers s fd) q"
  shows "\<exists>t. server_iter (Ready False (replicate (length cs) True)) s = (Again, t) \<and>
    same_handles t (snd (serve (map snd cs) s)) \<and> clients t = clients s \<and>
    (\<forall>k<length cs. pe_out (peers t (fst (cs ! k))) =
       pe_out (peers s (fst (cs ! k))) @ reply_bytes (fst (serve (map snd cs) s) ! k))"
proof -
  have "zip (clients s) (replicate (length cs) True) = map (\<lambda>c. (fst c, True)) cs"
    unfolding assms(2) [symmetric] by (simp add: list_eq_iff_nth_eq)
  with serve_ready_all [OF assms(1,3)] show ?thesis
    by (force simp: server_iter_def)
qed

lemma server_turn_serves_all_witness:
  "\<exists>s t. server_iter (Ready False [True, True]) s = (Again, t) \<and>
     pe_out (peers t 7) = reply_bytes (zero_reply\<lparr>rp_value := 2\<rparr>)"
proof -
  let ?s = "init_srv\<lparr>next_handle := 1, nclients := 2, client_fds := [5, 7] @ replicate 126 0,
      peers := (\<lambda>fd. \<lparr>pe_in = request_bytes (new_req (if fd = 5 then 9 else 8)) @ [],
      pe_out = [], pe_reads = one_byte_each, pe_writes = one_byte_each\<rparr>)\<rparr>"
  let ?cs = "[(5, new_req 9), (7, new_req 8)]"
  have rd: "ready_peer (peers ?s fd) q" if "(fd, q) \<in> set ?cs" for fd q
    using that one_byte_each by (auto simp: ready_peer_def)
  have "map fst ?cs = clients ?s" by (simp add: clients_def)
  from server_turn_serves_all [OF _ this rd] obtain t where
    t: "server_iter (Ready False [True, True]) ?s = (Again, t)"
    "pe_out (peers t 7) = reply_bytes (fst (serve [new_req 9, new_req 8] ?s) ! 1)"
    by (auto simp: numeral_2_eq_2 less_Suc_eq)
  have "fst (serve [new_req 9, new_req 8] ?s) ! 1 = zero_reply\<lparr>rp_value := 2\<rparr>"
    by (simp add: handle_simps init_srv_def)
  with t show ?thesis by auto
qed

section \<open>Starting, connecting and stopping\<close>

text \<open>\<^verbatim>\<open>psrv_stop\<close>, when no other call comes between its steps, closes every connection
  and the self-pipe, nothing else, and leaves an empty table of a server that is not running.\<close>

definition stop_tail :: "event list" where
  "stop_tail = [Stop_clear, Stop_close_read, Stop_close_write, Stop_done]"

theorem stop_closes_all:
  assumes "execution srv_step s stop_tail t"
  shows "set (open_fds t) = set (open_fds s) - set (clients s) - {fst (wakeup s), snd (wakeup s)} \<and>
    clients t = [] \<and> \<not> running t"
  using assms
  by (auto simp: stop_tail_def execution_Cons stop_clear_def stop_close_read_def stop_close_write_def
      stop_done_def clients_def close_fd_def)

lemma stop_closes_all_witness:
  "\<exists>s t. clients s = [5, 7] \<and> execution srv_step s stop_tail t \<and> set (open_fds t) = {6, 8} \<and> \<not> running t"
proof -
  define s where "s = init_srv\<lparr>running := True, stop_at := Joining, wakeup := (3, 4), nclients := 2,
     client_fds := [5, 7] @ replicate 126 0, open_fds := [3, 4, 5, 6, 7, 8]\<rparr>"
  have s: "stop_at s = Joining" "\<not> looping s" "clients s = [5, 7]" "open_fds s = [3, 4, 5, 6, 7, 8]"
    "wakeup s = (3, 4)" by (simp_all add: s_def init_srv_def clients_def)
  then obtain t where st: "execution srv_step s stop_tail t"
    by (auto simp: stop_tail_def execution_Cons stop_clear_def stop_close_read_def stop_close_write_def)
  from stop_closes_all [OF st] s(3-5) have "set (open_fds t) = {6, 8}" "\<not> running t"
    by (simp_all add: insert_Diff_if)
  with st s(3) show ?thesis by blast
qed

text \<open>a connect that is refused (no socket pair, server not running, table full) returns
  -1 and leaks nothing: the descriptors open before are those open after. Otherwise the
  server's end is appended to the table and the call goes on to the wake-up.\<close>

theorem connect_enter_effect:
  assumes "execution srv_step init_srv tr s" and "fresh_fds sv s"
    and "connect_enter sv s = (r, t)"
  shows "(r \<noteq> None \<longleftrightarrow> sv = None \<or> \<not> running s \<or> nclients s = MAX_CLIENTS) \<and>
    (r \<noteq> None \<longrightarrow> r = Some (-1) \<and> set (open_fds t) = set (open_fds s) \<and> clients t = clients s) \<and>
    (r = None \<longrightarrow> clients t = clients s @ [fst (the sv)] \<and>
       set (open_fds t) = {fst (the sv), snd (the sv)} \<union> set (open_fds s))"
proof -
  have ok: "length (client_fds s) = MAX_CLIENTS" "nclients s \<le> MAX_CLIENTS"
    using srv.reachable_inv [OF refl assms(1)] by (auto simp: srv_inv_def clients_ok_def)
  show ?thesis
  proof (cases sv)
    case (Some ab)
    obtain a b where "ab = (a, b)" by (cases ab)
    with Some assms(2,3) ok show ?thesis
      by (auto simp: connect_enter_def Let_def clients_def fresh_fds_def take_snoc_update split: if_splits)
  qed (use assms(3) in \<open>auto simp: connect_enter_def\<close>)
qed

lemma connect_enter_effect_witness:
  "fst (connect_enter (Some (3, 4)) init_srv) = Some (-1) \<and>
   set (open_fds (snd (connect_enter (Some (3, 4)) init_srv))) = {}"
  using connect_enter_effect [OF stop _ prod.collapse [symmetric], of "Some (3, 4)"]
  by (simp add: fresh_fds_def init_srv_def)

text \<open>a start that fails leaves no descriptor open and no server running; one that
  succeeds runs with an empty client table and a fresh handle table; on a running server it
  does nothing.\<close>

theorem psrv_start_effect:
  assumes "fresh_fds pf s" and "psrv_start pf ok s = (r, t)"
  shows "(running s \<longrightarrow> r = 0 \<and> t = s) \<and>
    (\<not> running s \<and> (pf = None \<or> \<not> ok) \<longrightarrow> r = -1 \<and> \<not> running t \<and> set (open_fds t) = set (open_fds s)) \<and>
    (\<not> running s \<and> pf \<noteq> None \<and> ok \<longrightarrow> r = 0 \<and> running t \<and> looping t \<and> clients t = [] \<and>
       handle_owner t = handle_owner fresh_htab \<and> next_handle t = next_handle fresh_htab)"
  using assms
  by (auto simp: psrv_start_def Let_def fresh_fds_def clients_def fresh_htab_def split: option.splits if_splits)

lemma psrv_start_effect_witness:
  "fst (psrv_start (Some (3, 4)) True init_srv) = 0 \<and> running (snd (psrv_start (Some (3, 4)) True init_srv))"
  using psrv_start_effect [OF _ prod.collapse [symmetric], of "Some (3, 4)" init_srv True]
  by (simp add: fresh_fds_def init_srv_def)

text \<open>\<^verbatim>\<open>psrv_connect\<close> writes its wake-up byte after it has released the lock, to the
  descriptor the state names then: when \<^verbatim>\<open>psrv_stop\<close> runs in between, that descriptor
  has been closed, and it may be a file the rest of the process has opened since. The call
  then returns a connection to a server that no longer exists.\<close>

theorem connect_stop_race:
  "\<exists>tr s. execution srv_step init_srv (tr @ stop_tail @ [Other_open 4]) s \<and> \<not> running s \<and>
     connecting s = [6] \<and> snd (wakeup s) = 4 \<and> 5 \<notin> set (open_fds s) \<and>
     fst (connect_wake 6 True s) = 6"
  by (rule exI [of _ "[Start (Some (3, 4)) True, Connect_enter (Some (5, 6)), Stop_send True,
        Iterate (Ready True [])]"])
     (simp add: execution_Cons srv_simps stop_tail_def take_update_swap)

end
