(* ===== verification/Queues.thy ===== *)
theory Queues
  imports Machines
begin

text \<open>
  The interface of a bounded first-in first-out queue that drops what does not fit, and
  what a client can rely on over any sequence of operations. The display bridge's ring
  buffer provides it.
\<close>

datatype 'e qop = Put 'e | Take "'e option"

definition queue_step ::
  "('e \<Rightarrow> 'q \<Rightarrow> 'q) \<Rightarrow> ('q \<Rightarrow> ('e \<times> 'q) option) \<Rightarrow> 'q \<Rightarrow> 'e qop \<Rightarrow> 'q \<Rightarrow> bool" where
  "queue_step enq deq q l q' =
     (case l of
        Put e \<Rightarrow> q' = enq e q
      | Take None \<Rightarrow> deq q = None \<and> q' = q
      | Take (Some e) \<Rightarrow> deq q = Some (e, q'))"

text \<open>The contract as a list: append when there is room, take from the front.\<close>

definition list_enq :: "nat \<Rightarrow> 'e \<Rightarrow> 'e list \<Rightarrow> 'e list" where
  "list_enq cap e xs = (if length xs < cap then xs @ [e] else xs)"

definition list_deq :: "'e list \<Rightarrow> ('e \<times> 'e list) option" where
  "list_deq xs = (case xs of [] \<Rightarrow> None | x # ys \<Rightarrow> Some (x, ys))"

text \<open>What came out of a history, and what was accepted when \<open>n\<close> were in the queue before.\<close>

fun taken :: "'e qop list \<Rightarrow> 'e list" where
  "taken [] = []"
| "taken (Take (Some e) # ls) = e # taken ls"
| "taken (_ # ls) = taken ls"

fun accepted :: "nat \<Rightarrow> nat \<Rightarrow> 'e qop list \<Rightarrow> 'e list" where
  "accepted cap n [] = []"
| "accepted cap n (Put e # ls) =
     (if n < cap then e # accepted cap (Suc n) ls else accepted cap n ls)"
| "accepted cap n (Take (Some _) # ls) = accepted cap (n - 1) ls"
| "accepted cap n (Take None # ls) = accepted cap n ls"

fun puts :: "'e qop list \<Rightarrow> 'e list" where
  "puts [] = []"
| "puts (Put e # ls) = e # puts ls"
| "puts (Take _ # ls) = puts ls"

lemma accepted_all:
  "n + length (puts ls) \<le> cap \<Longrightarrow> accepted cap n ls = puts ls"
  by (induction cap n ls rule: accepted.induct) auto

locale bounded_queue =
  fixes cap :: nat
    and enq :: "'e \<Rightarrow> 'q \<Rightarrow> 'q"
    and deq :: "'q \<Rightarrow> ('e \<times> 'q) option"
    and items :: "'q \<Rightarrow> 'e list"
    and wf :: "'q \<Rightarrow> bool"
  assumes enq_wf: "wf q \<Longrightarrow> wf (enq e q)"
    and enq_items: "wf q \<Longrightarrow> items (enq e q) = list_enq cap e (items q)"
    and deq_items: "wf q \<Longrightarrow> map_option (map_prod id items) (deq q) = list_deq (items q)"
    and deq_wf: "wf q \<Longrightarrow> deq q = Some (e, q') \<Longrightarrow> wf q'"
    and items_bound: "wf q \<Longrightarrow> length (items q) \<le> cap"
begin

lemma deq_None: "wf q \<Longrightarrow> deq q = None \<longleftrightarrow> items q = []"
  using deq_items [of q] by (auto simp: list_deq_def split: list.splits)

lemma deq_Some: "wf q \<Longrightarrow> deq q = Some (e, q') \<Longrightarrow> items q = e # items q'"
  using deq_items [of q] by (auto simp: list_deq_def split: list.splits)

text \<open>Nothing is lost, repeated or reordered: out and left is in and accepted.\<close>

lemma fifo:
  "execution (queue_step enq deq) q ls q' \<Longrightarrow> wf q \<Longrightarrow>
     wf q' \<and> taken ls @ items q' = items q @ accepted cap (length (items q)) ls"
proof (induction rule: execution.induct)
  case (stop q)
  then show ?case by simp
next
  case (move q l q1 ls q')
  show ?case
  proof (cases l)
    case (Put e)
    with move have "q1 = enq e q" by (simp add: queue_step_def)
    with move Put enq_wf enq_items show ?thesis by (simp add: list_enq_def)
  next
    case (Take r)
    show ?thesis
    proof (cases r)
      case None
      with Take move show ?thesis by (simp add: queue_step_def)
    next
      case (Some e)
      with Take move have "deq q = Some (e, q1)" by (simp add: queue_step_def)
      with move Take Some deq_wf deq_Some show ?thesis by simp
    qed
  qed
qed

lemma fifo_exact:
  "execution (queue_step enq deq) q ls q' \<Longrightarrow> wf q \<Longrightarrow> items q = [] \<Longrightarrow> length (puts ls) \<le> cap \<Longrightarrow>
     taken ls @ items q' = puts ls"
  using fifo accepted_all [of 0 ls cap] by fastforce

end

end
