(* ===== verification/DisplayQueue.thy ===== *)
theory DisplayQueue
  imports Queues Bytes "HOL-Library.Signed_Division" "HOL-Library.Sublist"
begin

text \<open>
  The input queue of \<^verbatim>\<open>CrossoverPad/Sources/WineHost/WineDisplayHost.c\<close>: the ring
  buffer the app's input handlers fill and the driver's input thread drains, its wait with a
  deadline, and the events of \<^verbatim>\<open>wineios_host.h\<close>.
\<close>

section \<open>Events\<close>

type_synonym i32 = "32 word"

abbreviation WINEIOS_EVENT_MOUSE_MOVE :: u32 where "WINEIOS_EVENT_MOUSE_MOVE \<equiv> 1"
abbreviation WINEIOS_EVENT_MOUSE_BUTTON :: u32 where "WINEIOS_EVENT_MOUSE_BUTTON \<equiv> 2"
abbreviation WINEIOS_EVENT_MOUSE_WHEEL :: u32 where "WINEIOS_EVENT_MOUSE_WHEEL \<equiv> 3"
abbreviation WINEIOS_EVENT_KEY :: u32 where "WINEIOS_EVENT_KEY \<equiv> 4"
abbreviation WINEIOS_EVENT_CHAR :: u32 where "WINEIOS_EVENT_CHAR \<equiv> 5"

record wineios_event =
  ev_type :: u32
  ev_surface_id :: u64
  ev_x :: i32
  ev_y :: i32
  ev_button :: u32
  ev_wheel :: i32
  ev_vk :: u32
  ev_ch :: u32
  ev_down :: u32

definition zero_event :: wineios_event where
  "zero_event = \<lparr>ev_type = 0, ev_surface_id = 0, ev_x = 0, ev_y = 0, ev_button = 0, ev_wheel = 0,
     ev_vk = 0, ev_ch = 0, ev_down = 0\<rparr>"

section \<open>The ring\<close>

abbreviation QUEUE_LEN :: nat where
  "QUEUE_LEN \<equiv> 512"

record input_queue =
  q_buf :: "wineios_event list"
  q_head :: nat
  q_count :: nat

definition enqueue :: "wineios_event \<Rightarrow> input_queue \<Rightarrow> input_queue" where
  "enqueue ev q =
     (if q_count q < QUEUE_LEN
      then q\<lparr>q_buf := (q_buf q)[(q_head q + q_count q) mod QUEUE_LEN := ev], q_count := q_count q + 1\<rparr>
      else q)"

text \<open>The tail of \<^verbatim>\<open>cb_next_event\<close>; \<open>None\<close> when the loop test finds the queue empty.\<close>

definition dequeue :: "input_queue \<Rightarrow> (wineios_event \<times> input_queue) option" where
  "dequeue q =
     (if q_count q = 0 then None
      else Some (q_buf q ! q_head q,
                 q\<lparr>q_head := (q_head q + 1) mod QUEUE_LEN, q_count := q_count q - 1\<rparr>))"

definition empty_queue :: input_queue where
  "empty_queue = \<lparr>q_buf = replicate QUEUE_LEN zero_event, q_head = 0, q_count = 0\<rparr>"

definition q_items :: "input_queue \<Rightarrow> wineios_event list" where
  "q_items q = map (\<lambda>i. q_buf q ! ((q_head q + i) mod QUEUE_LEN)) [0..<q_count q]"

definition q_wf :: "input_queue \<Rightarrow> bool" where
  "q_wf q \<longleftrightarrow> length (q_buf q) = QUEUE_LEN \<and> q_head q < QUEUE_LEN \<and> q_count q \<le> QUEUE_LEN"

lemma ring_distinct_le:
  assumes "(i :: nat) \<le> j" "j < n" "(h + i) mod n = (h + j) mod n"
  shows "i = j"
proof -
  have "n dvd (h + j) - (h + i)"
    using assms mod_eq_dvd_iff_nat [of "h + i" "h + j" n] by simp
  then have "n dvd j - i" by simp
  with assms(1,2) show ?thesis
    by (metis diff_is_0_eq dvd_imp_le le_antisym less_imp_diff_less linorder_not_less neq0_conv)
qed

lemma ring_distinct:
  "i < QUEUE_LEN \<Longrightarrow> j < QUEUE_LEN \<Longrightarrow> (h + i) mod QUEUE_LEN = (h + j) mod QUEUE_LEN \<longleftrightarrow> i = j"
  using ring_distinct_le [of i j QUEUE_LEN h] ring_distinct_le [of j i QUEUE_LEN h]
  by (metis linorder_linear)

interpretation ring: bounded_queue QUEUE_LEN enqueue dequeue q_items q_wf
proof unfold_locales
  fix q q' :: input_queue and e :: wineios_event
  assume wf: "q_wf q"
  show "q_wf (enqueue e q)" using wf by (auto simp: enqueue_def q_wf_def)
  show "q_items (enqueue e q) = list_enq QUEUE_LEN e (q_items q)"
    using wf by (auto simp: enqueue_def q_items_def q_wf_def list_enq_def nth_list_update ring_distinct)
  show "map_option (map_prod id q_items) (dequeue q) = list_deq (q_items q)"
  proof (cases "q_count q")
    case (Suc n)
    have "[0..<Suc n] = 0 # map Suc [0..<n]" by (simp add: map_Suc_upt upt_conv_Cons)
    with Suc wf show ?thesis
      by (simp add: dequeue_def q_items_def list_deq_def q_wf_def mod_Suc_eq o_def del: upt_Suc)
         (simp add: mod_simps)
  qed (simp add: dequeue_def q_items_def list_deq_def)
  show "q_wf q'" if "dequeue q = Some (e, q')"
    using wf that by (auto simp: dequeue_def q_wf_def split: if_splits)
  show "length (q_items q) \<le> QUEUE_LEN" using wf by (simp add: q_items_def q_wf_def)
qed

section \<open>What the app sends\<close>

definition send_mouse_move :: "u64 \<Rightarrow> i32 \<Rightarrow> i32 \<Rightarrow> wineios_event" where
  "send_mouse_move surface x y =
     zero_event\<lparr>ev_type := WINEIOS_EVENT_MOUSE_MOVE, ev_surface_id := surface, ev_x := x, ev_y := y\<rparr>"

definition send_mouse_button :: "u64 \<Rightarrow> i32 \<Rightarrow> i32 \<Rightarrow> u32 \<Rightarrow> int \<Rightarrow> wineios_event" where
  "send_mouse_button surface x y button down =
     zero_event\<lparr>ev_type := WINEIOS_EVENT_MOUSE_BUTTON, ev_surface_id := surface, ev_x := x, ev_y := y,
       ev_button := button, ev_down := of_bool (down \<noteq> 0)\<rparr>"

definition send_wheel :: "u64 \<Rightarrow> i32 \<Rightarrow> i32 \<Rightarrow> i32 \<Rightarrow> wineios_event" where
  "send_wheel surface x y delta =
     zero_event\<lparr>ev_type := WINEIOS_EVENT_MOUSE_WHEEL, ev_surface_id := surface, ev_x := x, ev_y := y,
       ev_wheel := delta\<rparr>"

definition send_key :: "u32 \<Rightarrow> int \<Rightarrow> wineios_event" where
  "send_key vk down = zero_event\<lparr>ev_type := WINEIOS_EVENT_KEY, ev_vk := vk, ev_down := of_bool (down \<noteq> 0)\<rparr>"

definition send_char :: "u32 \<Rightarrow> wineios_event" where
  "send_char utf16 = zero_event\<lparr>ev_type := WINEIOS_EVENT_CHAR, ev_ch := utf16\<rparr>"

section \<open>The wait\<close>

text \<open>
  \<open>now\<close> and the deadline are \<^verbatim>\<open>struct timespec\<close>s; division and remainder
  truncate, as in C.
\<close>

definition deadline :: "int \<times> int \<Rightarrow> int \<Rightarrow> int \<times> int" where
  "deadline now timeout_ms =
     (let sec = fst now + timeout_ms sdiv 1000;
          nsec = snd now + (timeout_ms smod 1000) * 1000000
      in if nsec \<ge> 1000000000 then (sec + 1, nsec - 1000000000) else (sec, nsec))"

text \<open>
  The input thread: outside \<^verbatim>\<open>cb_next_event\<close> with the last result, or blocked in
  \<^verbatim>\<open>pthread_cond_timedwait\<close>, signalled or not. \<open>delivered\<close> is what it got so far.
\<close>

datatype waiter = Idle int | Waiting bool

record input_state =
  i_queue :: input_queue
  i_wait :: waiter
  delivered :: "wineios_event list"

definition start_input :: input_state where
  "start_input = \<lparr>i_queue = empty_queue, i_wait = Idle 0, delivered = []\<rparr>"

text \<open>The loop test of \<^verbatim>\<open>while (!queue_count)\<close> and what follows it.\<close>

definition next_event_test :: "input_state \<Rightarrow> input_state" where
  "next_event_test s =
     (case dequeue (i_queue s) of
        None \<Rightarrow> s\<lparr>i_wait := Waiting False\<rparr>
      | Some (ev, q) \<Rightarrow> \<lparr>i_queue = q, i_wait = Idle 1, delivered = delivered s @ [ev]\<rparr>)"

definition next_event_timeout :: "input_state \<Rightarrow> input_state" where
  "next_event_timeout s = s\<lparr>i_wait := Idle 0\<rparr>"

definition send :: "wineios_event \<Rightarrow> input_state \<Rightarrow> input_state" where
  "send ev s =
     (if q_count (i_queue s) < QUEUE_LEN
      then s\<lparr>i_queue := enqueue ev (i_queue s),
             i_wait := (case i_wait s of Waiting _ \<Rightarrow> Waiting True | w \<Rightarrow> w)\<rparr>
      else s)"

datatype input_act = Send wineios_event | Next | Wake_up | Timed_out

fun input_step :: "input_state \<Rightarrow> input_act \<Rightarrow> input_state \<Rightarrow> bool" where
  "input_step s (Send ev) t = (t = send ev s)"
| "input_step s Next t = ((\<exists>r. i_wait s = Idle r) \<and> t = next_event_test s)"
| "input_step s Wake_up t = ((\<exists>b. i_wait s = Waiting b) \<and> t = next_event_test s)"
| "input_step s Timed_out t = ((\<exists>b. i_wait s = Waiting b) \<and> t = next_event_timeout s)"

definition input_inv :: "input_state \<Rightarrow> bool" where
  "input_inv s \<longleftrightarrow> q_wf (i_queue s) \<and> (i_wait s = Waiting False \<longrightarrow> q_count (i_queue s) = 0)"

lemma q_wf_empty: "q_wf empty_queue" and q_items_empty: "q_items empty_queue = []"
  by (simp_all add: q_wf_def empty_queue_def q_items_def)

lemma dequeue_None_count: "dequeue q = None \<longleftrightarrow> q_count q = 0"
  by (simp add: dequeue_def)

lemma next_event_test_inv: "input_inv s \<Longrightarrow> input_inv (next_event_test s)"
  using ring.deq_wf [of "i_queue s"]
  by (auto simp: input_inv_def next_event_test_def dequeue_None_count split: option.splits)

interpretation input: machine "\<lambda>s. s = start_input" input_step input_inv
proof unfold_locales
  fix s t :: input_state and l :: input_act
  show "input_inv s" if "s = start_input"
    using that by (simp add: input_inv_def start_input_def q_wf_empty)
  show "input_inv t" if "input_inv s" "input_step s l t"
  proof (cases l)
    case (Send ev)
    with that show ?thesis
      using ring.enq_wf [of "i_queue s" ev]
      by (auto simp: input_inv_def send_def split: waiter.splits)
  next
    case Timed_out
    with that show ?thesis by (auto simp: next_event_timeout_def input_inv_def)
  qed (use that next_event_test_inv [of s] in auto)
qed

text \<open>The history of the input thread as a history of its queue.\<close>

fun sends :: "input_act list \<Rightarrow> wineios_event list" where
  "sends [] = []"
| "sends (Send ev # tr) = ev # sends tr"
| "sends (_ # tr) = sends tr"

abbreviation queue_run :: "input_queue \<Rightarrow> wineios_event qop list \<Rightarrow> input_queue \<Rightarrow> bool" where
  "queue_run \<equiv> execution (queue_step enqueue dequeue)"

lemma send_queue: "i_queue (send ev s) = enqueue ev (i_queue s)" "delivered (send ev s) = delivered s"
  by (simp_all add: send_def enqueue_def)

lemma test_queue:
  "\<exists>l. queue_step enqueue dequeue (i_queue s) l (i_queue (next_event_test s)) \<and> puts [l] = [] \<and>
     delivered (next_event_test s) = delivered s @ taken [l]"
proof (cases "dequeue (i_queue s)")
  case None
  then show ?thesis
    by (intro exI [of _ "Take None"]) (simp add: next_event_test_def queue_step_def)
next
  case (Some r)
  then show ?thesis
    by (intro exI [of _ "Take (Some (fst r))"])
       (auto simp: next_event_test_def queue_step_def split: prod.splits)
qed

lemma puts_Cons_split: "puts (l # ls) = puts [l] @ puts ls" "taken (l # ls) = taken [l] @ taken ls"
proof -
  show "puts (l # ls) = puts [l] @ puts ls" by (cases l) simp_all
  show "taken (l # ls) = taken [l] @ taken ls"
  proof (cases l)
    case (Take r)
    then show ?thesis by (cases r) simp_all
  qed simp
qed

lemma input_history:
  "execution input_step s tr t \<Longrightarrow>
     \<exists>ls. queue_run (i_queue s) ls (i_queue t) \<and> puts ls = sends tr \<and>
       delivered t = delivered s @ taken ls"
proof (induction rule: execution.induct)
  case (stop s)
  show ?case by (intro exI [of _ "[]"]) simp
next
  case (move s l u tr t)
  then obtain ls where ls: "queue_run (i_queue u) ls (i_queue t)" "puts ls = sends tr"
    "delivered t = delivered u @ taken ls" by blast
  have "(\<exists>k. queue_step enqueue dequeue (i_queue s) k (i_queue u) \<and> puts [k] = sends [l] \<and>
      delivered u = delivered s @ taken [k]) \<or>
    i_queue u = i_queue s \<and> sends [l] = [] \<and> delivered u = delivered s"
  proof (cases l)
    case (Send ev)
    with move.hyps(1) show ?thesis
      by (intro disjI1 exI [of _ "Put ev"]) (simp add: send_queue queue_step_def)
  next
    case Timed_out
    with move.hyps(1) show ?thesis by (simp add: next_event_timeout_def)
  qed (use move.hyps(1) test_queue [of s] in auto)
  moreover have "sends (l # tr) = sends [l] @ sends tr" by (cases l) simp_all
  ultimately show ?case
  proof (elim disjE exE conjE)
    fix k assume "queue_step enqueue dequeue (i_queue s) k (i_queue u)" "puts [k] = sends [l]"
      "delivered u = delivered s @ taken [k]"
    with ls \<open>sends (l # tr) = sends [l] @ sends tr\<close> show ?case
      by (intro exI [of _ "k # ls"])
         (simp add: execution.move puts_Cons_split [of k ls] del: puts.simps taken.simps)
  next
    assume "i_queue u = i_queue s" "sends [l] = []" "delivered u = delivered s"
    with ls \<open>sends (l # tr) = sends [l] @ sends tr\<close> show ?case
      by (intro exI [of _ ls]) simp
  qed
qed

lemma accepted_subseq: "subseq (accepted cap n ls) (puts ls)"
  by (induction cap n ls rule: accepted.induct) auto

lemma input_accepted:
  assumes "execution input_step start_input tr s"
  shows "\<exists>ls. puts ls = sends tr \<and> delivered s @ q_items (i_queue s) = accepted QUEUE_LEN 0 ls"
proof -
  from input_history [OF assms] obtain ls where
    ls: "queue_run empty_queue ls (i_queue s)" "puts ls = sends tr" "delivered s = taken ls"
    by (auto simp: start_input_def)
  with ring.fifo [OF ls(1) q_wf_empty] show ?thesis
    by (intro exI [of _ ls]) (simp add: q_items_empty)
qed

end
