(* ===== verification/IdMaps.thy ===== *)
theory IdMaps
  imports Prelude
begin

text \<open>
  The interface of the fixed slot arrays that are searched by key: the surfaces of the display
  bridge, and the tables of the in-process spawn that are keyed by a PEB. Seen from outside
  each is a finite map with a limited number of places.
\<close>

type_synonym ptr = u64

text \<open>
  What a client relies on, given that it does not add a key that is bound: an add binds the
  key when there is room, a removal unbinds it.
\<close>

locale key_map =
  fixes lookup :: "'r \<Rightarrow> 'k \<Rightarrow> 'v option"
    and add :: "'k \<Rightarrow> 'v \<Rightarrow> 'r \<Rightarrow> 'r"
    and rem :: "'k \<Rightarrow> 'r \<Rightarrow> 'r"
    and room :: "'r \<Rightarrow> bool"
    and wf :: "'r \<Rightarrow> bool"
    and fits :: "'k \<Rightarrow> 'v \<Rightarrow> bool"
  assumes add_wf: "wf r \<Longrightarrow> fits k v \<Longrightarrow> lookup r k = None \<Longrightarrow> wf (add k v r)"
    and rem_wf: "wf r \<Longrightarrow> wf (rem k r)"
    and lookup_add: "wf r \<Longrightarrow> fits k v \<Longrightarrow> lookup r k = None \<Longrightarrow>
      lookup (add k v r) = (if room r then (lookup r)(k := Some v) else lookup r)"
    and lookup_rem: "wf r \<Longrightarrow> lookup (rem k r) = (lookup r)(k := None)"
begin

lemma add_rem: "wf r \<Longrightarrow> fits k v \<Longrightarrow> lookup r k = None \<Longrightarrow> lookup (rem k (add k v r)) = lookup r"
  by (auto simp: lookup_rem add_wf lookup_add fun_eq_iff)

lemma added_others:
  "wf r \<Longrightarrow> fits k v \<Longrightarrow> lookup r k = None \<Longrightarrow> j \<noteq> k \<Longrightarrow> lookup (add k v r) j = lookup r j"
  by (simp add: lookup_add)

lemma added_bound:
  "wf r \<Longrightarrow> fits k v \<Longrightarrow> lookup r k = None \<Longrightarrow> lookup (add k v r) k = (if room r then Some v else None)"
  by (simp add: lookup_add)

end

text \<open>Some also change the value of a key in place.\<close>

locale id_map = key_map lookup add rem room wf fits
  for lookup :: "'r \<Rightarrow> 'k \<Rightarrow> 'v option" and add and rem and room and wf and fits +
  fixes upd :: "'k \<Rightarrow> ('v \<Rightarrow> 'v) \<Rightarrow> 'r \<Rightarrow> 'r"
  assumes upd_wf: "wf r \<Longrightarrow> (\<And>v. fits k v \<Longrightarrow> fits k (f v)) \<Longrightarrow> wf (upd k f r)"
    and lookup_upd: "wf r \<Longrightarrow> (\<And>v. fits k v \<Longrightarrow> fits k (f v)) \<Longrightarrow>
      lookup (upd k f r) = (lookup r)(k := map_option f (lookup r k))"
begin

lemma other_unchanged:
  "wf r \<Longrightarrow> (\<And>v. fits k v \<Longrightarrow> fits k (f v)) \<Longrightarrow> j \<noteq> k \<Longrightarrow> lookup (upd k f r) j = lookup r j"
  "wf r \<Longrightarrow> j \<noteq> k \<Longrightarrow> lookup (rem k r) j = lookup r j"
  by (simp_all add: lookup_upd lookup_rem)

end

end
