(* ===== verification/DisplaySurfaces.thy ===== *)
theory DisplaySurfaces
  imports DisplayQueue IdMaps
begin

text \<open>
  The surface registry of \<^verbatim>\<open>WineDisplayHost.c\<close>: the slots the driver's callbacks
  fill and clear, and the readers of the presenter. Each operation is one critical section
  of \<^verbatim>\<open>reg_mutex\<close>. The registry is a finite map from surface ids and
  provides the interface \<open>id_map\<close>.
\<close>

section \<open>Data\<close>

abbreviation MAX_SURFACES :: nat where
  "MAX_SURFACES \<equiv> 32"

text \<open>\<^verbatim>\<open>wine_gui_surface_info\<close>.\<close>

record gui_surface =
  gs_id :: u64
  gs_hwnd :: u64
  gs_x :: i32
  gs_y :: i32
  gs_w :: i32
  gs_h :: i32
  gs_visible :: i32
  gs_width :: u32
  gs_height :: u32
  gs_update_seq :: u64

text \<open>\<^verbatim>\<open>struct wineios_surface_info\<close>, what the driver hands over.\<close>

record surface_info =
  si_id :: u64
  si_hwnd :: u64
  si_bits :: ptr
  si_width :: u32
  si_height :: u32
  si_stride :: u32
  si_lock :: ptr
  si_unlock :: ptr
  si_lock_ctx :: ptr

record host_surface =
  hs_used :: bool
  hs_pub :: gui_surface
  hs_bits :: ptr
  hs_stride :: u32
  hs_lock :: ptr
  hs_unlock :: ptr
  hs_lock_ctx :: ptr

definition zero_gui_surface :: gui_surface where
  "zero_gui_surface = \<lparr>gs_id = 0, gs_hwnd = 0, gs_x = 0, gs_y = 0, gs_w = 0, gs_h = 0,
     gs_visible = 0, gs_width = 0, gs_height = 0, gs_update_seq = 0\<rparr>"

definition zero_surface :: host_surface where
  "zero_surface = \<lparr>hs_used = False, hs_pub = zero_gui_surface, hs_bits = 0, hs_stride = 0,
     hs_lock = 0, hs_unlock = 0, hs_lock_ctx = 0\<rparr>"

type_synonym registry = "host_surface list"

definition empty_registry :: registry where
  "empty_registry = replicate MAX_SURFACES zero_surface"

section \<open>The driver's callbacks\<close>

definition find_surface :: "registry \<Rightarrow> u64 \<Rightarrow> nat option" where
  "find_surface R sid = first_in (\<lambda>i. hs_used (R ! i) \<and> gs_id (hs_pub (R ! i)) = sid) MAX_SURFACES"

definition new_surface :: "surface_info \<Rightarrow> host_surface" where
  "new_surface info =
     \<lparr>hs_used = True,
      hs_pub = \<lparr>gs_id = si_id info, gs_hwnd = si_hwnd info, gs_x = 0, gs_y = 0,
                gs_w = si_width info, gs_h = si_height info, gs_visible = 0,
                gs_width = si_width info, gs_height = si_height info, gs_update_seq = 0\<rparr>,
      hs_bits = si_bits info, hs_stride = si_stride info, hs_lock = si_lock info,
      hs_unlock = si_unlock info, hs_lock_ctx = si_lock_ctx info\<rparr>"

definition surface_added :: "surface_info \<Rightarrow> registry \<Rightarrow> registry" where
  "surface_added info R =
     (case first_in (\<lambda>i. \<not> hs_used (R ! i)) MAX_SURFACES of
        None \<Rightarrow> R
      | Some i \<Rightarrow> R[i := new_surface info])"

definition update_found :: "u64 \<Rightarrow> (host_surface \<Rightarrow> host_surface) \<Rightarrow> registry \<Rightarrow> registry" where
  "update_found sid f R =
     (case find_surface R sid of None \<Rightarrow> R | Some i \<Rightarrow> R[i := f (R ! i)])"

definition place :: "i32 \<Rightarrow> i32 \<Rightarrow> i32 \<Rightarrow> i32 \<Rightarrow> i32 \<Rightarrow> host_surface \<Rightarrow> host_surface" where
  "place x y w h visible s =
     s\<lparr>hs_pub := (hs_pub s)\<lparr>gs_x := x, gs_y := y, gs_w := w, gs_h := h, gs_visible := visible\<rparr>\<rparr>"

definition touch :: "host_surface \<Rightarrow> host_surface" where
  "touch s = s\<lparr>hs_pub := (hs_pub s)\<lparr>gs_update_seq := gs_update_seq (hs_pub s) + 1\<rparr>\<rparr>"

definition surface_placed :: "u64 \<Rightarrow> i32 \<Rightarrow> i32 \<Rightarrow> i32 \<Rightarrow> i32 \<Rightarrow> i32 \<Rightarrow> registry \<Rightarrow> registry" where
  "surface_placed sid x y w h visible = update_found sid (place x y w h visible)"

definition surface_updated :: "u64 \<Rightarrow> registry \<Rightarrow> registry" where
  "surface_updated sid = update_found sid touch"

definition surface_removed :: "u64 \<Rightarrow> registry \<Rightarrow> registry" where
  "surface_removed sid = update_found sid (\<lambda>_. zero_surface)"

section \<open>The presenter's readers\<close>

text \<open>The loop of \<^verbatim>\<open>wine_display_list_surfaces\<close> from slot \<open>i\<close> on; \<open>max_count\<close> is an \<open>int\<close>.\<close>

fun list_loop :: "registry \<Rightarrow> int \<Rightarrow> int \<Rightarrow> gui_surface list" where
  "list_loop [] n max_count = []"
| "list_loop (s # R) n max_count =
     (if n < max_count
      then (if hs_used s then hs_pub s # list_loop R (n + 1) max_count else list_loop R n max_count)
      else [])"

definition list_surfaces :: "registry \<Rightarrow> int \<Rightarrow> gui_surface list" where
  "list_surfaces R max_count = list_loop R 0 max_count"

text \<open>
  \<open>mem\<close> is the memory the driver draws to. The result says whether the copy was made, what
  \<open>dst\<close> then holds, and the calls made to the driver's pixel lock.
\<close>

definition copy_surface ::
  "(nat \<Rightarrow> byte) \<Rightarrow> registry \<Rightarrow> u64 \<Rightarrow> byte list \<Rightarrow> bool \<times> byte list \<times> (ptr \<times> ptr) list" where
  "copy_surface mem R sid dst =
     (case find_surface R sid of
        None \<Rightarrow> (False, dst, [])
      | Some i \<Rightarrow>
          let s = R ! i; needed = unat (hs_stride s) * unat (gs_height (hs_pub s))
          in if needed \<le> length dst
             then (True, map (\<lambda>k. mem (unat (hs_bits s) + k)) [0..<needed] @ drop needed dst,
                   [(hs_lock s, hs_lock_ctx s), (hs_unlock s, hs_lock_ctx s)])
             else (False, dst, []))"

section \<open>The registry as a map\<close>

definition surface_at :: "registry \<Rightarrow> u64 \<Rightarrow> host_surface option" where
  "surface_at R sid = map_option ((!) R) (find_surface R sid)"

definition put_surface :: "u64 \<Rightarrow> host_surface \<Rightarrow> registry \<Rightarrow> registry" where
  "put_surface sid v R =
     (case first_in (\<lambda>i. \<not> hs_used (R ! i)) MAX_SURFACES of None \<Rightarrow> R | Some i \<Rightarrow> R[i := v])"

definition fits_id :: "u64 \<Rightarrow> host_surface \<Rightarrow> bool" where
  "fits_id sid s \<longleftrightarrow> hs_used s \<and> gs_id (hs_pub s) = sid"

definition has_room :: "registry \<Rightarrow> bool" where
  "has_room R \<longleftrightarrow> (\<exists>i<MAX_SURFACES. \<not> hs_used (R ! i))"

text \<open>No two slots in use have the same sid.\<close>

definition reg_wf :: "registry \<Rightarrow> bool" where
  "reg_wf R \<longleftrightarrow> length R = MAX_SURFACES \<and>
     (\<forall>i<MAX_SURFACES. \<forall>j<MAX_SURFACES. hs_used (R ! i) \<longrightarrow> hs_used (R ! j) \<longrightarrow>
        gs_id (hs_pub (R ! i)) = gs_id (hs_pub (R ! j)) \<longrightarrow> i = j)"

lemma surface_at_Some_iff:
  assumes "reg_wf R"
  shows "surface_at R sid = Some s \<longleftrightarrow> (\<exists>i<MAX_SURFACES. R ! i = s \<and> fits_id sid s)"
proof
  assume "surface_at R sid = Some s"
  then show "\<exists>i<MAX_SURFACES. R ! i = s \<and> fits_id sid s"
    by (auto simp: surface_at_def find_surface_def fits_id_def dest: first_in_SomeD)
next
  assume "\<exists>i<MAX_SURFACES. R ! i = s \<and> fits_id sid s"
  then obtain i where i: "i < MAX_SURFACES" "R ! i = s" "fits_id sid s" by blast
  then have "find_surface R sid = Some i"
    unfolding find_surface_def using assms
    by (intro first_in_unique) (auto simp: fits_id_def reg_wf_def)
  with i show "surface_at R sid = Some s" by (simp add: surface_at_def)
qed

lemma surface_at_None_iff:
  "surface_at R sid = None \<longleftrightarrow> (\<forall>i<MAX_SURFACES. \<not> fits_id sid (R ! i))"
  by (auto simp: surface_at_def find_surface_def fits_id_def first_from_None_iff)

lemma reg_unique:
  "reg_wf R \<Longrightarrow> i < MAX_SURFACES \<Longrightarrow> j < MAX_SURFACES \<Longrightarrow> fits_id k (R ! i) \<Longrightarrow> fits_id k (R ! j) \<Longrightarrow> i = j"
  by (auto simp: reg_wf_def fits_id_def)

lemma fits_id_fun: "fits_id k s \<Longrightarrow> fits_id j s \<Longrightarrow> j = k"
  by (simp add: fits_id_def)

lemma fits_zero [simp]: "\<not> fits_id k zero_surface"
  by (simp add: fits_id_def zero_surface_def)

lemma surface_at_update:
  assumes wf: "reg_wf R" and i: "i < MAX_SURFACES" and wf': "reg_wf (R[i := v])"
  shows "surface_at (R[i := v]) k =
    (if fits_id k v then Some v else if fits_id k (R ! i) then None else surface_at R k)"
proof (rule option_eqI)
  fix s
  have len: "length R = MAX_SURFACES" using wf by (simp add: reg_wf_def)
  have nth: "R[i := v] ! j = (if j = i then v else R ! j)" if "j < MAX_SURFACES" for j
    using that i len by simp
  note L = surface_at_Some_iff [OF wf', of k s]
  show "surface_at (R[i := v]) k = Some s \<longleftrightarrow>
    (if fits_id k v then Some v else if fits_id k (R ! i) then None else surface_at R k) = Some s"
  proof (cases "fits_id k v")
    case True
    have vi: "R[i := v] ! i = v" using nth [OF i] by (rule trans) simp
    have "s = v" if j: "j < MAX_SURFACES" "R[i := v] ! j = s" "fits_id k s" for j
    proof -
      have "j = i"
        by (rule reg_unique [OF wf' j(1) i]) (use j(2,3) vi True in \<open>simp_all only:\<close>)
      with j(2) vi show ?thesis by (simp only:)
    qed
    then have "(\<exists>j<MAX_SURFACES. R[i := v] ! j = s \<and> fits_id k s) \<longleftrightarrow> s = v"
      using i vi True by blast
    with True show ?thesis unfolding L by (simp only: if_True option.inject) blast
  next
    case no: False
    show ?thesis
    proof (cases "fits_id k (R ! i)")
      case True
      have "\<not> fits_id k (R[i := v] ! j)" if j: "j < MAX_SURFACES" for j
      proof
        assume f: "fits_id k (R[i := v] ! j)"
        with no nth [OF j] have ne: "j \<noteq> i" by metis
        with f nth [OF j] have "fits_id k (R ! j)" by simp
        from reg_unique [OF wf j i this True] ne show False by simp
      qed
      then have "\<not> (\<exists>j<MAX_SURFACES. R[i := v] ! j = s \<and> fits_id k s)" by blast
      with no True show ?thesis unfolding L by simp
    next
      case False
      then have "(\<exists>j<MAX_SURFACES. R[i := v] ! j = s \<and> fits_id k s) \<longleftrightarrow>
          (\<exists>j<MAX_SURFACES. R ! j = s \<and> fits_id k s)"
        using no nth by metis
      with no False show ?thesis unfolding L by (simp add: surface_at_Some_iff [OF wf])
    qed
  qed
qed

lemma reg_wf_update:
  assumes "reg_wf R" "i < MAX_SURFACES"
    and "\<And>j. j < MAX_SURFACES \<Longrightarrow> j \<noteq> i \<Longrightarrow> hs_used v \<Longrightarrow> hs_used (R ! j) \<Longrightarrow>
      gs_id (hs_pub (R ! j)) \<noteq> gs_id (hs_pub v)"
  shows "reg_wf (R[i := v])"
  unfolding reg_wf_def
proof (intro conjI allI impI)
  show "length (R[i := v]) = MAX_SURFACES" using assms(1) by (simp add: reg_wf_def)
  fix j k assume j: "j < MAX_SURFACES" "k < MAX_SURFACES"
  assume u: "hs_used (R[i := v] ! j)" "hs_used (R[i := v] ! k)"
    "gs_id (hs_pub (R[i := v] ! j)) = gs_id (hs_pub (R[i := v] ! k))"
  have nth: "R[i := v] ! m = (if m = i then v else R ! m)" if "m < MAX_SURFACES" for m
    using that assms(1,2) by (simp add: reg_wf_def)
  show "j = k"
    using u assms(3) [of j] assms(3) [of k] assms(1) j unfolding nth [OF j(1)] nth [OF j(2)]
    by (auto simp: reg_wf_def split: if_splits)
qed

lemma put_surface_cases:
  obtains (full) "\<not> has_room R" "put_surface sid v R = R"
  | (free) i where "has_room R" "i < MAX_SURFACES" "\<not> hs_used (R ! i)" "put_surface sid v R = R[i := v]"
proof (cases "first_in (\<lambda>i. \<not> hs_used (R ! i)) MAX_SURFACES")
  case None
  then have "\<not> has_room R" by (auto simp: has_room_def first_from_None_iff)
  with None full show ?thesis by (simp add: put_surface_def)
next
  case (Some i)
  with first_in_SomeD [OF Some] free show ?thesis by (auto simp: put_surface_def has_room_def)
qed

lemma update_found_cases:
  obtains (gone) "surface_at R sid = None" "update_found sid f R = R"
  | (found) i where "i < MAX_SURFACES" "fits_id sid (R ! i)" "surface_at R sid = Some (R ! i)"
    "update_found sid f R = R[i := f (R ! i)]"
proof (cases "find_surface R sid")
  case None
  with gone show ?thesis by (simp add: update_found_def surface_at_def)
next
  case (Some i)
  then have "i < MAX_SURFACES \<and> fits_id sid (R ! i)"
    by (auto simp: find_surface_def fits_id_def dest: first_in_SomeD)
  with Some found [of i] show ?thesis by (simp add: update_found_def surface_at_def)
qed

lemma put_surface_wf:
  assumes "reg_wf R" "fits_id k v" "surface_at R k = None"
  shows "reg_wf (put_surface k v R)"
proof (cases rule: put_surface_cases [of R k v])
  case (free i)
  show ?thesis unfolding free(4) using assms
    by (intro reg_wf_update free) (auto simp: surface_at_None_iff fits_id_def)
qed (use assms in simp)

lemma update_found_wf:
  assumes "reg_wf R" "\<And>s. fits_id k s \<Longrightarrow> fits_id k (f s) \<or> \<not> hs_used (f s)"
  shows "reg_wf (update_found k f R)"
proof (cases rule: update_found_cases [of R k f])
  case (found i)
  show ?thesis unfolding found(4)
  proof (intro reg_wf_update assms(1) found)
    fix j assume j: "j < MAX_SURFACES" "j \<noteq> i" "hs_used (f (R ! i))" "hs_used (R ! j)"
    then have "fits_id k (f (R ! i))" using assms(2) [OF found(2)] by blast
    with j found reg_unique [OF assms(1), of j i k]
    show "gs_id (hs_pub (R ! j)) \<noteq> gs_id (hs_pub (f (R ! i)))"
      by (auto simp: fits_id_def)
  qed
qed (use assms in simp)

interpretation surfaces: id_map surface_at put_surface surface_removed has_room reg_wf fits_id
  update_found
proof unfold_locales
  fix R k v and f :: "host_surface \<Rightarrow> host_surface"
  assume wf: "reg_wf R"
  show "reg_wf (put_surface k v R)" if "fits_id k v" "surface_at R k = None"
    using wf that by (rule put_surface_wf)
  show "reg_wf (update_found k f R)" if "\<And>v. fits_id k v \<Longrightarrow> fits_id k (f v)"
    using wf that by (intro update_found_wf) auto
  show "reg_wf (surface_removed k R)"
    unfolding surface_removed_def using wf by (intro update_found_wf) (auto simp: zero_surface_def)
  show "surface_at (put_surface k v R) =
      (if has_room R then (surface_at R)(k := Some v) else surface_at R)"
    if v: "fits_id k v" "surface_at R k = None"
  proof (cases rule: put_surface_cases [of R k v])
    case (free i)
    have "reg_wf (R[i := v])" using put_surface_wf [OF wf v] free(4) by simp
    note up = surface_at_update [OF wf free(2) this]
    have "\<not> fits_id j (R ! i)" for j using free(3) by (simp add: fits_id_def)
    with free up v(1) fits_id_fun show ?thesis by (auto simp: fun_eq_iff)
  qed simp
  show "surface_at (update_found k f R) = (surface_at R)(k := map_option f (surface_at R k))"
    if f: "\<And>v. fits_id k v \<Longrightarrow> fits_id k (f v)"
  proof (cases rule: update_found_cases [of R k f])
    case (found i)
    have "reg_wf (R[i := f (R ! i)])" using update_found_wf [of R k f] wf f found(4) by fastforce
    note up = surface_at_update [OF wf found(1) this]
    show ?thesis
      using found up f [OF found(2)] fits_id_fun by (fastforce simp: fun_eq_iff)
  qed auto
  show "surface_at (surface_removed k R) = (surface_at R)(k := None)"
    unfolding surface_removed_def
  proof (cases rule: update_found_cases [of R k "\<lambda>_. zero_surface"])
    case (found i)
    have "reg_wf (R[i := zero_surface])"
      using update_found_wf [of R k "\<lambda>_. zero_surface"] wf found(4) by (simp add: zero_surface_def)
    note up = surface_at_update [OF wf found(1) this]
    show "surface_at (update_found k (\<lambda>_. zero_surface) R) = (surface_at R)(k := None)"
      using found up fits_id_fun by (fastforce simp: fun_eq_iff)
  qed auto
qed

end
