(* ===== verification/DisplayTitles.thy ===== *)
theory DisplayTitles
  imports DisplaySurfaces
begin

text \<open>
  Window titles of \<^verbatim>\<open>WineDisplayHost.c\<close>: the table \<^verbatim>\<open>cb_window_title\<close> fills
  and the bounded UTF-16 to UTF-8 conversion of \<^verbatim>\<open>wine_display_copy_title\<close>.
\<close>

section \<open>The table\<close>

abbreviation MAX_TITLES :: nat where "MAX_TITLES \<equiv> 32"
abbreviation TITLE_CHARS :: nat where "TITLE_CHARS \<equiv> 256"

record host_title =
  ht_used :: bool
  ht_hwnd :: u64
  ht_text :: "u16 list"
  ht_len :: u32

type_synonym titles = "host_title list"

definition zero_title :: host_title where
  "zero_title = \<lparr>ht_used = False, ht_hwnd = 0, ht_text = replicate TITLE_CHARS 0, ht_len = 0\<rparr>"

definition empty_titles :: titles where
  "empty_titles = replicate MAX_TITLES zero_title"

text \<open>
  The loop of \<^verbatim>\<open>cb_window_title\<close> over the slots from number \<open>i\<close> on: the slot of
  this window ends it, the first free slot is remembered.
\<close>

fun title_scan :: "titles \<Rightarrow> u64 \<Rightarrow> nat \<Rightarrow> nat option \<Rightarrow> nat option" where
  "title_scan [] hwnd i slot = slot"
| "title_scan (t # ts) hwnd i slot =
     (if ht_used t \<and> ht_hwnd t = hwnd then Some i
      else title_scan ts hwnd (i + 1) (if slot = None \<and> \<not> ht_used t then Some i else slot))"

text \<open>\<open>utf16\<close> holds at least \<open>len\<close> units, as the caller promises.\<close>

definition window_title :: "u64 \<Rightarrow> u16 list \<Rightarrow> u32 \<Rightarrow> titles \<Rightarrow> titles" where
  "window_title hwnd utf16 len T =
     (case title_scan T hwnd 0 None of
        None \<Rightarrow> T
      | Some i \<Rightarrow>
          let n = (if unat len > TITLE_CHARS then of_nat TITLE_CHARS else len)
          in T[i := \<lparr>ht_used = True, ht_hwnd = hwnd,
                     ht_text = take (unat n) utf16 @ drop (unat n) (ht_text (T ! i)), ht_len = n\<rparr>])"

section \<open>UTF-16 to UTF-8\<close>

definition utf8_unit :: "u16 \<Rightarrow> byte list" where
  "utf8_unit u =
     (let ch0 = ucast u :: u32;
          ch = (if 0xd800 \<le> ch0 \<and> ch0 \<le> 0xdfff then 0x3f else ch0)
      in if ch < 0x80 then [ucast ch]
         else if ch < 0x800 then [ucast (0xc0 OR drop_bit 6 ch), ucast (0x80 OR (ch AND 0x3f))]
         else [ucast (0xe0 OR drop_bit 12 ch), ucast (0x80 OR (drop_bit 6 ch AND 0x3f)),
               ucast (0x80 OR (ch AND 0x3f))])"

text \<open>The conversion loop: \<open>written\<close> bytes so far, into \<open>max_bytes\<close>.\<close>

fun utf8_loop :: "u16 list \<Rightarrow> int \<Rightarrow> int \<Rightarrow> byte list" where
  "utf8_loop [] written max_bytes = []"
| "utf8_loop (u # us) written max_bytes =
     (if written < max_bytes - 4
      then utf8_unit u @ utf8_loop us (written + int (length (utf8_unit u))) max_bytes
      else [])"

text \<open>The bytes written to \<open>utf8\<close>; the result of the call is their number.\<close>

definition copy_title :: "titles \<Rightarrow> u64 \<Rightarrow> int \<Rightarrow> byte list" where
  "copy_title T hwnd max_bytes =
     (case first_in (\<lambda>i. ht_used (T ! i) \<and> ht_hwnd (T ! i) = hwnd) MAX_TITLES of
        None \<Rightarrow> []
      | Some i \<Rightarrow> utf8_loop (take (unat (ht_len (T ! i))) (ht_text (T ! i))) 0 max_bytes)"

section \<open>The table as a map\<close>

definition titles_wf :: "titles \<Rightarrow> bool" where
  "titles_wf T \<longleftrightarrow> length T = MAX_TITLES \<and>
     (\<forall>i<MAX_TITLES. length (ht_text (T ! i)) = TITLE_CHARS \<and> unat (ht_len (T ! i)) \<le> TITLE_CHARS) \<and>
     (\<forall>i<MAX_TITLES. \<forall>j<MAX_TITLES. ht_used (T ! i) \<longrightarrow> ht_used (T ! j) \<longrightarrow>
        ht_hwnd (T ! i) = ht_hwnd (T ! j) \<longrightarrow> i = j)"

definition title_slot :: "titles \<Rightarrow> u64 \<Rightarrow> nat option" where
  "title_slot T hwnd = first_in (\<lambda>i. ht_used (T ! i) \<and> ht_hwnd (T ! i) = hwnd) MAX_TITLES"

definition title_text :: "host_title \<Rightarrow> u16 list" where
  "title_text t = take (unat (ht_len t)) (ht_text t)"

definition title_at :: "titles \<Rightarrow> u64 \<Rightarrow> u16 list option" where
  "title_at T hwnd = map_option (\<lambda>i. title_text (T ! i)) (title_slot T hwnd)"

lemma copy_title_eq:
  "copy_title T hwnd m = (case title_at T hwnd of None \<Rightarrow> [] | Some us \<Rightarrow> utf8_loop us 0 m)"
  by (simp add: copy_title_def title_at_def title_slot_def title_text_def split: option.split)

lemma first_from_Suc:
  "first_from P (Suc n) (Suc i) = map_option Suc (first_from (\<lambda>j. P (Suc j)) n i)"
proof (induction "\<lambda>j. P (Suc j)" n i rule: first_from.induct)
  case (1 n i)
  consider "n \<le> i" | "i < n" "P (Suc i)" | "i < n" "\<not> P (Suc i)" by linarith
  then show ?case
  proof cases
    case 3
    with 1 show ?thesis by (simp add: first_from_miss)
  qed simp_all
qed

lemma first_in_Suc:
  "first_in P (Suc n) = (if P 0 then Some 0 else map_option Suc (first_in (\<lambda>j. P (Suc j)) n))"
  by (simp add: first_from_miss first_from_Suc)

text \<open>The one-pass scan finds what two passes would: the window's slot, else a free one.\<close>

lemma title_scan_gen:
  "title_scan ts hwnd k slot =
     (case first_in (\<lambda>i. ht_used (ts ! i) \<and> ht_hwnd (ts ! i) = hwnd) (length ts) of
        Some i \<Rightarrow> Some (k + i)
      | None \<Rightarrow> (case slot of Some s \<Rightarrow> Some s
                 | None \<Rightarrow> map_option ((+) k) (first_in (\<lambda>i. \<not> ht_used (ts ! i)) (length ts))))"
proof (induction ts arbitrary: k slot)
  case (Cons t ts)
  have k: "(+) (Suc k) = (\<lambda>x. Suc (k + x))" by (simp add: fun_eq_iff)
  show ?case unfolding k
    by (simp add: first_in_Suc Cons.IH k split: option.split) (auto simp: option.map_comp o_def)
qed (simp split: option.split)

lemma title_scan_eq:
  "length T = MAX_TITLES \<Longrightarrow> title_scan T hwnd 0 None =
     (case title_slot T hwnd of Some i \<Rightarrow> Some i
      | None \<Rightarrow> first_in (\<lambda>i. \<not> ht_used (T ! i)) MAX_TITLES)"
  by (simp add: title_scan_gen title_slot_def split: option.split)
     (simp add: option.map_ident_strong)

definition title_room :: "titles \<Rightarrow> u64 \<Rightarrow> bool" where
  "title_room T hwnd \<longleftrightarrow> title_at T hwnd \<noteq> None \<or> (\<exists>i<MAX_TITLES. \<not> ht_used (T ! i))"

definition new_title :: "u64 \<Rightarrow> u16 list \<Rightarrow> u32 \<Rightarrow> host_title \<Rightarrow> host_title" where
  "new_title hwnd utf16 len old =
     (let n = (if unat len > TITLE_CHARS then of_nat TITLE_CHARS else len)
      in \<lparr>ht_used = True, ht_hwnd = hwnd,
          ht_text = take (unat n) utf16 @ drop (unat n) (ht_text old), ht_len = n\<rparr>)"

lemma window_title_cases:
  assumes "titles_wf T"
  obtains (full) "\<not> title_room T hwnd" "window_title hwnd us n T = T"
  | (put) i where "title_room T hwnd" "i < MAX_TITLES" "\<not> ht_used (T ! i) \<or> ht_hwnd (T ! i) = hwnd"
      "\<And>j. j < MAX_TITLES \<Longrightarrow> ht_used (T ! j) \<Longrightarrow> ht_hwnd (T ! j) = hwnd \<Longrightarrow> j = i"
      "window_title hwnd us n T = T[i := new_title hwnd us n (T ! i)]"
proof -
  have len: "length T = MAX_TITLES" using assms by (simp add: titles_wf_def)
  note sc = title_scan_eq [OF len, of hwnd]
  show ?thesis
  proof (cases "title_slot T hwnd")
    case (Some i)
    then have i: "i < MAX_TITLES" "ht_used (T ! i)" "ht_hwnd (T ! i) = hwnd"
      by (auto simp: title_slot_def dest: first_in_SomeD)
    show ?thesis
    proof (rule put [OF _ i(1)])
      show "title_room T hwnd" using Some by (simp add: title_room_def title_at_def)
      show "j = i" if "j < MAX_TITLES" "ht_used (T ! j)" "ht_hwnd (T ! j) = hwnd" for j
        using assms i that by (auto simp: titles_wf_def)
      show "window_title hwnd us n T = T[i := new_title hwnd us n (T ! i)]"
        using sc Some by (simp add: window_title_def new_title_def Let_def)
    qed (use i in simp)
  next
    case None
    then have none: "\<not> (ht_used (T ! j) \<and> ht_hwnd (T ! j) = hwnd)" if "j < MAX_TITLES" for j
      using that by (auto simp: title_slot_def dest: first_in_NoneD)
    show ?thesis
    proof (cases "first_in (\<lambda>i. \<not> ht_used (T ! i)) MAX_TITLES")
      case N: None
      then have "\<not> title_room T hwnd"
        using None by (auto simp: title_room_def title_at_def first_from_None_iff)
      then show ?thesis using full sc None N by (simp add: window_title_def)
    next
      case (Some i)
      from first_in_SomeD [OF this] have i: "i < MAX_TITLES" "\<not> ht_used (T ! i)" by simp_all
      show ?thesis
      proof (rule put [OF _ i(1)])
        show "title_room T hwnd" using i by (auto simp: title_room_def)
        show "j = i" if "j < MAX_TITLES" "ht_used (T ! j)" "ht_hwnd (T ! j) = hwnd" for j
          using none [OF that(1)] that by simp
        show "window_title hwnd us n T = T[i := new_title hwnd us n (T ! i)]"
          using sc None Some by (simp add: window_title_def new_title_def Let_def)
      qed (use i in simp)
    qed
  qed
qed

lemma unat_TITLE_CHARS: "unat (of_nat TITLE_CHARS :: u32) = TITLE_CHARS"
  by simp

lemma new_title_sel [simp]:
  "ht_used (new_title h us n t)" "ht_hwnd (new_title h us n t) = h"
  "unat (ht_len (new_title h us n t)) = min (unat n) TITLE_CHARS"
  by (simp_all add: new_title_def Let_def)

lemma new_title_text:
  "unat n \<le> length us \<Longrightarrow> title_text (new_title h us n t) = take (min (unat n) TITLE_CHARS) us"
  by (auto simp: title_text_def new_title_def Let_def min_def)

lemma new_title_length:
  "unat n \<le> length us \<Longrightarrow> length (ht_text t) = TITLE_CHARS \<Longrightarrow> length (ht_text (new_title h us n t)) = TITLE_CHARS"
  by (simp add: new_title_def Let_def)

lemma title_at_Some_iff:
  assumes "titles_wf T"
  shows "title_at T h = Some us \<longleftrightarrow> (\<exists>i<MAX_TITLES. ht_used (T ! i) \<and> ht_hwnd (T ! i) = h \<and> us = title_text (T ! i))"
proof
  assume "title_at T h = Some us"
  then show "\<exists>i<MAX_TITLES. ht_used (T ! i) \<and> ht_hwnd (T ! i) = h \<and> us = title_text (T ! i)"
    by (auto simp: title_at_def title_slot_def dest: first_in_SomeD)
next
  assume "\<exists>i<MAX_TITLES. ht_used (T ! i) \<and> ht_hwnd (T ! i) = h \<and> us = title_text (T ! i)"
  then obtain i where i: "i < MAX_TITLES" "ht_used (T ! i)" "ht_hwnd (T ! i) = h" "us = title_text (T ! i)"
    by blast
  then have "title_slot T h = Some i"
    unfolding title_slot_def using assms by (intro first_in_unique) (auto simp: titles_wf_def)
  with i show "title_at T h = Some us" by (simp add: title_at_def)
qed

lemma titles_wf_update:
  assumes wf: "titles_wf T" and i: "i < MAX_TITLES"
    and v: "length (ht_text v) = TITLE_CHARS" "unat (ht_len v) \<le> TITLE_CHARS"
    and new: "\<And>j. j < MAX_TITLES \<Longrightarrow> ht_used (T ! j) \<Longrightarrow> ht_hwnd (T ! j) = ht_hwnd v \<Longrightarrow> j = i"
  shows "titles_wf (T[i := v])"
  unfolding titles_wf_def
proof (intro conjI allI impI)
  have len: "length T = MAX_TITLES" using wf by (simp add: titles_wf_def)
  have nth: "T[i := v] ! j = (if j = i then v else T ! j)" if "j < MAX_TITLES" for j
    using that i len by simp
  show "length (T[i := v]) = MAX_TITLES" using len by simp
  fix j assume j: "j < MAX_TITLES"
  show "length (ht_text (T[i := v] ! j)) = TITLE_CHARS" "unat (ht_len (T[i := v] ! j)) \<le> TITLE_CHARS"
    using v wf j unfolding nth [OF j] by (simp_all add: titles_wf_def)
  fix k assume k: "k < MAX_TITLES"
  assume u: "ht_used (T[i := v] ! j)" "ht_used (T[i := v] ! k)" "ht_hwnd (T[i := v] ! j) = ht_hwnd (T[i := v] ! k)"
  show "j = k"
  proof (cases "j = i")
    case True
    show ?thesis
    proof (rule ccontr)
      assume "j \<noteq> k"
      with True u(2,3) new [OF k] show False unfolding nth [OF j] nth [OF k] by simp
    qed
  next
    case j': False
    show ?thesis
    proof (cases "k = i")
      case True
      with j' u(1,3) new [OF j] show ?thesis unfolding nth [OF j] nth [OF k] by simp
    next
      case False
      with j' u wf j k show ?thesis unfolding nth [OF j] nth [OF k] by (simp add: titles_wf_def)
    qed
  qed
qed

lemma titles_wf_put:
  assumes "titles_wf T" "i < MAX_TITLES" "unat n \<le> length us"
    "\<And>j. j < MAX_TITLES \<Longrightarrow> ht_used (T ! j) \<Longrightarrow> ht_hwnd (T ! j) = h \<Longrightarrow> j = i"
  shows "titles_wf (T[i := new_title h us n (T ! i)])"
proof (rule titles_wf_update [OF assms(1,2)])
  show "length (ht_text (new_title h us n (T ! i))) = TITLE_CHARS"
    using new_title_length [OF assms(3)] assms(1,2) by (simp add: titles_wf_def)
qed (use assms(4) in simp_all)

lemma window_title_wf:
  assumes "titles_wf T" "unat n \<le> length us"
  shows "titles_wf (window_title h us n T)"
proof (rule window_title_cases [OF assms(1), of h us n])
  fix i
  assume "i < MAX_TITLES" "\<And>j. j < MAX_TITLES \<Longrightarrow> ht_used (T ! j) \<Longrightarrow> ht_hwnd (T ! j) = h \<Longrightarrow> j = i"
    "window_title h us n T = T[i := new_title h us n (T ! i)]"
  with titles_wf_put [OF assms(1) _ assms(2), of i h] show ?thesis by simp
qed (use assms(1) in simp)

lemma title_at_update:
  assumes wf: "titles_wf T" and i: "i < MAX_TITLES" and wf': "titles_wf (T[i := v])" and u: "ht_used v"
    and old: "\<not> ht_used (T ! i) \<or> ht_hwnd (T ! i) = ht_hwnd v"
  shows "title_at (T[i := v]) k = (if k = ht_hwnd v then Some (title_text v) else title_at T k)"
proof (rule option_eqI)
  fix us
  have len: "length T = MAX_TITLES" using wf by (simp add: titles_wf_def)
  have nth: "T[i := v] ! j = (if j = i then v else T ! j)" if "j < MAX_TITLES" for j
    using that i len by simp
  show "title_at (T[i := v]) k = Some us \<longleftrightarrow>
      (if k = ht_hwnd v then Some (title_text v) else title_at T k) = Some us"
  proof (cases "k = ht_hwnd v")
    case True
    have "title_at (T[i := v]) k = Some (title_text v)"
      unfolding title_at_Some_iff [OF wf']
      by (rule exI [of _ i]) (simp only: nth [OF i] i u True simp_thms if_True)
    with True show ?thesis by auto
  next
    case False
    have "(ht_used (T[i := v] ! j) \<and> ht_hwnd (T[i := v] ! j) = k \<and> us = title_text (T[i := v] ! j)) \<longleftrightarrow>
        (ht_used (T ! j) \<and> ht_hwnd (T ! j) = k \<and> us = title_text (T ! j))" if "j < MAX_TITLES" for j
      unfolding nth [OF that] using False old by auto
    then have "title_at (T[i := v]) k = Some us \<longleftrightarrow> title_at T k = Some us"
      unfolding title_at_Some_iff [OF wf'] title_at_Some_iff [OF wf] by blast
    with False show ?thesis by simp
  qed
qed

lemma window_title_lookup:
  assumes wf: "titles_wf T" and n: "unat n \<le> length us"
  shows "title_at (window_title h us n T) =
    (if title_room T h then (title_at T)(h := Some (take (min (unat n) TITLE_CHARS) us)) else title_at T)"
proof (rule window_title_cases [OF wf, of h us n])
  fix i
  assume i: "title_room T h" "i < MAX_TITLES" "\<not> ht_used (T ! i) \<or> ht_hwnd (T ! i) = h"
    and u: "\<And>j. j < MAX_TITLES \<Longrightarrow> ht_used (T ! j) \<Longrightarrow> ht_hwnd (T ! j) = h \<Longrightarrow> j = i"
    and eq: "window_title h us n T = T[i := new_title h us n (T ! i)]"
  have wf': "titles_wf (T[i := new_title h us n (T ! i)])"
    using u by (rule titles_wf_put [OF wf i(2) n])
  have "title_at (T[i := new_title h us n (T ! i)]) k =
      ((title_at T)(h := Some (take (min (unat n) TITLE_CHARS) us))) k" for k
    using title_at_update [OF wf i(2) wf' new_title_sel(1), of k] i(3) new_title_text [OF n, of h "T ! i"] by simp
  with i(1) eq show ?thesis by (simp add: fun_eq_iff)
qed simp

section \<open>The conversion\<close>

lemma utf8_unit_length: "1 \<le> length (utf8_unit u)" "length (utf8_unit u) \<le> 3"
  by (simp_all add: utf8_unit_def Let_def)

lemma utf8_loop_bound:
  "written \<le> max_bytes - 2 \<Longrightarrow> written + int (length (utf8_loop us written max_bytes)) \<le> max_bytes - 2"
proof (induction us arbitrary: written)
  case (Cons u us)
  show ?case
  proof (cases "written < max_bytes - 4")
    case True
    then have "written + int (length (utf8_unit u)) \<le> max_bytes - 2"
      using utf8_unit_length(2) [of u] by linarith
    from Cons.IH [OF this] True show ?thesis by simp
  qed (use Cons.prems in simp)
qed simp

text \<open>Whole characters only.\<close>

lemma utf8_loop_prefix:
  "\<exists>k\<le>length us. utf8_loop us written max_bytes = concat (map utf8_unit (take k us)) \<and>
     (k < length us \<longrightarrow> max_bytes - 4 \<le> written + int (length (utf8_loop us written max_bytes)))"
proof (induction us arbitrary: written)
  case (Cons u us)
  show ?case
  proof (cases "written < max_bytes - 4")
    case True
    from Cons.IH [of "written + int (length (utf8_unit u))"] obtain k where
      k: "k \<le> length us" "utf8_loop us (written + int (length (utf8_unit u))) max_bytes =
           concat (map utf8_unit (take k us))"
        "k < length us \<longrightarrow> max_bytes - 4 \<le> written + int (length (utf8_unit u)) +
           int (length (utf8_loop us (written + int (length (utf8_unit u))) max_bytes))" by blast
    then show ?thesis using True by (intro exI [of _ "Suc k"]) auto
  qed (auto intro: exI [of _ 0])
qed simp

text \<open>
  The bytes as numbers: the bits the code sets with \<^verbatim>\<open>|\<close> are clear before, so
  they add. A surrogate is shown as a question mark.
\<close>

definition shown :: "u16 \<Rightarrow> nat" where
  "shown u = (if 0xd800 \<le> unat u \<and> unat u \<le> 0xdfff then 0x3f else unat u)"

fun utf8_bytes :: "nat \<Rightarrow> nat list" where
  "utf8_bytes c =
     (if c < 0x80 then [c]
      else if c < 0x800 then [0xc0 + c div 64, 0x80 + c mod 64]
      else [0xe0 + c div 4096, 0x80 + c div 64 mod 64, 0x80 + c mod 64])"

lemma or_add:
  assumes "(m :: nat) < 2 ^ n"
  shows "push_bit n a OR m = push_bit n a + m"
proof -
  have "push_bit n a AND m = 0"
  proof (rule bit_eqI)
    fix i
    have "bit m i \<Longrightarrow> i < n"
      using assms by (metis bit_take_bit_iff take_bit_nat_eq_self)
    then show "bit (push_bit n a AND m) i = bit 0 i"
      by (auto simp: bit_simps)
  qed
  then show ?thesis by (simp add: disjunctive_add_eq_or)
qed

lemma lead_bytes:
  "(m :: nat) < 64 \<Longrightarrow> 0xc0 OR m = 0xc0 + m" "m < 32 \<Longrightarrow> 0xe0 OR m = 0xe0 + m"
  "m < 64 \<Longrightarrow> 0x80 OR m = 0x80 + m"
  using or_add [of m 6 3] or_add [of m 5 7] or_add [of m 7 1] by (simp_all add: push_bit_eq_mult)

lemma unat_u16: "unat (u :: u16) < 65536"
  by (rule order_less_le_trans [OF unsigned_less]) simp

lemma shown_less: "shown u < 65536"
  using unat_u16 [of u] by (simp add: shown_def)

lemma shown_ucast:
  "unat (if 0xd800 \<le> (ucast u :: u32) \<and> ucast u \<le> (0xdfff :: u32) then 0x3f else ucast u :: u32) = shown u"
proof -
  have "unat (ucast u :: u32) = unat u"
    using unat_u16 [of u] by (simp add: unsigned_ucast_eq take_bit_nat_eq_self)
  then show ?thesis by (simp add: shown_def word_le_nat_alt)
qed

lemma unat_byte: "unat (w :: u32) < 256 \<Longrightarrow> unat (ucast w :: byte) = unat w"
  by (simp add: unsigned_ucast_eq take_bit_nat_eq_self)

lemma utf8_unit_bytes: "map unat (utf8_unit u) = utf8_bytes (shown u)"
proof -
  define ch where "ch = (if 0xd800 \<le> (ucast u :: u32) \<and> ucast u \<le> (0xdfff :: u32) then 0x3f else ucast u :: u32)"
  have c: "unat ch = shown u" unfolding ch_def by (rule shown_ucast)
  note b = shown_less [of u]
  have low: "unat (w AND 0x3f) = unat w mod 64" for w :: u32
  proof -
    have "w AND 0x3f = take_bit 6 w" by (simp add: take_bit_eq_mask mask_numeral)
    then have "unat (w AND 0x3f) = take_bit 6 (unat w)" by (simp only: unsigned_take_bit_eq)
    then show ?thesis by (simp add: take_bit_eq_mod)
  qed
  have hi: "unat (drop_bit 6 ch) = shown u div 64" "unat (drop_bit 12 ch) = shown u div 4096"
    by (simp_all only: unat_drop_bit_eq c) (simp_all add: drop_bit_eq_div)
  have l: "(ch < 0x80) = (shown u < 0x80)" "(ch < 0x800) = (shown u < 0x800)"
    by (simp_all add: word_less_nat_alt c)
  have cont: "unat (ucast (0x80 OR (w AND 0x3f)) :: byte) = 0x80 + unat w mod 64" for w :: u32
  proof -
    have "unat (0x80 OR (w AND 0x3f)) = 0x80 + unat w mod 64"
      by (simp add: unsigned_or_eq low lead_bytes)
    moreover have "unat w mod 64 < 64" by simp
    ultimately show ?thesis by (subst unat_byte) linarith+
  qed
  have lead2: "unat (ucast (0xc0 OR drop_bit 6 ch) :: byte) = 0xc0 + shown u div 64" if "shown u < 0x800"
  proof -
    have "shown u div 64 < 32" using that by simp
    then show ?thesis using hi by (subst unat_byte) (simp_all add: unsigned_or_eq lead_bytes)
  qed
  have lead3: "unat (ucast (0xe0 OR drop_bit 12 ch) :: byte) = 0xe0 + shown u div 4096"
  proof -
    have "shown u div 4096 < 16" using b by simp
    then show ?thesis using hi by (subst unat_byte) (simp_all add: unsigned_or_eq lead_bytes)
  qed
  show ?thesis
    using cont [of ch] cont [of "drop_bit 6 ch"] lead2 lead3 hi l c
    by (simp add: utf8_unit_def Let_def ch_def [symmetric] unat_byte)
qed

text \<open>A decoder of the two-byte and three-byte forms and of ASCII.\<close>

definition cont_byte :: "nat \<Rightarrow> bool" where
  "cont_byte c \<longleftrightarrow> 0x80 \<le> c \<and> c < 0xc0"

fun utf8_decode :: "nat list \<Rightarrow> nat list option" where
  "utf8_decode [] = Some []"
| "utf8_decode (b # bs) =
     (if b < 0x80 then map_option ((#) b) (utf8_decode bs)
      else if 0xc0 \<le> b \<and> b < 0xe0 then
        (case bs of
           c # cs \<Rightarrow>
             if cont_byte c then map_option ((#) ((b - 0xc0) * 64 + (c - 0x80))) (utf8_decode cs) else None
         | _ \<Rightarrow> None)
      else if 0xe0 \<le> b \<and> b < 0xf0 then
        (case bs of
           c # d # ds \<Rightarrow>
             if cont_byte c \<and> cont_byte d
             then map_option ((#) ((b - 0xe0) * 4096 + (c - 0x80) * 64 + (d - 0x80))) (utf8_decode ds)
             else None
         | _ \<Rightarrow> None)
      else None)"

lemma utf8_decode_bytes:
  assumes "c < 65536"
  shows "utf8_decode (utf8_bytes c @ bs) = map_option ((#) c) (utf8_decode bs)"
proof -
  consider "c < 0x80" | "0x80 \<le> c" "c < 0x800" | "0x800 \<le> c" by linarith
  then show ?thesis
  proof cases
    case 2
    define q r where "q = c div 64" and "r = c mod 64"
    with 2 have d: "q < 32" "q * 64 + r = c" "cont_byte (128 + r)"
      by (auto simp: cont_byte_def)
    have "utf8_bytes c = [0xc0 + q, 0x80 + r]" using 2 by (simp add: q_def r_def)
    with d show ?thesis by simp
  next
    case 3
    have "c div 4096 = c div 64 div 64" by (simp flip: div_mult2_eq)
    moreover have "c div 64 div 64 * 64 + c div 64 mod 64 = c div 64" "c div 64 * 64 + c mod 64 = c"
      by simp_all
    ultimately have "c div 4096 * 4096 + c div 64 mod 64 * 64 + c mod 64 = c" by linarith
    moreover have "c div 4096 < 16" using assms by auto
    moreover have "cont_byte (128 + c div 64 mod 64)" "cont_byte (128 + c mod 64)"
      by (simp_all add: cont_byte_def)
    ultimately show ?thesis using 3 by simp
  qed simp
qed

lemma utf8_roundtrip: "utf8_decode (map unat (concat (map utf8_unit us))) = Some (map shown us)"
  by (induction us) (simp_all add: utf8_unit_bytes utf8_decode_bytes shown_less del: utf8_bytes.simps)

end
