(* ===== verification/Display.thy ===== *)
theory Display
  imports DisplayTitles
begin

text \<open>
  The display bridge as a whole: the callbacks of the Wine threads and the presenter's
  polling, interleaved. A callback is two steps, its critical section and the
  \<^verbatim>\<open>bump\<close> of the change counter after the unlock.
\<close>

record display =
  d_surfaces :: registry
  d_titles :: titles
  d_change_seq :: u64
  d_screen :: "u32 \<times> u32"
  d_bumps :: nat \<comment> \<open>callbacks between their unlock and their \<open>bump\<close>\<close>

definition start_display :: display where
  "start_display = \<lparr>d_surfaces = empty_registry, d_titles = empty_titles, d_change_seq = 1,
     d_screen = (0, 0), d_bumps = 0\<rparr>"

definition bump :: "display \<Rightarrow> display" where
  "bump s = s\<lparr>d_change_seq := d_change_seq s + 1, d_bumps := d_bumps s - 1\<rparr>"

definition configure :: "u32 \<Rightarrow> u32 \<Rightarrow> display \<Rightarrow> display" where
  "configure w h s = s\<lparr>d_screen := (w, h)\<rparr>"

text \<open>\<^verbatim>\<open>cb_screen_size\<close>: the size, or \<open>None\<close> for its result 0.\<close>

definition screen_size :: "display \<Rightarrow> (u32 \<times> u32) option" where
  "screen_size s = (if fst (d_screen s) = 0 \<or> snd (d_screen s) = 0 then None else Some (d_screen s))"

datatype driver_call =
    Added surface_info
  | Placed u64 i32 i32 i32 i32 i32
  | Updated u64
  | Removed u64
  | Titled u64 "u16 list" u32

fun on_surfaces :: "driver_call \<Rightarrow> registry \<Rightarrow> registry" where
  "on_surfaces (Added info) R = surface_added info R"
| "on_surfaces (Placed k x y w h v) R = surface_placed k x y w h v R"
| "on_surfaces (Updated k) R = surface_updated k R"
| "on_surfaces (Removed k) R = surface_removed k R"
| "on_surfaces (Titled _ _ _) R = R"

fun on_titles :: "driver_call \<Rightarrow> titles \<Rightarrow> titles" where
  "on_titles (Titled hwnd us n) T = window_title hwnd us n T"
| "on_titles _ T = T"

definition callback :: "driver_call \<Rightarrow> display \<Rightarrow> display" where
  "callback c s = s\<lparr>d_surfaces := on_surfaces c (d_surfaces s), d_titles := on_titles c (d_titles s),
     d_bumps := d_bumps s + 1\<rparr>"

datatype display_act = Driver driver_call | Bump | Configure u32 u32

text \<open>
  The driver's side of the contract: it adds a surface under an id that is not registered
  (ids are unique for the process lifetime), and a title has the units it announces.
\<close>

fun driver_ok :: "driver_call \<Rightarrow> display \<Rightarrow> bool" where
  "driver_ok (Added info) s = (surface_at (d_surfaces s) (si_id info) = None)"
| "driver_ok (Titled _ us n) s = (unat n \<le> length us)"
| "driver_ok _ s = True"

fun display_step :: "display \<Rightarrow> display_act \<Rightarrow> display \<Rightarrow> bool" where
  "display_step s (Driver c) t = (driver_ok c s \<and> t = callback c s)"
| "display_step s Bump t = (0 < d_bumps s \<and> t = bump s)"
| "display_step s (Configure w h) t = (t = configure w h s)"

section \<open>The registry as a map\<close>

text \<open>What the driver's calls mean on a map of at most \<open>MAX_SURFACES\<close> surfaces.\<close>

type_synonym surface_map = "u64 \<Rightarrow> host_surface option"

fun spec_surfaces :: "display_act \<Rightarrow> surface_map \<Rightarrow> surface_map" where
  "spec_surfaces (Driver (Added info)) m =
     (if card (dom m) < MAX_SURFACES then m(si_id info := Some (new_surface info)) else m)"
| "spec_surfaces (Driver (Placed k x y w h v)) m = m(k := map_option (place x y w h v) (m k))"
| "spec_surfaces (Driver (Updated k)) m = m(k := map_option touch (m k))"
| "spec_surfaces (Driver (Removed k)) m = m(k := None)"
| "spec_surfaces _ m = m"

lemma has_room_iff:
  assumes "reg_wf R"
  shows "has_room R \<longleftrightarrow> card (dom (surface_at R)) < MAX_SURFACES"
proof -
  let ?U = "{i. i < MAX_SURFACES \<and> hs_used (R ! i)}"
  let ?key = "\<lambda>i. gs_id (hs_pub (R ! i))"
  have "dom (surface_at R) = ?key ` ?U"
    by (auto simp: surface_at_Some_iff [OF assms] fits_id_def dom_def)
  moreover have "inj_on ?key ?U"
    using assms by (auto simp: reg_wf_def inj_on_def)
  ultimately have c: "card (dom (surface_at R)) = card ?U" by (simp add: card_image)
  show ?thesis
  proof
    assume "has_room R"
    then obtain i where "i < MAX_SURFACES" "\<not> hs_used (R ! i)" by (auto simp: has_room_def)
    then have "?U \<subset> {..<MAX_SURFACES}" by auto
    then have "card ?U < card {..<MAX_SURFACES}" by (intro psubset_card_mono) auto
    with c show "card (dom (surface_at R)) < MAX_SURFACES" by simp
  next
    assume "card (dom (surface_at R)) < MAX_SURFACES"
    with c have "card ?U \<noteq> card {..<MAX_SURFACES}" by simp
    then have "?U \<noteq> {..<MAX_SURFACES}" by metis
    then show "has_room R" by (auto simp: has_room_def)
  qed
qed

lemma surface_added_put: "surface_added info R = put_surface (si_id info) (new_surface info) R"
  by (simp add: surface_added_def put_surface_def)

lemma fits_new: "fits_id (si_id info) (new_surface info)"
  by (simp add: fits_id_def new_surface_def)

lemma fits_keep [simp]:
  "fits_id k (place x y w h v s) = fits_id k s" "fits_id k (touch s) = fits_id k s"
  by (simp_all add: fits_id_def place_def touch_def)

definition display_inv :: "display \<Rightarrow> bool" where
  "display_inv s \<longleftrightarrow> reg_wf (d_surfaces s) \<and> titles_wf (d_titles s)"

lemma callback_surfaces_wf:
  "reg_wf R \<Longrightarrow> (\<And>info. c = Added info \<Longrightarrow> surface_at R (si_id info) = None) \<Longrightarrow> reg_wf (on_surfaces c R)"
  by (cases c)
     (auto simp: surface_added_put surface_placed_def surface_updated_def
       intro: surfaces.add_wf surfaces.upd_wf surfaces.rem_wf fits_new)

lemma callback_surfaces_lookup:
  assumes "reg_wf R" "\<And>info. c = Added info \<Longrightarrow> surface_at R (si_id info) = None"
  shows "surface_at (on_surfaces c R) = spec_surfaces (Driver c) (surface_at R)"
  using assms
  by (cases c)
     (simp_all add: surface_added_put surface_placed_def surface_updated_def fits_new
       surfaces.lookup_add surfaces.lookup_upd surfaces.lookup_rem has_room_iff)

lemma callback_titles_wf:
  "titles_wf T \<Longrightarrow> (\<And>h us n. c = Titled h us n \<Longrightarrow> unat n \<le> length us) \<Longrightarrow> titles_wf (on_titles c T)"
  by (cases c) (auto intro: window_title_wf)

lemma start_display_inv: "display_inv start_display"
  by (simp add: display_inv_def start_display_def reg_wf_def empty_registry_def titles_wf_def
      empty_titles_def zero_surface_def zero_title_def)

lemma display_step_inv: "display_inv s \<Longrightarrow> display_step s l t \<Longrightarrow> display_inv t"
  by (cases l)
     (auto simp: display_inv_def callback_def bump_def configure_def
       intro!: callback_surfaces_wf callback_titles_wf)

lemma surface_at_empty: "surface_at empty_registry = (\<lambda>_. None)"
  by (auto simp: fun_eq_iff surface_at_None_iff empty_registry_def)

interpretation display: simulation "\<lambda>s. s = start_display" display_step display_inv
  "\<lambda>s. surface_at (d_surfaces s)" "\<lambda>m. m = (\<lambda>_. None)" "\<lambda>m l m'. m' = spec_surfaces l m"
proof unfold_locales
  fix s t :: display and l :: display_act
  show "display_inv s" if "s = start_display" using that start_display_inv by simp
  show "display_inv t" if "display_inv s" "display_step s l t" using that by (rule display_step_inv)
  show "surface_at (d_surfaces s) = (\<lambda>_. None)" if "s = start_display"
    using that by (simp add: start_display_def surface_at_empty)
  show "surface_at (d_surfaces t) = spec_surfaces l (surface_at (d_surfaces s))"
    if "display_inv s" "display_step s l t"
  proof (cases l)
    case (Driver c)
    with that have "driver_ok c s" "t = callback c s" "reg_wf (d_surfaces s)"
      by (auto simp: display_inv_def)
    moreover have "surface_at (d_surfaces s) (si_id info) = None" if "c = Added info" for info
      using that \<open>driver_ok c s\<close> by simp
    ultimately show ?thesis
      using callback_surfaces_lookup [of "d_surfaces s" c] Driver by (simp add: callback_def)
  qed (use that in \<open>auto simp: bump_def configure_def\<close>)
qed

lemma list_loop_eq:
  "list_loop R n m = take (nat (m - n)) (map hs_pub (filter hs_used R))"
proof (induction R arbitrary: n)
  case (Cons s R)
  have "nat (m - n) = Suc (nat (m - (n + 1)))" if "n < m" using that by simp
  then show ?case using Cons.IH by (cases "n < m") auto
qed simp

end
