(* ===== verification/DisplayProps.thy ===== *)
theory DisplayProps
  imports Display
begin

text \<open>
  The properties of the display bridge: the registry is the map the driver's calls
  describe, pixels are not read after a removal, polling misses no change, titles come back
  as their characters, and input is delivered in order.
\<close>

section \<open>Surfaces\<close>

text \<open>C13: in any interleaving of callbacks and polls, the 32-slot registry is exactly the map
  the driver's calls describe: an add binds the id when there is room, placements and
  updates change that surface only, a removal unbinds.\<close>

theorem registry_tracks_driver:
  assumes "execution display_step start_display tr s"
  shows "execution (\<lambda>m l m'. m' = spec_surfaces l m) (\<lambda>_. None) tr (surface_at (d_surfaces s))
    \<and> card (dom (surface_at (d_surfaces s))) \<le> MAX_SURFACES"
proof -
  have inv: "reg_wf (d_surfaces s)"
    using display.reachable_inv [OF refl assms] by (simp add: display_inv_def)
  have "card (dom (surface_at (d_surfaces s))) \<le> card {..<MAX_SURFACES}"
    using inv by (intro surj_card_le [of _ _ "\<lambda>i. gs_id (hs_pub (d_surfaces s ! i))"])
      (auto simp: surface_at_Some_iff [OF inv] fits_id_def dom_def)
  with display.reachable_sim [OF refl assms] show ?thesis
    by (simp add: start_display_def surface_at_empty)
qed

definition demo_info :: "u64 \<Rightarrow> surface_info" where
  "demo_info k = \<lparr>si_id = k, si_hwnd = 100 + k, si_bits = 4096, si_width = 2, si_height = 1, si_stride = 8,
     si_lock = 50, si_unlock = 51, si_lock_ctx = 52\<rparr>"

text \<open>Two windows appear, the first is updated and goes, a third appears.\<close>

definition demo_calls :: "display_act list" where
  "demo_calls = [Driver (Added (demo_info 1)), Bump, Driver (Added (demo_info 2)), Driver (Updated 1), Bump, Bump,
     Driver (Removed 1), Bump, Driver (Added (demo_info 3)), Bump]"

fun display_next :: "display \<Rightarrow> display_act \<Rightarrow> display" where
  "display_next s (Driver c) = callback c s"
| "display_next s Bump = bump s"
| "display_next s (Configure w h) = configure w h s"

definition demo_display :: "nat \<Rightarrow> display" where
  "demo_display n = foldl display_next start_display (take n demo_calls)"

lemmas display_simps = demo_calls_def demo_display_def callback_def bump_def configure_def
  start_display_def surface_added_def surface_updated_def surface_removed_def surface_placed_def
  update_found_def find_surface_def surface_at_def new_surface_def demo_info_def empty_registry_def
  zero_surface_def zero_gui_surface_def touch_def place_def

lemma demo_display_run: "execution display_step start_display demo_calls (demo_display 10)"
  by (simp add: execution_Cons display_simps first_from_miss)

lemma registry_tracks_driver_witness:
  "\<exists>m. execution (\<lambda>m l m'. m' = spec_surfaces l m) (\<lambda>_. None) demo_calls m \<and> card (dom m) \<le> MAX_SURFACES"
  using registry_tracks_driver [OF demo_display_run] by blast

lemma surface_gone:
  assumes "surface_at R k = None"
  shows "copy_surface mem R k dst = (False, dst, [])"
    and "reg_wf R \<Longrightarrow> k \<notin> gs_id ` set (list_surfaces R m)"
proof -
  show "copy_surface mem R k dst = (False, dst, [])"
    using assms by (simp add: copy_surface_def surface_at_def)
  assume wf: "reg_wf R"
  then have "length R = MAX_SURFACES" by (simp add: reg_wf_def)
  with assms show "k \<notin> gs_id ` set (list_surfaces R m)"
    by (auto simp: list_surfaces_def list_loop_eq surface_at_None_iff fits_id_def in_set_conv_nth
        dest!: in_set_takeD)
qed

text \<open>A surface stays away until it is added again.\<close>

definition adds :: "u64 \<Rightarrow> display_act list \<Rightarrow> bool" where
  "adds k tr \<longleftrightarrow> (\<exists>info. Driver (Added info) \<in> set tr \<and> si_id info = k)"

lemma stays_gone:
  "execution display_step s tr t \<Longrightarrow> display_inv s \<Longrightarrow> surface_at (d_surfaces s) k = None \<Longrightarrow>
     \<not> adds k tr \<Longrightarrow> surface_at (d_surfaces t) k = None"
proof (induction rule: execution.induct)
  case (move s l u tr t)
  have "surface_at (d_surfaces u) = spec_surfaces l (surface_at (d_surfaces s))"
    using display.sim_step [OF move.prems(1) move.hyps(1)] .
  moreover have "spec_surfaces l (surface_at (d_surfaces s)) k = None"
  proof (cases l)
    case (Driver c)
    with move.prems show ?thesis by (cases c) (auto simp: adds_def)
  qed (use move.prems in simp_all)
  moreover have "\<not> adds k tr" using move.prems(3) by (auto simp: adds_def)
  ultimately show ?case
    using move.IH display.inv_step [OF move.prems(1) move.hyps(1)] by simp
qed

text \<open>the lifetime contract of a surface: from the return of \<^verbatim>\<open>surface_removed\<close>
  until its id is added again, no reader touches its pixels or its lock, whatever else
  happens: a copy fails without a call to the driver, and it is not listed.\<close>

theorem removed_surface_untouched:
  assumes "execution display_step start_display tr s"
    and "display_step s (Driver (Removed k)) u" and "execution display_step u tr' t"
    and "\<not> adds k tr'"
  shows "copy_surface mem (d_surfaces t) k dst = (False, dst, []) \<and>
    k \<notin> gs_id ` set (list_surfaces (d_surfaces t) m)"
proof -
  have inv: "display_inv s" using display.reachable_inv [OF refl assms(1)] .
  then have inv_u: "display_inv u" using display.inv_step assms(2) by blast
  have "surface_at (d_surfaces u) k = None"
    using display.sim_step [OF inv assms(2)] by simp
  from stays_gone [OF assms(3) inv_u this assms(4)]
  have "surface_at (d_surfaces t) k = None" .
  moreover have "reg_wf (d_surfaces t)"
    using display.execution_inv [OF assms(3) inv_u] by (simp add: display_inv_def)
  ultimately show ?thesis using surface_gone by simp
qed

lemma demo_split:
  "\<exists>s u t. execution display_step start_display (take 6 demo_calls) s \<and>
     display_step s (Driver (Removed 1)) u \<and> execution display_step u (drop 7 demo_calls) t"
proof -
  have e: "take 6 demo_calls @ Driver (Removed 1) # drop 7 demo_calls = demo_calls"
    by (simp add: demo_calls_def)
  have "execution display_step start_display (take 6 demo_calls @ Driver (Removed 1) # drop 7 demo_calls)
      (demo_display 10)"
    unfolding e by (rule demo_display_run)
  then show ?thesis unfolding execution_append execution_Cons by blast
qed

lemma removed_surface_untouched_witness:
  "\<exists>R. copy_surface (\<lambda>_. 0) R 1 [7] = (False, [7], [])"
proof -
  from demo_split obtain s u t where
    r: "execution display_step start_display (take 6 demo_calls) s" "display_step s (Driver (Removed 1)) u"
      "execution display_step u (drop 7 demo_calls) t" by blast
  have "\<not> adds 1 (drop 7 demo_calls)" by (auto simp: adds_def demo_calls_def demo_info_def)
  from removed_surface_untouched [OF r this] show ?thesis by blast
qed

text \<open>the pixel copy: it succeeds exactly for a registered surface whose
  stride times height bytes fit, then \<open>dst\<close> starts with exactly these bytes of the surface,
  read between one call to its lock and one to its unlock; otherwise \<open>dst\<close> is not written
  and no lock is taken.\<close>

theorem copy_surface_exact:
  assumes "copy_surface mem R k dst = (ok, out, calls)"
  shows "(ok \<longleftrightarrow> (\<exists>s. surface_at R k = Some s \<and> unat (hs_stride s) * unat (gs_height (hs_pub s)) \<le> length dst)) \<and>
    length out = length dst \<and> (\<not> ok \<longrightarrow> out = dst \<and> calls = []) \<and>
    (ok \<longrightarrow> (\<exists>s. surface_at R k = Some s \<and>
       calls = [(hs_lock s, hs_lock_ctx s), (hs_unlock s, hs_lock_ctx s)] \<and>
       (\<forall>i<length dst. out ! i = (if i < unat (hs_stride s) * unat (gs_height (hs_pub s))
          then mem (unat (hs_bits s) + i) else dst ! i))))"
proof (cases "surface_at R k")
  case None
  from assms have "(ok, out, calls) = (False, dst, [])"
    unfolding surface_gone(1) [OF None, of mem dst] by (rule sym)
  then have "\<not> ok" "out = dst" "calls = []" by simp_all
  with None show ?thesis by simp
next
  case (Some s)
  let ?n = "unat (hs_stride s) * unat (gs_height (hs_pub s))"
  from Some have c: "copy_surface mem R k dst =
      (if ?n \<le> length dst
       then (True, map (\<lambda>k. mem (unat (hs_bits s) + k)) [0..<?n] @ drop ?n dst,
             [(hs_lock s, hs_lock_ctx s), (hs_unlock s, hs_lock_ctx s)])
       else (False, dst, []))"
    by (auto simp: copy_surface_def surface_at_def Let_def)
  show ?thesis
  proof (cases "?n \<le> length dst")
    case True
    with c assms have r: "ok" "calls = [(hs_lock s, hs_lock_ctx s), (hs_unlock s, hs_lock_ctx s)]"
      "out = map (\<lambda>k. mem (unat (hs_bits s) + k)) [0..<?n] @ drop ?n dst" by simp_all
    have "out ! i = (if i < ?n then mem (unat (hs_bits s) + i) else dst ! i)" if "i < length dst" for i
      using that True by (simp add: r(3) nth_append)
    with r True Some show ?thesis by simp
  next
    case False
    with c assms Some show ?thesis by simp
  qed
qed

lemma copy_surface_exact_witness:
  "fst (copy_surface (\<lambda>a. of_nat a) (surface_added (demo_info 1) empty_registry) 1 (replicate 9 255)) = True"
proof -
  have "surface_at (surface_added (demo_info 1) empty_registry) 1 = Some (new_surface (demo_info 1))"
    by (simp add: display_simps)
  moreover obtain ok out calls where
    r: "copy_surface (\<lambda>a. of_nat a) (surface_added (demo_info 1) empty_registry) 1 (replicate 9 255) = (ok, out, calls)"
    by (metis prod_cases3)
  ultimately show ?thesis using copy_surface_exact [OF r] r
    by (simp add: new_surface_def demo_info_def)
qed

text \<open>a listing has at most \<open>max_count\<close> entries: the surfaces in use, in slot order.\<close>

theorem list_surfaces_exact:
  "list_surfaces R max_count = take (nat max_count) (map hs_pub (filter hs_used R)) \<and>
   int (length (list_surfaces R max_count)) \<le> max 0 max_count"
  by (auto simp: list_surfaces_def list_loop_eq)

text \<open>slot order is not creation order: a surface that takes the slot of a removed one is
  listed before surfaces that are older.\<close>

theorem list_order_not_creation:
  "\<exists>tr s. execution display_step start_display tr s \<and>
     tr = demo_calls \<and> map gs_id (list_surfaces (d_surfaces s) 32) = [3, 2]"
proof -
  have r: "replicate 32 x = [x, x] @ replicate 30 x" for x :: host_surface
    using replicate_add [of 2 30 x] by (simp add: numeral_2_eq_2)
  have "map gs_id (list_surfaces (d_surfaces (demo_display 10)) 32) = [3, 2]"
    by (simp add: display_simps list_surfaces_def list_loop_eq first_from_miss r)
  with demo_display_run show ?thesis by (intro exI conjI) (assumption, rule refl, assumption)
qed

section \<open>Polling\<close>

definition bumps :: "display_act list \<Rightarrow> nat" where
  "bumps tr = length (filter (\<lambda>l. l = Bump) tr)"

definition calls :: "display_act list \<Rightarrow> nat" where
  "calls tr = length (filter (\<lambda>l. case l of Driver _ \<Rightarrow> True | _ \<Rightarrow> False) tr)"

lemma bump_balance:
  "execution display_step s tr t \<Longrightarrow>
     d_bumps s + calls tr = d_bumps t + bumps tr \<and> d_change_seq t = d_change_seq s + of_nat (bumps tr)"
proof (induction rule: execution.induct)
  case (move s l u tr t)
  then show ?case
    by (cases l) (auto simp: bumps_def calls_def callback_def bump_def configure_def)
qed (simp add: bumps_def calls_def)

lemma no_calls_same:
  "execution display_step s tr t \<Longrightarrow> calls tr = 0 \<Longrightarrow>
     d_surfaces t = d_surfaces s \<and> d_titles t = d_titles s"
proof (induction rule: execution.induct)
  case (move s l u tr t)
  then show ?case
    by (cases l) (auto simp: calls_def bump_def configure_def)
qed simp

text \<open>C26: polling the change counter misses nothing: when a poll finds the value an earlier
  poll saw, and no callback is between its unlock and its bump, the surfaces and the titles
  are those of the earlier poll.\<close>

theorem poll_misses_nothing:
  assumes "execution display_step s tr t" and "d_change_seq t = d_change_seq s"
    and "d_bumps t = 0" and "length tr < 2 ^ 64"
  shows "d_surfaces t = d_surfaces s \<and> d_titles t = d_titles s"
proof -
  from bump_balance [OF assms(1)] assms(2) have "(of_nat (bumps tr) :: u64) = 0" by simp
  moreover have "bumps tr < 2 ^ 64"
    using assms(4) length_filter_le [of _ tr] unfolding bumps_def by (rule order_le_less_trans [rotated])
  ultimately have "bumps tr = 0"
    by (auto simp: word_of_nat_eq_0_iff dest: dvd_imp_le)
  with bump_balance [OF assms(1)] assms(3) have "calls tr = 0" by simp
  with no_calls_same [OF assms(1)] show ?thesis by simp
qed

lemma poll_misses_nothing_witness:
  "d_surfaces (configure 5 6 start_display) = d_surfaces start_display"
proof -
  have "execution display_step start_display [Configure 5 6] (configure 5 6 start_display)"
    by (rule execution_one) simp
  from poll_misses_nothing [OF this] show ?thesis
    by (simp add: configure_def start_display_def)
qed

section \<open>Titles\<close>

text \<open>C28: a title comes back: after \<^verbatim>\<open>window_title\<close>, if the window has a slot or one is
  free, the bytes \<^verbatim>\<open>wine_display_copy_title\<close> writes decode to the first of the
  title's first 256 characters, whole characters only and all of them when the buffer is
  large enough; every other window's title is unchanged.\<close>

theorem title_roundtrip:
  assumes "titles_wf T" "unat n \<le> length us" "title_room T h"
  defines "shown_title \<equiv> map shown (take (min (unat n) TITLE_CHARS) us)"
  shows "\<exists>k\<le>length shown_title.
      utf8_decode (map unat (copy_title (window_title h us n T) h max_bytes)) = Some (take k shown_title) \<and>
      (3 * int (length shown_title) \<le> max_bytes - 4 \<longrightarrow> k = length shown_title) \<and>
      (\<forall>j. j \<noteq> h \<longrightarrow> copy_title (window_title h us n T) j m = copy_title T j m)"
proof -
  let ?us = "take (min (unat n) TITLE_CHARS) us"
  note lk = window_title_lookup [OF assms(1,2), of h]
  have c: "copy_title (window_title h us n T) h max_bytes = utf8_loop ?us 0 max_bytes"
    using assms(3) by (simp add: copy_title_eq lk)
  have others: "copy_title (window_title h us n T) j m = copy_title T j m" if "j \<noteq> h" for j
    using that assms(3) by (simp add: copy_title_eq lk)
  from utf8_loop_prefix [of ?us 0 max_bytes] obtain k where
    k: "k \<le> length ?us" "utf8_loop ?us 0 max_bytes = concat (map utf8_unit (take k ?us))"
      "k < length ?us \<longrightarrow> max_bytes - 4 \<le> 0 + int (length (utf8_loop ?us 0 max_bytes))" by blast
  have dec: "utf8_decode (map unat (utf8_loop ?us 0 max_bytes)) = Some (take k shown_title)"
    unfolding k(2) utf8_roundtrip shown_title_def by (simp only: take_map)
  have "length (concat (map utf8_unit vs)) \<le> 3 * length vs" for vs
  proof (induction vs)
    case (Cons v vs)
    with utf8_unit_length(2) [of v] show ?case by simp
  qed simp
  from this [of "take k ?us"] have len: "int (length (utf8_loop ?us 0 max_bytes)) \<le> 3 * int k"
    unfolding k(2) using k(1) by simp
  have "k = length shown_title" if "3 * int (length shown_title) \<le> max_bytes - 4"
  proof (rule ccontr)
    assume "k \<noteq> length shown_title"
    then have "k < length ?us" using k(1) unfolding shown_title_def length_map by linarith
    from mp [OF k(3) this] this len that show False unfolding shown_title_def length_map by linarith
  qed
  with dec c others k(1) show ?thesis
    by (intro exI [of _ k]) (simp add: shown_title_def)
qed

lemma titles_wf_empty: "titles_wf empty_titles"
  using start_display_inv by (simp add: display_inv_def start_display_def)

lemma title_roundtrip_witness:
  "utf8_decode (map unat (copy_title (window_title 9 [0x41, 0x20ac] 2 empty_titles) 9 100)) = Some [0x41, 0x20ac]"
proof -
  have room: "title_room empty_titles 9"
    unfolding title_room_def by (rule disjI2, rule exI [of _ 0]) (simp add: empty_titles_def zero_title_def)
  have "unat (2 :: u32) \<le> length [0x41, 0x20ac :: u16]" by simp
  from title_roundtrip [OF titles_wf_empty this room, of 100] show ?thesis
    by (auto simp: shown_def)
qed

text \<open>the title buffer is never overrun: at most \<open>max_bytes - 2\<close> bytes are written, none
  when \<open>max_bytes\<close> is 4 or less, a negative one included.\<close>

theorem copy_title_bounded:
  "int (length (copy_title T h max_bytes)) \<le> max 0 (max_bytes - 2)"
proof (cases "title_at T h")
  case (Some us)
  then have c: "copy_title T h max_bytes = utf8_loop us 0 max_bytes" by (simp add: copy_title_eq)
  show ?thesis
  proof (cases "0 \<le> max_bytes - 2")
    case True
    from utf8_loop_bound [OF True, of us] c show ?thesis by simp
  next
    case False
    then have "utf8_loop us 0 max_bytes = []" by (cases us) simp_all
    with c show ?thesis by simp
  qed
qed (simp add: copy_title_eq)

text \<open>Nothing clears a title slot.\<close>

definition titles_full :: "u64 \<Rightarrow> display \<Rightarrow> bool" where
  "titles_full h s \<longleftrightarrow> (\<forall>i<MAX_TITLES. ht_used (d_titles s ! i)) \<and> title_at (d_titles s) h = None"

lemma titles_full_step:
  assumes inv: "display_inv s" and full: "titles_full h s" and st: "display_step s l t"
  shows "titles_full h t"
proof (cases "\<exists>g us n. l = Driver (Titled g us n)")
  case True
  then obtain g us n where l: "l = Driver (Titled g us n)" by blast
  have wf: "titles_wf (d_titles s)" using inv by (simp add: display_inv_def)
  have n: "unat n \<le> length us" and t: "d_titles t = window_title g us n (d_titles s)"
    using st l by (simp_all add: callback_def)
  show ?thesis
  proof (cases "title_room (d_titles s) g")
    case True
    then have "g \<noteq> h" using full by (auto simp: titles_full_def title_room_def)
    then have "title_at (d_titles t) h = None"
      using full window_title_lookup [OF wf n, of g] by (simp add: t titles_full_def)
    moreover have "ht_used (d_titles t ! i)" if "i < MAX_TITLES" for i
    proof (rule window_title_cases [OF wf, of g us n])
      fix j
      assume "window_title g us n (d_titles s) = (d_titles s)[j := new_title g us n (d_titles s ! j)]"
      with that full wf show ?thesis
        by (cases "i = j") (auto simp: t titles_full_def titles_wf_def)
    qed (use full that t in \<open>simp add: titles_full_def\<close>)
    ultimately show ?thesis by (simp add: titles_full_def)
  next
    case False
    have "window_title g us n (d_titles s) = d_titles s"
    proof (rule window_title_cases [OF wf, of g us n])
      show "window_title g us n (d_titles s) = d_titles s" if "title_room (d_titles s) g"
        using that False by contradiction
    qed
    with t full show ?thesis by (simp add: titles_full_def)
  qed
next
  case False
  have "d_titles t = d_titles s"
  proof (cases l)
    case (Driver c)
    with False st show ?thesis by (cases c) (auto simp: callback_def)
  qed (use st in \<open>auto simp: bump_def configure_def\<close>)
  with full show ?thesis by (simp add: titles_full_def)
qed

text \<open>title slots are never given back: once 32 windows have had a title, another window
  gets none for the rest of the process, even when all the others are gone.\<close>

theorem titles_never_reclaimed:
  assumes "display_inv s" and "titles_full h s" and "execution display_step s tr t"
  shows "copy_title (d_titles t) h max_bytes = []"
proof -
  have "titles_full h t"
    using display.execution_stable [where P = "titles_full h", OF titles_full_step assms(3,1,2)] .
  then show ?thesis by (simp add: titles_full_def copy_title_eq)
qed

definition thirty_two_titles :: titles where
  "thirty_two_titles = map (\<lambda>i. zero_title\<lparr>ht_used := True, ht_hwnd := of_nat i\<rparr>) [0..<MAX_TITLES]"

lemma titles_never_reclaimed_witness:
  "\<exists>t. execution display_step (start_display\<lparr>d_titles := thirty_two_titles\<rparr>)
       [Driver (Titled 99 [0x41] 1), Bump] t \<and> copy_title (d_titles t) 99 100 = []"
proof -
  let ?s = "start_display\<lparr>d_titles := thirty_two_titles\<rparr>"
  have nth: "thirty_two_titles ! i = zero_title\<lparr>ht_used := True, ht_hwnd := of_nat i\<rparr>" if "i < MAX_TITLES" for i
    using that by (simp add: thirty_two_titles_def)
  have of_nat: "(of_nat i :: u64) = of_nat j \<longleftrightarrow> i = j" if "i < 100" "j < 100" for i j
    using that by (simp add: word_of_nat_eq_iff take_bit_nat_eq_self)
  have "titles_wf thirty_two_titles"
    unfolding titles_wf_def
  proof (intro conjI allI impI)
    show "length thirty_two_titles = MAX_TITLES" by (simp add: thirty_two_titles_def)
    fix i assume i: "i < MAX_TITLES"
    show "length (ht_text (thirty_two_titles ! i)) = TITLE_CHARS" "unat (ht_len (thirty_two_titles ! i)) \<le> TITLE_CHARS"
      by (simp_all add: nth [OF i] zero_title_def)
    fix j assume j: "j < MAX_TITLES"
    assume "ht_hwnd (thirty_two_titles ! i) = ht_hwnd (thirty_two_titles ! j)"
    with i j of_nat show "i = j" by (simp add: nth)
  qed
  then have inv: "display_inv ?s" using start_display_inv by (simp add: display_inv_def)
  have no: "title_slot thirty_two_titles 99 = None"
    unfolding title_slot_def
  proof (rule first_in_NoneI)
    fix i assume "i < MAX_TITLES"
    with of_nat [of i 99] show "\<not> (ht_used (thirty_two_titles ! i) \<and> ht_hwnd (thirty_two_titles ! i) = 99)"
      by (simp add: nth)
  qed
  have full: "titles_full 99 ?s"
    using nth no by (simp add: titles_full_def title_at_def)
  let ?u = "callback (Titled 99 [0x41] 1) ?s"
  have ex: "execution display_step ?s [Driver (Titled 99 [0x41] 1), Bump] (bump ?u)"
    by (simp add: execution_Cons callback_def)
  from titles_never_reclaimed [OF inv full ex, of 100] ex show ?thesis by blast
qed

section \<open>Input\<close>

text \<open>input is delivered in order: what the driver got so far followed by what is queued
  is a subsequence of what the app sent, and all of it as long as no more than 512 events
  were sent; a full queue drops the newest event only.\<close>

theorem input_delivered_in_order:
  assumes "execution input_step start_input tr s"
  shows "subseq (delivered s @ q_items (i_queue s)) (sends tr) \<and>
    (length (sends tr) \<le> QUEUE_LEN \<longrightarrow> delivered s @ q_items (i_queue s) = sends tr)"
proof -
  from input_accepted [OF assms] obtain ls where
    "puts ls = sends tr" "delivered s @ q_items (i_queue s) = accepted QUEUE_LEN 0 ls" by blast
  with accepted_subseq [of QUEUE_LEN 0 ls] accepted_all [of 0 ls QUEUE_LEN] show ?thesis by simp
qed

lemma input_delivered_in_order_witness:
  "delivered (next_event_test (send (send_char 0x41) start_input)) = [send_char 0x41]"
proof -
  let ?s = "next_event_test (send (send_char 0x41) start_input)"
  have "execution input_step start_input [Send (send_char 0x41), Next] ?s"
    by (simp add: execution_Cons start_input_def send_def)
  from input_delivered_in_order [OF this]
  have "delivered ?s @ q_items (i_queue ?s) = [send_char 0x41]" by simp
  moreover have "q_items (i_queue ?s) = []"
    by (simp add: next_event_test_def dequeue_def send_def start_input_def enqueue_def empty_queue_def q_items_def)
  ultimately show ?thesis by simp
qed

text \<open>C27: the input thread does not sleep on a queue with events: when it is blocked without
  a pending signal the queue is empty. While it waits with an event queued, the step in which
  it wakes up is possible and returns 1 with the oldest event; the time-out is possible as
  well, and returns 0 and leaves every event in the queue.\<close>

theorem input_no_lost_wakeup:
  assumes "execution input_step start_input tr s" and "i_wait s = Waiting b"
  shows "(\<not> b \<longrightarrow> q_items (i_queue s) = []) \<and>
    (\<forall>ev evs. q_items (i_queue s) = ev # evs \<longrightarrow>
       (\<exists>t. input_step s Wake_up t \<and> i_wait t = Idle 1 \<and> delivered t = delivered s @ [ev] \<and>
          q_items (i_queue t) = evs)) \<and>
    (\<exists>t. input_step s Timed_out t \<and> i_wait t = Idle 0 \<and> i_queue t = i_queue s)"
proof (intro conjI allI impI)
  have inv: "input_inv s" using input.reachable_inv [OF refl assms(1)] .
  then have wf: "q_wf (i_queue s)" by (simp add: input_inv_def)
  show "q_items (i_queue s) = []" if "\<not> b"
    using that assms(2) inv by (simp add: input_inv_def q_items_def)
  show "\<exists>t. input_step s Timed_out t \<and> i_wait t = Idle 0 \<and> i_queue t = i_queue s"
    using assms(2) by (simp add: next_event_timeout_def)
  fix ev evs assume q: "q_items (i_queue s) = ev # evs"
  then obtain e q' where d: "dequeue (i_queue s) = Some (e, q')"
    using ring.deq_None [OF wf] by (cases "dequeue (i_queue s)") auto
  with ring.deq_Some [OF wf d] q have "e = ev" "q_items q' = evs" by simp_all
  with d assms(2) show "\<exists>t. input_step s Wake_up t \<and> i_wait t = Idle 1 \<and>
      delivered t = delivered s @ [ev] \<and> q_items (i_queue t) = evs"
    by (simp add: next_event_test_def)
qed

lemma input_no_lost_wakeup_witness:
  "\<exists>s t. i_wait s = Waiting True \<and> input_step s Wake_up t \<and> delivered t = [send_key 65 1]"
proof -
  let ?s = "send (send_key 65 1) (next_event_test start_input)"
  have ex: "execution input_step start_input [Next, Send (send_key 65 1)] ?s"
    by (simp add: execution_Cons start_input_def)
  have w: "i_wait ?s = Waiting True" and d: "delivered ?s = []"
    and q: "q_items (i_queue ?s) = [send_key 65 1]"
    by (simp_all add: next_event_test_def dequeue_def send_def start_input_def enqueue_def empty_queue_def q_items_def)
  from input_no_lost_wakeup [OF ex w] q obtain t where
    "input_step ?s Wake_up t" "delivered t = delivered ?s @ [send_key 65 1]" by blast
  with w d show ?thesis by auto
qed

text \<open>the deadline of the wait is \<open>timeout_ms\<close> milliseconds after now, and it is a
  normalised time, which \<^verbatim>\<open>pthread_cond_timedwait\<close> requires.\<close>

theorem deadline_exact:
  assumes "0 \<le> timeout_ms" "0 \<le> nsec" "nsec < 1000000000" "deadline (sec, nsec) timeout_ms = (s', n')"
  shows "0 \<le> n' \<and> n' < 1000000000 \<and>
    s' * 1000000000 + n' = sec * 1000000000 + nsec + timeout_ms * 1000000"
proof -
  have dm: "timeout_ms sdiv 1000 = timeout_ms div 1000" "timeout_ms smod 1000 = timeout_ms mod 1000"
    using assms(1)
    by (cases "timeout_ms = 0"; simp add: signed_divide_int_def signed_modulo_int_def)+
  define q m where "q = timeout_ms div 1000" and "m = timeout_ms mod 1000"
  have r: "timeout_ms = q * 1000 + m" "0 \<le> m" "m < 1000" by (simp_all add: q_def m_def)
  have d: "deadline (sec, nsec) timeout_ms = (if nsec + m * 1000000 \<ge> 1000000000
      then (sec + q + 1, nsec + m * 1000000 - 1000000000) else (sec + q, nsec + m * 1000000))"
    unfolding deadline_def dm q_def m_def by (simp add: Let_def)
  show ?thesis
    using assms(2-4) [unfolded d] r by (auto split: if_splits)
qed

lemma deadline_exact_witness: "deadline (10, 999000000) 1500 = (12, 499000000)"
  using deadline_exact [of 1500 999000000 10] by (cases "deadline (10, 999000000) 1500") (simp add: deadline_def)

end
