(* ===== verification/Memory.thy ===== *)
theory Memory
  imports Bytes
begin

text \<open>
  Byte-addressed memory for the images of \<^verbatim>\<open>mkexe\<close> and the pixels of the display
  driver: reading and writing runs of bytes, little-endian words in memory, and what a packed
  structure stored at an address says about its fields.
\<close>

section \<open>Memory\<close>

type_synonym mem = "nat \<Rightarrow> byte"

definition poke :: "nat \<Rightarrow> byte list \<Rightarrow> mem \<Rightarrow> mem" where
  "poke a bs m = (\<lambda>i. if a \<le> i \<and> i < a + length bs then bs ! (i - a) else m i)"

definition peek :: "mem \<Rightarrow> nat \<Rightarrow> nat \<Rightarrow> byte list" where
  "peek m a n = map m [a..<a + n]"

definition word_at :: "mem \<Rightarrow> nat \<Rightarrow> nat \<Rightarrow> 'a::len word" where
  "word_at m a n = le_word (peek m a n)"

lemma length_peek [simp]: "length (peek m a n) = n"
  by (simp add: peek_def)

lemma peek_nth [simp]: "i < n \<Longrightarrow> peek m a n ! i = m (a + i)"
  by (simp add: peek_def)

lemma poke_outside: "i < a \<or> a + length bs \<le> i \<Longrightarrow> poke a bs m i = m i"
  by (auto simp: poke_def)

lemma peek_poke_other: "b + n \<le> a \<or> a + length bs \<le> b \<Longrightarrow> peek (poke a bs m) b n = peek m b n"
  by (rule nth_equalityI) (auto simp: poke_def)

lemma peek_poke_part:
  "a \<le> b \<Longrightarrow> b + n \<le> a + length bs \<Longrightarrow> peek (poke a bs m) b n = take n (drop (b - a) bs)"
  by (rule nth_equalityI) (auto simp: poke_def)

lemma peek_poke_same: "peek (poke a bs m) a (length bs) = bs"
  by (simp add: peek_poke_part)

lemma peek_add: "peek m a (k + n) = peek m a k @ peek m (a + k) n"
  by (rule nth_equalityI) (auto simp: nth_append)

lemma peek_take: "k \<le> n \<Longrightarrow> take k (peek m a n) = peek m a k"
  by (rule nth_equalityI) auto

lemma peek_drop: "drop k (peek m a n) = peek m (a + k) (n - k)"
  by (rule nth_equalityI) (auto simp: add.assoc)

section \<open>Words in memory\<close>

lemma bit_le_word:
  "bit (le_word bs :: 'a::len word) k \<longleftrightarrow>
     k < LENGTH('a) \<and> k < 8 * length bs \<and> bit (bs ! (k div 8)) (k mod 8)"
proof (induction bs arbitrary: k)
  case (Cons b bs)
  show ?case
  proof (cases "k < 8")
    case True
    then show ?thesis using Cons by (auto simp: bit_simps)
  next
    case False
    then obtain j where j: "k = j + 8" by (metis add.commute le_Suc_ex not_less)
    have "(j + 8) div 8 = Suc (j div 8)" "(j + 8) mod 8 = j mod 8" "\<not> bit b (j + 8)"
      by (auto dest: bit_imp_le_length)
    with j show ?thesis using Cons [of j] by (auto simp: bit_simps)
  qed
qed simp

lemma le_bytes_nth: "i < n \<Longrightarrow> le_bytes n w ! i = ucast (drop_bit (8 * i) w)"
proof (induction n arbitrary: w i)
  case (Suc n)
  then show ?case by (cases i) (simp_all add: add.commute)
qed simp

lemma le_bytes_le_word:
  assumes "8 * length bs = LENGTH('a)"
  shows "le_bytes (length bs) (le_word bs :: 'a::len word) = bs"
proof (rule nth_equalityI)
  fix i
  assume "i < length (le_bytes (length bs) (le_word bs :: 'a word))"
  then have i: "i < length bs" by simp
  show "le_bytes (length bs) (le_word bs :: 'a word) ! i = bs ! i"
    using i assms by (intro bit_word_eqI) (auto simp: le_bytes_nth bit_simps bit_le_word)
qed simp

definition stored :: "mem \<Rightarrow> nat \<Rightarrow> byte list \<Rightarrow> bool" where
  "stored m a bs \<longleftrightarrow> peek m a (length bs) = bs"

named_theorems layout \<open>the fields of the packed structures\<close>

lemma stored_append [layout]:
  "stored m a (xs @ ys) \<longleftrightarrow> stored m a xs \<and> stored m (a + length xs) ys"
  by (simp add: stored_def peek_add)

lemma stored_word [layout]:
  "8 * n = LENGTH('a) \<Longrightarrow> stored m a (le_bytes n (w :: 'a::len word)) \<longleftrightarrow> word_at m a n = w"
  using le_bytes_le_word [of "peek m a n", where 'a = 'a] le_word_le_bytes [of n w]
  by (auto simp: stored_def word_at_def)

lemma stored_poke: "stored (poke a bs m) a bs"
  by (simp add: stored_def peek_poke_same)

lemma stored_poke_other:
  "b + length xs \<le> a \<or> a + length bs \<le> b \<Longrightarrow> stored (poke a bs m) b xs \<longleftrightarrow> stored m b xs"
  by (simp add: stored_def peek_poke_other)

end
