(* ===== verification/DriverPixels.thy ===== *)
theory DriverPixels
  imports Memory DisplayQueue
begin

text \<open>
  The pixels of the display driver, \<^verbatim>\<open>dlls/wineios.drv/window.c\<close> in
  \<^verbatim>\<open>native/patches/0007-ios-display-driver.patch\<close>: how \<^verbatim>\<open>flush\<close> copies the
  damaged rectangle of the guest's bitmap into the copy the app reads.
\<close>

section \<open>Rectangles\<close>

record rect =
  r_left :: int
  r_top :: int
  r_right :: int
  r_bottom :: int

text \<open>\<^verbatim>\<open>intersect_rect\<close> of \<^verbatim>\<open>iosdrv.h\<close>; \<open>None\<close> for its result FALSE.\<close>

definition intersect_rect :: "rect \<Rightarrow> rect \<Rightarrow> rect option" where
  "intersect_rect a b =
     (let d = \<lparr>r_left = max (r_left a) (r_left b), r_top = max (r_top a) (r_top b),
               r_right = min (r_right a) (r_right b), r_bottom = min (r_bottom a) (r_bottom b)\<rparr>
      in if r_left d \<ge> r_right d \<or> r_top d \<ge> r_bottom d then None else Some d)"

definition in_rect :: "int \<Rightarrow> int \<Rightarrow> rect \<Rightarrow> bool" where
  "in_rect x y r \<longleftrightarrow> r_left r \<le> x \<and> x < r_right r \<and> r_top r \<le> y \<and> y < r_bottom r"

lemma intersect_rect_Some:
  "intersect_rect a b = Some d \<Longrightarrow> in_rect x y d \<longleftrightarrow> in_rect x y a \<and> in_rect x y b"
  by (auto simp: intersect_rect_def in_rect_def Let_def split: if_splits)

lemma intersect_rect_None: "intersect_rect a b = None \<Longrightarrow> \<not> (in_rect x y a \<and> in_rect x y b)"
  by (auto simp: intersect_rect_def in_rect_def Let_def split: if_splits)

section \<open>The copy\<close>

text \<open>\<^verbatim>\<open>dst[x] = src[x] | 0xff000000u\<close>; \<open>color\<close> is the guest's bitmap.\<close>

definition paint_pixel :: "mem \<Rightarrow> nat \<Rightarrow> nat \<Rightarrow> mem \<Rightarrow> mem" where
  "paint_pixel color src dst m = poke dst (le_bytes 4 (word_at color src 4 OR 0xff000000 :: u32)) m"

fun paint_row :: "mem \<Rightarrow> nat \<Rightarrow> nat \<Rightarrow> nat \<Rightarrow> mem \<Rightarrow> mem" where
  "paint_row color src dst 0 m = m"
| "paint_row color src dst (Suc n) m =
     paint_row color (src + 4) (dst + 4) n (paint_pixel color src dst m)"

text \<open>
  Rows \<open>y\<close> to \<open>y + n - 1\<close>. The product of the row number and a stride is 32 bits wide, the
  pointer arithmetic is not.
\<close>

fun paint_rows :: "mem \<Rightarrow> u32 \<Rightarrow> u32 \<Rightarrow> nat \<Rightarrow> nat \<Rightarrow> nat \<Rightarrow> nat \<Rightarrow> nat \<Rightarrow> mem \<Rightarrow> mem" where
  "paint_rows color src_stride stride bits left width y 0 m = m"
| "paint_rows color src_stride stride bits left width y (Suc n) m =
     paint_rows color src_stride stride bits left width (y + 1) n
       (paint_row color (unat (of_nat y * src_stride) + 4 * left)
          (bits + unat (of_nat y * stride) + 4 * left) width m)"

text \<open>
  The copying part of \<^verbatim>\<open>ios_window_surface_flush\<close> for a surface of the given geometry;
  the result is the damage reported to the host, \<open>None\<close> for an early return.
\<close>

definition flush_pixels ::
  "mem \<Rightarrow> u32 \<Rightarrow> nat \<Rightarrow> u32 \<Rightarrow> u32 \<Rightarrow> u32 \<Rightarrow> rect \<Rightarrow> mem \<Rightarrow> rect option \<times> mem" where
  "flush_pixels color bi_width bits width height stride dirty m =
     (let bounds = \<lparr>r_left = 0, r_top = 0, r_right = sint width, r_bottom = sint height\<rparr>
      in case intersect_rect dirty bounds of
           None \<Rightarrow> (None, m)
         | Some d \<Rightarrow>
             (Some d, paint_rows color (bi_width * 4) stride bits (nat (r_left d))
                (nat (r_right d - r_left d)) (nat (r_top d)) (nat (r_bottom d - r_top d)) m))"

section \<open>What a row and what the rows change\<close>

lemma paint_pixel_at:
  "word_at (paint_pixel color src dst m) dst 4 = (word_at color src 4 OR 0xff000000 :: u32)"
  using stored_poke [of dst "le_bytes 4 (word_at color src 4 OR 0xff000000 :: u32)" m]
  by (simp add: paint_pixel_def layout)

lemma paint_pixel_other: "b < dst \<or> dst + 4 \<le> b \<Longrightarrow> paint_pixel color src dst m b = m b"
  by (simp add: paint_pixel_def poke_outside)

lemma paint_row_other: "b < dst \<or> dst + 4 * n \<le> b \<Longrightarrow> paint_row color src dst n m b = m b"
proof (induction n arbitrary: src dst m)
  case (Suc n)
  then show ?case by (auto simp: paint_pixel_other)
qed simp

lemma word_at_cong: "(\<And>i. a \<le> i \<Longrightarrow> i < a + n \<Longrightarrow> m i = m' i) \<Longrightarrow> word_at m a n = word_at m' a n"
  unfolding word_at_def peek_def by (rule arg_cong [where f = le_word]) simp

lemma paint_row_at:
  "x < n \<Longrightarrow> word_at (paint_row color src dst n m) (dst + 4 * x) 4 =
     (word_at color (src + 4 * x) 4 OR 0xff000000 :: u32)"
proof (induction n arbitrary: src dst m x)
  case (Suc n)
  show ?case
  proof (cases x)
    case 0
    have "word_at (paint_row color (src + 4) (dst + 4) n (paint_pixel color src dst m)) dst 4 =
        (word_at (paint_pixel color src dst m) dst 4 :: u32)"
      by (rule word_at_cong) (simp add: paint_row_other)
    with 0 show ?thesis by (simp add: paint_pixel_at)
  next
    case (Suc z)
    with Suc.IH [of z "src + 4" "dst + 4"] Suc.prems show ?thesis by (simp add: add.assoc)
  qed
qed simp

lemma row_offset:
  "y * unat stride < 2 ^ 32 \<Longrightarrow> unat (of_nat y * (stride :: u32)) = y * unat stride"
proof -
  assume a: "y * unat stride < 2 ^ 32"
  have "unat (of_nat y * stride) = unat (of_nat (y * unat stride) :: u32)" by simp
  also have "\<dots> = y * unat stride" using a by (simp only: unat_of_nat) (simp add: take_bit_nat_eq_self)
  finally show ?thesis .
qed

lemma rows_apart:
  assumes "(y :: nat) \<noteq> j" "4 * left + 4 * width \<le> k" "b < 4 * width"
  shows "y * k + 4 * left + b < j * k + 4 * left \<or> j * k + 4 * left + 4 * width \<le> y * k + 4 * left + b"
proof (cases "y < j")
  case True
  then have "(y + 1) * k \<le> j * k" by (intro mult_le_mono1) simp
  then show ?thesis using assms(2,3) by (simp add: algebra_simps)
next
  case False
  then have "(j + 1) * k \<le> y * k" using assms(1) by (intro mult_le_mono1) simp
  then show ?thesis using assms(2,3) by (simp add: algebra_simps)
qed

lemma paint_rows_other:
  assumes "(y + n) * unat stride < 2 ^ 32"
    and "\<And>j. y \<le> j \<Longrightarrow> j < y + n \<Longrightarrow>
      a < bits + j * unat stride + 4 * left \<or> bits + j * unat stride + 4 * left + 4 * width \<le> a"
  shows "paint_rows color src_stride stride bits left width y n m a = m a"
  using assms
proof (induction n arbitrary: y m)
  case (Suc n)
  have "y * unat stride \<le> (y + Suc n) * unat stride" by (intro mult_le_mono1) simp
  with Suc.prems(1) have "unat (of_nat y * stride) = y * unat stride" by (intro row_offset) simp
  moreover have "a < bits + y * unat stride + 4 * left \<or> bits + y * unat stride + 4 * left + 4 * width \<le> a"
    using Suc.prems(2) [of y] by simp
  moreover have "paint_rows color src_stride stride bits left width (y + 1) n m' a = m' a" for m'
    using Suc.prems by (intro Suc.IH) auto
  ultimately show ?case by (simp add: paint_row_other)
qed simp

lemma paint_rows_at:
  assumes "(y + n) * unat stride < 2 ^ 32" "4 * left + 4 * width \<le> unat stride"
    and "y \<le> j" "j < y + n" "x < width"
  shows "word_at (paint_rows color src_stride stride bits left width y n m)
      (bits + j * unat stride + 4 * left + 4 * x) 4 =
    (word_at color (unat (of_nat j * src_stride) + 4 * left + 4 * x) 4 OR 0xff000000 :: u32)"
  using assms
proof (induction n arbitrary: y m)
  case (Suc n)
  have "y * unat stride \<le> (y + Suc n) * unat stride" by (intro mult_le_mono1) simp
  with Suc.prems(1) have off: "unat (of_nat y * stride) = y * unat stride" by (intro row_offset) simp
  let ?m = "paint_row color (unat (of_nat y * src_stride) + 4 * left) (bits + y * unat stride + 4 * left) width m"
  show ?case
  proof (cases "j = y")
    case True
    have "word_at (paint_rows color src_stride stride bits left width (y + 1) n ?m)
        (bits + y * unat stride + 4 * left + 4 * x) 4 =
        (word_at ?m (bits + y * unat stride + 4 * left + 4 * x) 4 :: u32)"
    proof (rule word_at_cong)
      fix i
      assume i: "bits + y * unat stride + 4 * left + 4 * x \<le> i" "i < bits + y * unat stride + 4 * left + 4 * x + 4"
      define b where "b = i - (bits + y * unat stride + 4 * left)"
      with i Suc.prems(5) have b: "i = bits + y * unat stride + 4 * left + b" "b < 4 * width"
        by linarith+
      show "paint_rows color src_stride stride bits left width (y + 1) n ?m i = ?m i"
      proof (rule paint_rows_other)
        fix k
        assume "y + 1 \<le> k" "k < y + 1 + n"
        with rows_apart [of y k left width "unat stride" b] Suc.prems(2) b
        show "i < bits + k * unat stride + 4 * left \<or> bits + k * unat stride + 4 * left + 4 * width \<le> i"
          by auto
      qed (use Suc.prems(1) in auto)
    qed
    with True off paint_row_at [OF Suc.prems(5)] show ?thesis by simp
  next
    case False
    with Suc.prems off Suc.IH [of "y + 1"] show ?thesis by simp
  qed
qed simp

section \<open>A flush\<close>

lemma sint_nonneg:
  assumes "0 \<le> sint (w :: u32)"
  shows "sint w = int (unat w)"
proof -
  have "\<not> bit w 31" using assms bit_last_iff [of w] by simp
  then have b: "\<not> bit (uint w) 31" by (simp add: bit_uint_iff)
  then have "take_bit (Suc 31) (uint w) = take_bit 31 (uint w)" by (simp only: take_bit_Suc_from_most) simp
  moreover have "take_bit (Suc 31) (uint w) = uint w" by (rule take_bit_int_eq_self) (use uint_lt2p [of w] in simp_all)
  ultimately have "sint w = uint w" using b by (simp add: sint_uint signed_take_bit_eq_if_positive)
  then show ?thesis by simp
qed

lemma in_bounds:
  "in_rect (int x) (int y) r \<and> in_rect (int x) (int y) \<lparr>r_left = 0, r_top = 0, r_right = int w, r_bottom = int h\<rparr> \<longleftrightarrow>
     in_rect (int x) (int y) r \<and> x < w \<and> y < h"
  by (auto simp: in_rect_def)

lemma flush_damage:
  assumes fl: "flush_pixels color bi_width bits width height stride dirty m = (Some d, m')"
    and pos: "0 \<le> sint width" "0 \<le> sint height"
  obtains l k t n where
    "m' = paint_rows color (bi_width * 4) stride bits l k t n m"
    "t + n \<le> unat height" "l + k \<le> unat width"
    "\<And>x y. in_rect (int x) (int y) dirty \<and> x < unat width \<and> y < unat height \<longleftrightarrow>
       l \<le> x \<and> x < l + k \<and> t \<le> y \<and> y < t + n"
proof -
  from fl have i: "intersect_rect dirty
      \<lparr>r_left = 0, r_top = 0, r_right = int (unat width), r_bottom = int (unat height)\<rparr> = Some d"
    by (simp only: flush_pixels_def Let_def sint_nonneg [OF pos(1)] sint_nonneg [OF pos(2)] split: option.splits)
       simp_all
  then have D: "0 \<le> r_left d" "r_left d < r_right d" "r_right d \<le> int (unat width)"
    "0 \<le> r_top d" "r_top d < r_bottom d" "r_bottom d \<le> int (unat height)"
    by (auto simp: intersect_rect_def Let_def simp del: int_nat_eq split: if_splits)
  have m': "m' = paint_rows color (bi_width * 4) stride bits (nat (r_left d))
      (nat (r_right d - r_left d)) (nat (r_top d)) (nat (r_bottom d - r_top d)) m"
    using fl i sint_nonneg [OF pos(1)] sint_nonneg [OF pos(2)] by (simp add: flush_pixels_def)
  have sum: "nat (r_top d) + nat (r_bottom d - r_top d) = nat (r_bottom d)"
    "nat (r_left d) + nat (r_right d - r_left d) = nat (r_right d)"
    using D by linarith+
  show ?thesis
  proof (rule that [OF m'])
    show "nat (r_top d) + nat (r_bottom d - r_top d) \<le> unat height"
      "nat (r_left d) + nat (r_right d - r_left d) \<le> unat width"
      using D(3,6) unfolding sum by (simp_all only: nat_le_iff)
    show "in_rect (int x) (int y) dirty \<and> x < unat width \<and> y < unat height \<longleftrightarrow>
       nat (r_left d) \<le> x \<and> x < nat (r_left d) + nat (r_right d - r_left d) \<and>
       nat (r_top d) \<le> y \<and> y < nat (r_top d) + nat (r_bottom d - r_top d)" for x y
    proof -
      have "in_rect (int x) (int y) d \<longleftrightarrow> in_rect (int x) (int y) dirty \<and> x < unat width \<and> y < unat height"
        unfolding intersect_rect_Some [OF i, of "int x" "int y"] by (rule in_bounds)
      moreover have "in_rect (int x) (int y) d \<longleftrightarrow> nat (r_left d) \<le> x \<and> x < nat (r_right d) \<and>
          nat (r_top d) \<le> y \<and> y < nat (r_bottom d)"
        using D(1,4) by (auto simp: in_rect_def)
      ultimately show ?thesis unfolding sum by blast
    qed
  qed
qed

lemma flush_no_damage:
  assumes fl: "flush_pixels color bi_width bits width height stride dirty m = (None, m')"
    and pos: "0 \<le> sint width" "0 \<le> sint height"
  shows "m' = m" "\<not> (in_rect (int x) (int y) dirty \<and> x < unat width \<and> y < unat height)"
proof -
  from fl have i: "intersect_rect dirty
      \<lparr>r_left = 0, r_top = 0, r_right = int (unat width), r_bottom = int (unat height)\<rparr> = None"
    by (simp only: flush_pixels_def Let_def sint_nonneg [OF pos(1)] sint_nonneg [OF pos(2)] split: option.splits)
       simp_all
  with fl sint_nonneg [OF pos(1)] sint_nonneg [OF pos(2)] show "m' = m" by (simp add: flush_pixels_def)
  from intersect_rect_None [OF i, of "int x" "int y"]
  show "\<not> (in_rect (int x) (int y) dirty \<and> x < unat width \<and> y < unat height)"
    unfolding in_bounds .
qed

text \<open>A damaged pixel is the guest's with full alpha, every other byte is as before.\<close>

lemma flush_pixels_exact:
  assumes fl: "flush_pixels color bi_width bits width height stride dirty m = (dmg, m')"
    and st: "unat stride = 4 * unat width" and sz: "unat stride * unat height < 2 ^ 32"
    and pos: "0 \<le> sint width" "0 \<le> sint height" and xy: "x < unat width" "y < unat height"
  shows "word_at m' (bits + y * unat stride + 4 * x) 4 =
      (if in_rect (int x) (int y) dirty
       then word_at color (unat (of_nat y * (bi_width * 4)) + 4 * x) 4 OR 0xff000000
       else word_at m (bits + y * unat stride + 4 * x) 4 :: u32)"
proof (cases dmg)
  case None
  with flush_no_damage(1) [OF fl [unfolded None] pos] flush_no_damage(2) [OF fl [unfolded None] pos, of x y] xy show ?thesis by auto
next
  case (Some d)
  obtain l k t n where
    m': "m' = paint_rows color (bi_width * 4) stride bits l k t n m" and
    le: "t + n \<le> unat height" "l + k \<le> unat width" and
    ind: "\<And>x y. in_rect (int x) (int y) dirty \<and> x < unat width \<and> y < unat height \<longleftrightarrow>
       l \<le> x \<and> x < l + k \<and> t \<le> y \<and> y < t + n"
    by (rule flush_damage [OF fl [unfolded Some] pos]) (rule that)
  have "(t + n) * unat stride \<le> unat height * unat stride" using le(1) by (rule mult_le_mono1)
  also have "\<dots> < 2 ^ 32" using sz by (simp only: mult.commute)
  finally have small: "(t + n) * unat stride < 2 ^ 32" .
  have row: "4 * l + 4 * k \<le> unat stride" using le(2) st by simp
  show ?thesis
  proof (cases "in_rect (int x) (int y) dirty")
    case True
    with ind [of x y] xy obtain z where z: "x = l + z" "z < k" "t \<le> y" "y < t + n"
      by (metis add_less_cancel_left le_Suc_ex)
    with paint_rows_at [OF small row z(3,4,2), where bits = bits and color = color and src_stride = "bi_width * 4" and m = m] True m'
    show ?thesis by (simp add: algebra_simps)
  next
    case False
    have "word_at m' (bits + y * unat stride + 4 * x) 4 = (word_at m (bits + y * unat stride + 4 * x) 4 :: u32)"
      unfolding m'
    proof (intro word_at_cong paint_rows_other [OF small])
      fix a j
      assume a: "bits + y * unat stride + 4 * x \<le> a" "a < bits + y * unat stride + 4 * x + 4"
        and j: "t \<le> j" "j < t + n"
      show "a < bits + j * unat stride + 4 * l \<or> bits + j * unat stride + 4 * l + 4 * k \<le> a"
      proof (cases "j = y")
        case True
        with False ind [of x y] xy j have "x < l \<or> l + k \<le> x" by auto
        with True a show ?thesis by auto
      next
        case ne: False
        define b where "b = a - (bits + y * unat stride)"
        with a have b: "a = bits + y * unat stride + b" "b < 4 * unat width" using xy(1) by linarith+
        with rows_apart [of y j 0 "unat width" "unat stride" b] ne st have
          "y * unat stride + b < j * unat stride \<or> j * unat stride + 4 * unat width \<le> y * unat stride + b"
          by auto
        with b le(2) show ?thesis by auto
      qed
    qed
    with False show ?thesis by simp
  qed
qed

lemma flush_pixels_inside:
  assumes fl: "flush_pixels color bi_width bits width height stride dirty m = (dmg, m')"
    and st: "unat stride = 4 * unat width" and sz: "unat stride * unat height < 2 ^ 32"
    and pos: "0 \<le> sint width" "0 \<le> sint height"
    and out: "a < bits \<or> bits + unat stride * unat height \<le> a"
  shows "m' a = m a"
proof (cases dmg)
  case None
  with flush_no_damage(1) [OF fl [unfolded None] pos] show ?thesis by simp
next
  case (Some d)
  obtain l k t n where
    m': "m' = paint_rows color (bi_width * 4) stride bits l k t n m" and
    le: "t + n \<le> unat height" "l + k \<le> unat width"
    by (rule flush_damage [OF fl [unfolded Some] pos]) (rule that)
  have "(t + n) * unat stride \<le> unat height * unat stride" using le(1) by (rule mult_le_mono1)
  also have "\<dots> < 2 ^ 32" using sz by (simp only: mult.commute)
  finally have small: "(t + n) * unat stride < 2 ^ 32" .
  show ?thesis unfolding m'
  proof (rule paint_rows_other [OF small])
    fix j
    assume "t \<le> j" "j < t + n"
    then have "(j + 1) * unat stride \<le> unat height * unat stride"
      using le(1) by (intro mult_le_mono1) simp
    then have "j * unat stride + 4 * l + 4 * k \<le> unat stride * unat height"
      using le(2) st by (simp add: algebra_simps)
    with out show "a < bits + j * unat stride + 4 * l \<or> bits + j * unat stride + 4 * l + 4 * k \<le> a"
      by auto
  qed
qed

end
