(* ===== verification/Driver.thy ===== *)
theory Driver
  imports DriverPixels Display
begin

text \<open>
  The display driver of \<^verbatim>\<open>native/patches/0007-ios-display-driver.patch\<close>
  (\<^verbatim>\<open>dlls/wineios.drv/window.c\<close>) joined to the bridge it calls: the life of a window
  surface from its allocation to the release of its pixels, cut where the driver takes or
  leaves a mutex, with the window data, the presenter and the other Wine threads in between.

  The red-black tree of \<^verbatim>\<open>wine/rbtree.h\<close> is a map, the list of \<^verbatim>\<open>wine/list.h\<close> a
  list; both are Wine's own. Of win32u the model uses that a surface is flushed only while it
  is referenced and destroyed once, after the last release.
\<close>

section \<open>State\<close>

type_synonym hwnd = u64

record ios_win_data =
  wd_rects :: "rect \<times> rect \<times> rect" \<comment> \<open>window, client, visible\<close>
  wd_surface_id :: u64

text \<open>How far a surface's thread is: the last thing that was done to it.\<close>

datatype phase = Allocated | Enlisted | Published | Unpublished | Delisted

record ios_window_surface =
  ws_hwnd :: hwnd
  ws_id :: u64
  ws_host_bits :: ptr
  ws_width :: u32
  ws_height :: u32
  ws_stride :: u32
  ws_flush_count :: u32
  ws_phase :: phase \<comment> \<open>not in the code\<close>

text \<open>
  \<open>blocks\<close> are the heap blocks that are allocated, by address, with their sizes; \<open>pixels\<close> is
  what they hold. \<open>list_broken\<close>: an entry was removed that was not in the list.
\<close>

record driver =
  win_data :: "hwnd \<Rightarrow> ios_win_data option"
  surfaces_of :: "ptr \<Rightarrow> ios_window_surface option"
  surface_list :: "ptr list"
  next_surface_id :: u64
  blocks :: "ptr \<Rightarrow> nat option"
  pixels :: mem
  list_broken :: bool
  bridge :: display

definition upd_surface :: "ptr \<Rightarrow> (ios_window_surface \<Rightarrow> ios_window_surface) \<Rightarrow> driver \<Rightarrow> driver" where
  "upd_surface p f s = s\<lparr>surfaces_of := (surfaces_of s)(p := map_option f (surfaces_of s p))\<rparr>"

section \<open>Windows\<close>

text \<open>
  \<open>parent\<close>: \<^verbatim>\<open>NtUserGetAncestor(hwnd, GA_PARENT)\<close> with 0 for none, \<open>desktop\<close> the desktop
  window, \<open>grand\<close> the parent's parent; \<open>allocated\<close>: \<^verbatim>\<open>calloc\<close> succeeded. The result says
  whether the window has data afterwards.
\<close>

definition ios_win_data_create ::
  "hwnd \<Rightarrow> hwnd \<Rightarrow> hwnd \<Rightarrow> bool \<Rightarrow> hwnd \<Rightarrow> rect \<times> rect \<times> rect \<Rightarrow> driver \<Rightarrow> bool \<times> driver" where
  "ios_win_data_create parent desktop grand allocated hwnd rects s =
     (if parent = 0 then (False, s)
      else if parent \<noteq> desktop \<and> grand = 0 then (False, s)
      else if \<not> allocated then (False, s)
      else if win_data s hwnd \<noteq> None then (True, s)
      else (True, s\<lparr>win_data := (win_data s)(hwnd := Some \<lparr>wd_rects = rects, wd_surface_id = 0\<rparr>)\<rparr>))"

definition window_pos_changing ::
  "hwnd \<Rightarrow> hwnd \<Rightarrow> hwnd \<Rightarrow> bool \<Rightarrow> hwnd \<Rightarrow> rect \<times> rect \<times> rect \<Rightarrow> driver \<Rightarrow> bool \<times> driver" where
  "window_pos_changing parent desktop grand allocated hwnd rects s =
     (if win_data s hwnd \<noteq> None then (True, s)
      else ios_win_data_create parent desktop grand allocated hwnd rects s)"

text \<open>
  \<^verbatim>\<open>IOSDRV_WindowPosChanged\<close> up to its unlock; \<open>surface\<close> is the surface it was given when
  it is one of this driver. The result is the surface id to place, 0 for none.
\<close>

definition window_pos_changed ::
  "hwnd \<Rightarrow> rect \<times> rect \<times> rect \<Rightarrow> ptr option \<Rightarrow> driver \<Rightarrow> u64 \<times> driver" where
  "window_pos_changed hwnd rects surface s =
     (case win_data s hwnd of
        None \<Rightarrow> (0, s)
      | Some d \<Rightarrow>
          let sid = (case surface of
                       None \<Rightarrow> wd_surface_id d
                     | Some p \<Rightarrow> (case surfaces_of s p of None \<Rightarrow> wd_surface_id d | Some o' \<Rightarrow> ws_id o'))
          in (sid, s\<lparr>win_data := (win_data s)(hwnd := Some \<lparr>wd_rects = rects, wd_surface_id = sid\<rparr>)\<rparr>))"

definition destroy_window :: "hwnd \<Rightarrow> driver \<Rightarrow> driver" where
  "destroy_window hwnd s = s\<lparr>win_data := (win_data s)(hwnd := None)\<rparr>"

text \<open>The end of \<^verbatim>\<open>IOSDRV_CreateWindowSurface\<close>; \<open>None\<close>: the creation returned NULL.\<close>

definition bind_surface :: "hwnd \<Rightarrow> ptr option \<Rightarrow> driver \<Rightarrow> driver" where
  "bind_surface hwnd surface s =
     (case win_data s hwnd of
        None \<Rightarrow> s
      | Some d \<Rightarrow>
          let sid = (case surface of None \<Rightarrow> 0
                     | Some p \<Rightarrow> (case surfaces_of s p of None \<Rightarrow> 0 | Some o' \<Rightarrow> ws_id o'))
          in s\<lparr>win_data := (win_data s)(hwnd := Some (d\<lparr>wd_surface_id := sid\<rparr>))\<rparr>)"

definition hwnd_from_surface_id :: "u64 \<Rightarrow> driver \<Rightarrow> hwnd" where
  "hwnd_from_surface_id sid s =
     (case find (\<lambda>p. map_option ws_id (surfaces_of s p) = Some sid) (surface_list s) of
        None \<Rightarrow> 0 | Some p \<Rightarrow> ws_hwnd (the (surfaces_of s p)))"

section \<open>The life of a surface\<close>

text \<open>
  \<^verbatim>\<open>ios_window_surface_create\<close>, the allocations: win32u gave the object at \<open>p\<close>, and
  \<^verbatim>\<open>calloc\<close> the pixels at \<open>bits\<close>, if it did not fail.
\<close>

definition new_surface_object :: "hwnd \<Rightarrow> u32 \<Rightarrow> u32 \<Rightarrow> ptr \<Rightarrow> ios_window_surface" where
  "new_surface_object hwnd width height bits =
     \<lparr>ws_hwnd = hwnd, ws_id = 0, ws_host_bits = bits, ws_width = width, ws_height = height,
      ws_stride = width * 4, ws_flush_count = 0, ws_phase = Allocated\<rparr>"

definition surface_size :: "ios_window_surface \<Rightarrow> nat" where
  "surface_size w = unat (ws_stride w) * unat (ws_height w)"

definition surface_alloc :: "hwnd \<Rightarrow> u32 \<Rightarrow> u32 \<Rightarrow> ptr \<Rightarrow> ptr \<Rightarrow> driver \<Rightarrow> driver" where
  "surface_alloc hwnd width height p bits s =
     (let w = new_surface_object hwnd width height bits
      in s\<lparr>surfaces_of := (surfaces_of s)(p := Some w),
           blocks := (blocks s)(bits := Some (surface_size w)),
           pixels := poke (unat bits) (replicate (surface_size w) 0) (pixels s)\<rparr>)"

text \<open>The critical section of the surface list.\<close>

definition surface_enlist :: "ptr \<Rightarrow> driver \<Rightarrow> driver" where
  "surface_enlist p s =
     (upd_surface p (\<lambda>w. w\<lparr>ws_id := next_surface_id s, ws_phase := Enlisted\<rparr>) s)
       \<lparr>next_surface_id := next_surface_id s + 1, surface_list := surface_list s @ [p]\<rparr>"

text \<open>The call of \<^verbatim>\<open>surface_added\<close>, with the functions that lock and unlock the pixels.\<close>

definition info_of :: "ptr \<Rightarrow> ptr \<Rightarrow> ptr \<Rightarrow> ios_window_surface \<Rightarrow> surface_info" where
  "info_of lock_fn unlock_fn p w =
     \<lparr>si_id = ws_id w, si_hwnd = ws_hwnd w, si_bits = ws_host_bits w, si_width = ws_width w,
      si_height = ws_height w, si_stride = ws_stride w, si_lock = lock_fn, si_unlock = unlock_fn,
      si_lock_ctx = p\<rparr>"

definition call_bridge :: "driver_call \<Rightarrow> driver \<Rightarrow> driver" where
  "call_bridge c s = s\<lparr>bridge := callback c (bridge s)\<rparr>"

definition surface_publish :: "ptr \<Rightarrow> ptr \<Rightarrow> ptr \<Rightarrow> driver \<Rightarrow> driver" where
  "surface_publish lock_fn unlock_fn p s =
     (case surfaces_of s p of
        None \<Rightarrow> s
      | Some w \<Rightarrow> upd_surface p (\<lambda>w. w\<lparr>ws_phase := Published\<rparr>)
                    (call_bridge (Added (info_of lock_fn unlock_fn p w)) s))"

text \<open>\<^verbatim>\<open>ios_window_surface_flush\<close> under the pixel lock; the result is the damage.\<close>

definition surface_paint :: "mem \<Rightarrow> u32 \<Rightarrow> rect \<Rightarrow> ptr \<Rightarrow> driver \<Rightarrow> rect option \<times> driver" where
  "surface_paint color bi_width dirty p s =
     (case surfaces_of s p of
        None \<Rightarrow> (None, s)
      | Some w \<Rightarrow>
          (case flush_pixels color bi_width (unat (ws_host_bits w)) (ws_width w) (ws_height w)
                  (ws_stride w) dirty (pixels s) of
             (None, _) \<Rightarrow> (None, s)
           | (Some d, m) \<Rightarrow>
               (Some d, (upd_surface p (\<lambda>w. w\<lparr>ws_flush_count := ws_flush_count w + 1\<rparr>) s)\<lparr>pixels := m\<rparr>)))"

text \<open>\<^verbatim>\<open>ios_window_surface_destroy\<close>: the call to the bridge, the list, the memory.\<close>

definition surface_unpublish :: "ptr \<Rightarrow> driver \<Rightarrow> driver" where
  "surface_unpublish p s =
     (case surfaces_of s p of
        None \<Rightarrow> s
      | Some w \<Rightarrow> upd_surface p (\<lambda>w. w\<lparr>ws_phase := Unpublished\<rparr>) (call_bridge (Removed (ws_id w)) s))"

definition surface_delist :: "ptr \<Rightarrow> driver \<Rightarrow> driver" where
  "surface_delist p s =
     (upd_surface p (\<lambda>w. w\<lparr>ws_phase := Delisted\<rparr>) s)
       \<lparr>surface_list := remove1 p (surface_list s),
        list_broken := (list_broken s \<or> p \<notin> set (surface_list s))\<rparr>"

definition surface_free :: "ptr \<Rightarrow> driver \<Rightarrow> driver" where
  "surface_free p s =
     (case surfaces_of s p of
        None \<Rightarrow> s
      | Some w \<Rightarrow> s\<lparr>blocks := (blocks s)(ws_host_bits w := None),
                    surfaces_of := (surfaces_of s)(p := None)\<rparr>)"

text \<open>
  The end of \<^verbatim>\<open>IOSDRV_WindowPosChanged\<close>: where the window is now. \<open>sid\<close> is the id the
  first part found, \<open>r\<close> the visible rectangle.
\<close>

definition place_call :: "u64 \<Rightarrow> rect \<Rightarrow> bool \<Rightarrow> driver_call option" where
  "place_call sid r visible =
     (if sid = 0 then None
      else Some (Placed sid (of_int (r_left r)) (of_int (r_top r)) (of_int (r_right r - r_left r))
                   (of_int (r_bottom r - r_top r)) (of_bool visible)))"

text \<open>
  \<^verbatim>\<open>IOSDRV_SetWindowText\<close>. The text is the units at the pointer, with its terminator among
  them; the length is a \<^verbatim>\<open>size_t\<close> that the callback takes as 32 bits.
\<close>

definition wcslen :: "u16 list \<Rightarrow> nat" where
  "wcslen us = length (takeWhile (\<lambda>u. u \<noteq> 0) us)"

definition set_window_text :: "hwnd \<Rightarrow> u16 list \<Rightarrow> driver_call" where
  "set_window_text hwnd us = Titled hwnd us (of_nat (wcslen us))"

section \<open>The joint machine\<close>

text \<open>
  A new block does not overlap an allocated one and lies within the address space. A negative
  height makes the size that \<^verbatim>\<open>calloc\<close> is asked for larger than any it can give, unless
  the stride is 0, so such a surface is an \<open>Alloc_fails\<close>. The host bridge is present.
\<close>

definition fresh_block :: "ptr \<Rightarrow> nat \<Rightarrow> driver \<Rightarrow> bool" where
  "fresh_block b n s \<longleftrightarrow> blocks s b = None \<and> unat b + n < 2 ^ 64 \<and>
     (\<forall>c k. blocks s c = Some k \<longrightarrow> unat b + n \<le> unat c \<or> unat c + k \<le> unat b)"

datatype drv_act =
    Alloc hwnd u32 u32 ptr ptr
  | Alloc_fails hwnd u32 u32 ptr \<comment> \<open>no memory for the pixels: the object is released at once\<close>
  | Enlist ptr | Publish ptr ptr ptr
  | Paint mem u32 rect ptr
  | Unpublish ptr | Delist ptr | Free_bits ptr
  | Pos_changing hwnd hwnd hwnd bool hwnd "rect \<times> rect \<times> rect"
  | Pos_changed hwnd "rect \<times> rect \<times> rect" "ptr option"
  | Bind hwnd "ptr option"
  | Destroy_window hwnd
  | Place u64 rect bool \<comment> \<open>the end of \<^verbatim>\<open>IOSDRV_WindowPosChanged\<close>\<close>
  | Tell_updated u64 \<comment> \<open>the end of \<^verbatim>\<open>ios_window_surface_flush\<close>\<close>
  | Set_text hwnd "u16 list"
  | Bridge_bump | Bridge_configure u32 u32

fun in_phase :: "ptr \<Rightarrow> phase \<Rightarrow> driver \<Rightarrow> bool" where
  "in_phase p ph s = (case surfaces_of s p of None \<Rightarrow> False | Some w \<Rightarrow> ws_phase w = ph)"

fun driver_does :: "driver \<Rightarrow> drv_act \<Rightarrow> driver \<Rightarrow> bool" where
  "driver_does s (Alloc hwnd w h p b) t =
     (surfaces_of s p = None \<and> p \<notin> set (surface_list s) \<and> (0 \<le> sint h \<or> w * 4 = 0) \<and>
      fresh_block b (unat (w * 4) * unat h) s \<and> t = surface_alloc hwnd w h p b s)"
| "driver_does s (Alloc_fails hwnd w h p) t =
     (surfaces_of s p = None \<and> p \<notin> set (surface_list s) \<and>
      t = surface_delist p (surface_unpublish p
            (s\<lparr>surfaces_of := (surfaces_of s)(p := Some (new_surface_object hwnd w h 0))\<rparr>))
            \<lparr>surfaces_of := surfaces_of s\<rparr>)"
| "driver_does s (Enlist p) t =
     (in_phase p Allocated s \<and> next_surface_id s + 1 \<noteq> 0 \<and> t = surface_enlist p s)"
| "driver_does s (Publish l u p) t = (in_phase p Enlisted s \<and> t = surface_publish l u p s)"
| "driver_does s (Paint color bw d p) t =
     (in_phase p Published s \<and> t = snd (surface_paint color bw d p s))"
| "driver_does s (Unpublish p) t = (in_phase p Published s \<and> t = surface_unpublish p s)"
| "driver_does s (Delist p) t = (in_phase p Unpublished s \<and> t = surface_delist p s)"
| "driver_does s (Free_bits p) t = (in_phase p Delisted s \<and> t = surface_free p s)"
| "driver_does s (Pos_changing par desk gr al hwnd rs) t =
     (t = snd (window_pos_changing par desk gr al hwnd rs s))"
| "driver_does s (Pos_changed hwnd rs sf) t = (t = snd (window_pos_changed hwnd rs sf s))"
| "driver_does s (Bind hwnd sf) t = (t = bind_surface hwnd sf s)"
| "driver_does s (Destroy_window hwnd) t = (t = destroy_window hwnd s)"
| "driver_does s (Place sid r visible) t =
     (case place_call sid r visible of None \<Rightarrow> t = s | Some c \<Rightarrow> t = call_bridge c s)"
| "driver_does s (Tell_updated k) t = (t = call_bridge (Updated k) s)"
| "driver_does s (Set_text hwnd us) t = (0 \<in> set us \<and> t = call_bridge (set_window_text hwnd us) s)"
| "driver_does s Bridge_bump t = (0 < d_bumps (bridge s) \<and> t = s\<lparr>bridge := bump (bridge s)\<rparr>)"
| "driver_does s (Bridge_configure w h) t = (t = s\<lparr>bridge := configure w h (bridge s)\<rparr>)"

text \<open>
  The id of a \<open>Place\<close> was read before the unlock and that of a \<open>Tell_updated\<close> before the call,
  so by now they may be those of no surface: any id is allowed.

  The calls of the bridge a step makes, with what the app itself does there.
\<close>

fun bridge_events :: "driver \<Rightarrow> drv_act \<Rightarrow> display_act list" where
  "bridge_events s (Publish l u p) =
     (case surfaces_of s p of None \<Rightarrow> [] | Some w \<Rightarrow> [Driver (Added (info_of l u p w))])"
| "bridge_events s (Unpublish p) =
     (case surfaces_of s p of None \<Rightarrow> [] | Some w \<Rightarrow> [Driver (Removed (ws_id w))])"
| "bridge_events s (Alloc_fails _ _ _ _) = [Driver (Removed 0)]"
| "bridge_events s (Place sid r visible) =
     (case place_call sid r visible of None \<Rightarrow> [] | Some c \<Rightarrow> [Driver c])"
| "bridge_events s (Tell_updated k) = [Driver (Updated k)]"
| "bridge_events s (Set_text hwnd us) = [Driver (set_window_text hwnd us)]"
| "bridge_events s Bridge_bump = [Bump]"
| "bridge_events s (Bridge_configure w h) = [Configure w h]"
| "bridge_events s _ = []"

text \<open>Nothing is said of what follows the removal of an entry that is not in the list.\<close>

definition driver_step :: "driver \<Rightarrow> drv_act \<Rightarrow> driver \<Rightarrow> bool" where
  "driver_step s a t \<longleftrightarrow> \<not> list_broken s \<and> driver_does s a t"

inductive driver_trace :: "driver \<Rightarrow> drv_act list \<Rightarrow> display_act list \<Rightarrow> driver \<Rightarrow> bool" where
  trace_nil: "driver_trace s [] [] s"
| trace_cons: "driver_step s a t \<Longrightarrow> driver_trace t as bs u \<Longrightarrow> driver_trace s (a # as) (bridge_events s a @ bs) u"

definition start_driver :: "mem \<Rightarrow> driver" where
  "start_driver m = \<lparr>win_data = (\<lambda>_. None), surfaces_of = (\<lambda>_. None), surface_list = [],
     next_surface_id = 1, blocks = (\<lambda>_. None), pixels = m, list_broken = False, bridge = start_display\<rparr>"

section \<open>The invariant\<close>

text \<open>The objects: their pixels are allocated and their own, listed ones have distinct ids.\<close>

definition apart :: "ios_window_surface \<Rightarrow> ios_window_surface \<Rightarrow> bool" where
  "apart w v \<longleftrightarrow> ws_host_bits w \<noteq> ws_host_bits v \<and> (ws_id w = ws_id v \<longrightarrow> ws_id w = 0)"

definition objects_ok :: "driver \<Rightarrow> bool" where
  "objects_ok s \<longleftrightarrow> next_surface_id s \<noteq> 0 \<and>
     (\<forall>p w. surfaces_of s p = Some w \<longrightarrow> blocks s (ws_host_bits w) = Some (surface_size w) \<and>
        (ws_phase w = Allocated \<longleftrightarrow> ws_id w = 0) \<and> unat (ws_id w) < unat (next_surface_id s)) \<and>
     (\<forall>p q w v. p \<noteq> q \<longrightarrow> surfaces_of s p = Some w \<longrightarrow> surfaces_of s q = Some v \<longrightarrow> apart w v)"

definition shares :: "ptr \<Rightarrow> ios_window_surface \<Rightarrow> host_surface \<Rightarrow> bool" where
  "shares p w hs \<longleftrightarrow> hs_bits hs = ws_host_bits w \<and> hs_stride hs = ws_stride w \<and>
     gs_height (hs_pub hs) = ws_height w \<and> gs_hwnd (hs_pub hs) = ws_hwnd w \<and> hs_lock_ctx hs = p"

text \<open>What the app can see belongs to a surface that has not been taken back.\<close>

definition registered_ok :: "driver \<Rightarrow> bool" where
  "registered_ok s \<longleftrightarrow>
     (\<forall>k hs. surface_at (d_surfaces (bridge s)) k = Some hs \<longrightarrow>
        (\<exists>p w. surfaces_of s p = Some w \<and> ws_phase w = Published \<and> ws_id w = k \<and> shares p w hs))"

definition list_ok :: "driver \<Rightarrow> bool" where
  "list_ok s \<longleftrightarrow> distinct (surface_list s) \<and>
     (\<forall>p. p \<in> set (surface_list s) \<longleftrightarrow>
        (\<exists>w. surfaces_of s p = Some w \<and> ws_phase w \<in> {Enlisted, Published, Unpublished}))"

definition heap_ok :: "driver \<Rightarrow> bool" where
  "heap_ok s \<longleftrightarrow>
     (\<forall>b c n k. blocks s b = Some n \<longrightarrow> blocks s c = Some k \<longrightarrow> b \<noteq> c \<longrightarrow>
        unat b + n \<le> unat c \<or> unat c + k \<le> unat b)"

definition driver_inv :: "driver \<Rightarrow> bool" where
  "driver_inv s \<longleftrightarrow>
     display_inv (bridge s) \<and> objects_ok s \<and> registered_ok s \<and> list_ok s \<and> heap_ok s"

lemma upd_surface_sel [simp]:
  "surfaces_of (upd_surface p f s) = (surfaces_of s)(p := map_option f (surfaces_of s p))"
  "bridge (upd_surface p f s) = bridge s" "blocks (upd_surface p f s) = blocks s"
  "surface_list (upd_surface p f s) = surface_list s"
  "next_surface_id (upd_surface p f s) = next_surface_id s"
  "pixels (upd_surface p f s) = pixels s" "list_broken (upd_surface p f s) = list_broken s"
  by (simp_all add: upd_surface_def)

lemma call_bridge_sel [simp]:
  "bridge (call_bridge c s) = callback c (bridge s)" "surfaces_of (call_bridge c s) = surfaces_of s"
  "blocks (call_bridge c s) = blocks s" "surface_list (call_bridge c s) = surface_list s"
  "next_surface_id (call_bridge c s) = next_surface_id s" "pixels (call_bridge c s) = pixels s"
  "list_broken (call_bridge c s) = list_broken s"
  by (simp_all add: call_bridge_def)

text \<open>Steps that change only windows, pixels and counters.\<close>

definition same_surfaces :: "driver \<Rightarrow> driver \<Rightarrow> bool" where
  "same_surfaces s t \<longleftrightarrow> surfaces_of t = surfaces_of s \<and> blocks t = blocks s \<and>
     surface_list t = surface_list s \<and> next_surface_id t = next_surface_id s"

lemma same_surfaces_parts:
  "same_surfaces s t \<Longrightarrow> objects_ok s \<Longrightarrow> objects_ok t"
  "same_surfaces s t \<Longrightarrow> list_ok s \<Longrightarrow> list_ok t"
  "same_surfaces s t \<Longrightarrow> heap_ok s \<Longrightarrow> heap_ok t"
  "same_surfaces s t \<Longrightarrow> bridge t = bridge s \<Longrightarrow> registered_ok s \<Longrightarrow> registered_ok t"
  by (auto simp: same_surfaces_def objects_ok_def list_ok_def heap_ok_def registered_ok_def)

lemma window_steps_same:
  "same_surfaces s (snd (window_pos_changing par desk gr al hwnd rs s))"
  "same_surfaces s (snd (window_pos_changed hwnd rs sf s))"
  "same_surfaces s (bind_surface hwnd sf s)" "same_surfaces s (destroy_window hwnd s)"
  "same_surfaces s (call_bridge c s)"
  "bridge (snd (window_pos_changing par desk gr al hwnd rs s)) = bridge s"
  "bridge (snd (window_pos_changed hwnd rs sf s)) = bridge s"
  "bridge (bind_surface hwnd sf s) = bridge s" "bridge (destroy_window hwnd s) = bridge s"
  by (simp_all add: same_surfaces_def window_pos_changing_def ios_win_data_create_def
      window_pos_changed_def bind_surface_def destroy_window_def Let_def split: option.split)

lemma shares_keep [simp]:
  "shares p w (place x y a b v hs) = shares p w hs" "shares p w (touch hs) = shares p w hs"
  by (simp_all add: shares_def place_def touch_def)

lemma shares_ghost [simp]:
  "shares p (w\<lparr>ws_phase := ph\<rparr>) hs = shares p w hs" "shares p (w\<lparr>ws_flush_count := n\<rparr>) hs = shares p w hs"
  "surface_size (w\<lparr>ws_phase := ph\<rparr>) = surface_size w" "surface_size (w\<lparr>ws_flush_count := n\<rparr>) = surface_size w"
  "surface_size (w\<lparr>ws_id := k, ws_phase := ph\<rparr>) = surface_size w"
  by (simp_all add: shares_def surface_size_def)

section \<open>Every step keeps it\<close>

text \<open>One object is put in place, the rest stays.\<close>

lemma apart_sym: "apart w v \<Longrightarrow> apart v w"
  by (auto simp: apart_def)

lemma objects_update:
  assumes "objects_ok s" "surfaces_of t = (surfaces_of s)(p := Some w)"
    and "next_surface_id t \<noteq> 0" "unat (next_surface_id s) \<le> unat (next_surface_id t)"
    and "\<And>q v. q \<noteq> p \<Longrightarrow> surfaces_of s q = Some v \<Longrightarrow>
      blocks t (ws_host_bits v) = blocks s (ws_host_bits v) \<and> apart w v"
    and "blocks t (ws_host_bits w) = Some (surface_size w)" "ws_phase w = Allocated \<longleftrightarrow> ws_id w = 0"
    and "unat (ws_id w) < unat (next_surface_id t)"
  shows "objects_ok t"
  unfolding objects_ok_def
proof (intro conjI allI impI)
  show "next_surface_id t \<noteq> 0" by fact
next
  fix q v
  assume q: "surfaces_of t q = Some v"
  show "blocks t (ws_host_bits v) = Some (surface_size v)"
    using q assms(1,2,5,6) by (cases "q = p") (auto simp: objects_ok_def)
  show "ws_phase v = Allocated \<longleftrightarrow> ws_id v = 0"
    using q assms(1,2,7) by (cases "q = p") (auto simp: objects_ok_def)
  have "unat (ws_id v) < unat (next_surface_id s)" if "q \<noteq> p"
    using q assms(1,2) that by (simp add: objects_ok_def)
  then show "unat (ws_id v) < unat (next_surface_id t)"
    using q assms(2,4,8) by (cases "q = p") auto
next
  fix q r v u
  assume "q \<noteq> r" "surfaces_of t q = Some v" "surfaces_of t r = Some u"
  moreover have "apart v u" if "q \<noteq> r" "surfaces_of s q = Some v" "surfaces_of s r = Some u"
    using assms(1) that unfolding objects_ok_def by metis
  ultimately show "apart v u"
    using assms(2) assms(5) [of q v] assms(5) [of r u] apart_sym by (cases "q = p"; cases "r = p") auto
qed

text \<open>What the registry refers to is kept when the published objects are.\<close>

definition like :: "ios_window_surface \<Rightarrow> ios_window_surface \<Rightarrow> bool" where
  "like w v \<longleftrightarrow> ws_phase v = ws_phase w \<and> ws_id v = ws_id w \<and> ws_host_bits v = ws_host_bits w \<and>
     ws_stride v = ws_stride w \<and> ws_height v = ws_height w \<and> ws_hwnd v = ws_hwnd w"

lemma registered_frame:
  assumes "registered_ok s" "d_surfaces (bridge t) = d_surfaces (bridge s)"
    and "\<And>q v. surfaces_of s q = Some v \<Longrightarrow> ws_phase v = Published \<Longrightarrow>
      \<exists>u. surfaces_of t q = Some u \<and> like v u"
  shows "registered_ok t"
  unfolding registered_ok_def
proof (intro allI impI)
  fix k hs
  assume "surface_at (d_surfaces (bridge t)) k = Some hs"
  then have "surface_at (d_surfaces (bridge s)) k = Some hs" using assms(2) by simp
  with assms(1) obtain q v where
    q: "surfaces_of s q = Some v" "ws_phase v = Published" "ws_id v = k" "shares q v hs"
    unfolding registered_ok_def by blast
  with assms(3) obtain u where "surfaces_of t q = Some u" "like v u" by blast
  with q show "\<exists>p w. surfaces_of t p = Some w \<and> ws_phase w = Published \<and> ws_id w = k \<and> shares p w hs"
    by (intro exI [of _ q] exI [of _ u]) (simp add: like_def shares_def)
qed

lemma like_refl [simp]: "like w w"
  by (simp add: like_def)

lemma in_phaseD:
  assumes "in_phase p ph s"
  obtains w where "surfaces_of s p = Some w" "ws_phase w = ph"
  using assms by (cases "surfaces_of s p") auto

lemma driver_invD:
  assumes "driver_inv s"
  shows "display_inv (bridge s)" "objects_ok s" "registered_ok s" "list_ok s" "heap_ok s"
  using assms by (simp_all add: driver_inv_def)

lemma objectD:
  assumes "objects_ok s" "surfaces_of s p = Some w"
  shows "blocks s (ws_host_bits w) = Some (surface_size w)" "ws_phase w = Allocated \<longleftrightarrow> ws_id w = 0"
    "unat (ws_id w) < unat (next_surface_id s)" "next_surface_id s \<noteq> 0"
    "q \<noteq> p \<Longrightarrow> surfaces_of s q = Some v \<Longrightarrow> apart w v"
proof -
  show "q \<noteq> p \<Longrightarrow> surfaces_of s q = Some v \<Longrightarrow> apart w v"
    using assms unfolding objects_ok_def by metis
qed (use assms in \<open>auto simp: objects_ok_def\<close>)

lemma alloc_inv:
  assumes inv: "driver_inv s" and "surfaces_of s p = None" "p \<notin> set (surface_list s)"
    and fresh: "fresh_block b (unat (w * 4) * unat h) s"
  shows "driver_inv (surface_alloc hw w h p b s)"
proof -
  note I = driver_invD [OF inv]
  define ob where "ob = new_surface_object hw w h b"
  have o': "ws_host_bits ob = b" "ws_id ob = 0" "ws_phase ob = Allocated" "surface_size ob = unat (w * 4) * unat h"
    by (simp_all add: ob_def new_surface_object_def surface_size_def)
  let ?t = "surface_alloc hw w h p b s"
  have t: "surfaces_of ?t = (surfaces_of s)(p := Some ob)" "blocks ?t = (blocks s)(b := Some (surface_size ob))"
    "bridge ?t = bridge s" "surface_list ?t = surface_list s" "next_surface_id ?t = next_surface_id s"
    by (simp_all add: surface_alloc_def ob_def Let_def)
  have nb: "ws_host_bits v \<noteq> b" if "surfaces_of s q = Some v" for q v
    using objectD(1) [OF I(2) that] fresh by (auto simp: fresh_block_def)
  have "objects_ok ?t"
    using I(2) nb by (intro objects_update [OF I(2) t(1)]) (auto simp: t o' apart_def objects_ok_def unat_gt_0)
  moreover have "heap_ok ?t"
    using I(5) fresh unfolding heap_ok_def fresh_block_def by (auto simp: t o')
  moreover have "list_ok ?t"
    using I(4) assms(2,3) unfolding list_ok_def by (auto simp: t o')
  moreover have "registered_ok ?t"
    using assms(2) by (intro registered_frame [OF I(3)]) (auto simp: t)
  ultimately show ?thesis using I(1) by (simp add: driver_inv_def t)
qed

lemma enlist_inv:
  assumes inv: "driver_inv s" and "in_phase p Allocated s" and wrap: "next_surface_id s + 1 \<noteq> 0"
  shows "driver_inv (surface_enlist p s)"
proof -
  note I = driver_invD [OF inv]
  from assms(2) obtain w where w: "surfaces_of s p = Some w" "ws_phase w = Allocated" by (rule in_phaseD)
  define w' where "w' = w\<lparr>ws_id := next_surface_id s, ws_phase := Enlisted\<rparr>"
  let ?t = "surface_enlist p s"
  have t: "surfaces_of ?t = (surfaces_of s)(p := Some w')" "blocks ?t = blocks s" "bridge ?t = bridge s"
    "surface_list ?t = surface_list s @ [p]" "next_surface_id ?t = next_surface_id s + 1"
    by (simp_all add: surface_enlist_def w w'_def)
  have w': "ws_host_bits w' = ws_host_bits w" "surface_size w' = surface_size w"
    "ws_id w' = next_surface_id s" "ws_phase w' = Enlisted"
    by (simp_all add: w'_def surface_size_def)
  have n: "unat (next_surface_id s + 1) = unat (next_surface_id s) + 1" using wrap by (rule unat_word_Suc)
  have "apart w' v" if "q \<noteq> p" "surfaces_of s q = Some v" for q v
    using objectD(5) [OF I(2) w(1) that] objectD(3) [OF I(2) that(2)] by (auto simp: apart_def w')
  then have "objects_ok ?t"
    using objectD [OF I(2) w(1)] wrap
    by (intro objects_update [OF I(2) t(1)]) (simp_all add: t w' n)
  moreover have "heap_ok ?t" using I(5) by (simp add: heap_ok_def t)
  moreover have "list_ok ?t" using I(4) w unfolding list_ok_def by (auto simp: t w')
  moreover have "registered_ok ?t" using w by (intro registered_frame [OF I(3)]) (auto simp: t)
  ultimately show ?thesis using I(1) by (simp add: driver_inv_def t)
qed

text \<open>Calls to the bridge, under the contract it states for its driver.\<close>

lemma call_inv:
  assumes "display_inv D" "driver_ok c D"
  shows "display_inv (callback c D)"
  using display_step_inv [of D "Driver c" "callback c D"] assms by simp

lemma call_lookup:
  assumes "display_inv D" "driver_ok c D"
  shows "surface_at (d_surfaces (callback c D)) = spec_surfaces (Driver c) (surface_at (d_surfaces D))"
proof -
  have "reg_wf (d_surfaces D)" using assms(1) by (simp add: display_inv_def)
  moreover have "surface_at (d_surfaces D) (si_id info) = None" if "c = Added info" for info
    using assms(2) that by simp
  ultimately show ?thesis using callback_surfaces_lookup by (simp add: callback_def)
qed

text \<open>The calls that may come at any time.\<close>

fun any_time :: "driver_call \<Rightarrow> bool" where
  "any_time (Added _) = False"
| "any_time (Titled _ us n) = (unat n \<le> length us)"
| "any_time _ = True"

text \<open>A title has at least the units it announces: the terminator is among them.\<close>

lemma unat_of_nat_le: "unat (of_nat n :: u32) \<le> n"
  by (simp add: unat_of_nat)

lemma wcslen_within: "0 \<in> set us \<Longrightarrow> wcslen us < length us"
  by (induction us) (auto simp: wcslen_def)

lemma any_time_calls:
  "0 \<in> set us \<Longrightarrow> any_time (set_window_text hwnd us)"
  "place_call sid r visible = Some c \<Longrightarrow> any_time c"
  using unat_of_nat_le [of "wcslen us"] wcslen_within [of us]
  by (auto simp: set_window_text_def place_call_def split: if_splits)

lemma any_time_ok: "any_time c \<Longrightarrow> driver_ok c D"
  by (cases c) auto

lemma any_time_keeps:
  assumes "any_time c" "spec_surfaces (Driver c) m k = Some hs'"
  shows "\<exists>hs. m k = Some hs \<and> (\<forall>p w. shares p w hs' \<longleftrightarrow> shares p w hs)"
  using assms by (cases c) (auto split: if_splits)

lemma notify_inv:
  assumes inv: "driver_inv s" and c: "any_time c"
    and same: "same_surfaces s t" and br: "bridge t = callback c (bridge s)"
  shows "driver_inv t"
proof -
  note I = driver_invD [OF inv]
  note ok = any_time_ok [OF c, of "bridge s"]
  have "registered_ok t"
    unfolding registered_ok_def
  proof (intro allI impI)
    fix k hs'
    assume "surface_at (d_surfaces (bridge t)) k = Some hs'"
    then have "spec_surfaces (Driver c) (surface_at (d_surfaces (bridge s))) k = Some hs'"
      by (simp add: br call_lookup [OF I(1) ok])
    from any_time_keeps [OF c this] obtain hs where
      hs: "surface_at (d_surfaces (bridge s)) k = Some hs" "\<forall>p w. shares p w hs' \<longleftrightarrow> shares p w hs" by blast
    with I(3) same show "\<exists>p w. surfaces_of t p = Some w \<and> ws_phase w = Published \<and> ws_id w = k \<and> shares p w hs'"
      unfolding registered_ok_def same_surfaces_def by metis
  qed
  then show ?thesis
    using same_surfaces_parts(1-3) [OF same] call_inv [OF I(1) ok] I by (simp add: driver_inv_def br)
qed

text \<open>Steps of one object between its enlisting and its release.\<close>

lemma object_step:
  assumes ok: "objects_ok s" and w: "surfaces_of s p = Some w"
    and like: "ws_host_bits w' = ws_host_bits w" "ws_id w' = ws_id w" "surface_size w' = surface_size w"
      "ws_phase w' = Allocated \<longleftrightarrow> ws_phase w = Allocated"
    and t: "surfaces_of t = (surfaces_of s)(p := Some w')" "blocks t = blocks s"
      "next_surface_id t = next_surface_id s"
  shows "objects_ok t"
proof (rule objects_update [OF ok t(1)])
  fix q v
  assume "q \<noteq> p" "surfaces_of s q = Some v"
  with objectD(5) [OF ok w] show "blocks t (ws_host_bits v) = blocks s (ws_host_bits v) \<and> apart w' v"
    by (simp add: t apart_def like)
qed (use objectD [OF ok w] in \<open>simp_all add: t like\<close>)

lemma added_ok:
  assumes "driver_inv s" "surfaces_of s p = Some w" "ws_phase w = Enlisted"
  shows "driver_ok (Added (info_of l u p w)) (bridge s)"
proof (rule ccontr)
  assume "\<not> ?thesis"
  then obtain hs where "surface_at (d_surfaces (bridge s)) (ws_id w) = Some hs" by (auto simp: info_of_def)
  with driver_invD(3) [OF assms(1)] obtain q v where
    q: "surfaces_of s q = Some v" "ws_phase v = Published" "ws_id v = ws_id w"
    unfolding registered_ok_def by blast
  then have "q \<noteq> p" using assms(2,3) by auto
  with objectD(5) [OF driver_invD(2) [OF assms(1)] assms(2), of q v] q
  have "ws_id w = 0" by (simp add: apart_def)
  with objectD(2) [OF driver_invD(2) [OF assms(1)] assms(2)] assms(3) show False by simp
qed

lemma publish_inv:
  assumes inv: "driver_inv s" and "in_phase p Enlisted s"
  shows "driver_inv (surface_publish l u p s)"
proof -
  note I = driver_invD [OF inv]
  from assms(2) obtain w where w: "surfaces_of s p = Some w" "ws_phase w = Enlisted" by (rule in_phaseD)
  define w' where "w' = w\<lparr>ws_phase := Published\<rparr>"
  let ?t = "surface_publish l u p s" and ?c = "Added (info_of l u p w)"
  note ok = added_ok [OF inv w, of l u]
  have t: "surfaces_of ?t = (surfaces_of s)(p := Some w')" "blocks ?t = blocks s"
    "next_surface_id ?t = next_surface_id s" "surface_list ?t = surface_list s"
    "bridge ?t = callback ?c (bridge s)"
    by (simp_all add: surface_publish_def w w'_def)
  have "objects_ok ?t"
    by (rule object_step [OF I(2) w(1) _ _ _ _ t(1-3)]) (simp_all add: w'_def w(2))
  moreover have "list_ok ?t" using I(4) w unfolding list_ok_def by (auto simp: t w'_def)
  moreover have "heap_ok ?t" using I(5) by (simp add: heap_ok_def t)
  moreover have "registered_ok ?t"
    unfolding registered_ok_def
  proof (intro allI impI)
    fix k hs
    assume "surface_at (d_surfaces (bridge ?t)) k = Some hs"
    then have "spec_surfaces (Driver ?c) (surface_at (d_surfaces (bridge s))) k = Some hs"
      by (simp only: t(5) call_lookup [OF I(1) ok])
    then have "k = ws_id w \<and> hs = new_surface (info_of l u p w) \<or>
        surface_at (d_surfaces (bridge s)) k = Some hs"
      by (auto simp: info_of_def split: if_splits)
    then show "\<exists>p' w'. surfaces_of ?t p' = Some w' \<and> ws_phase w' = Published \<and> ws_id w' = k \<and> shares p' w' hs"
    proof
      assume "k = ws_id w \<and> hs = new_surface (info_of l u p w)"
      then show ?thesis
        by (intro exI [of _ p] exI [of _ w']) (simp add: t w'_def shares_def new_surface_def info_of_def)
    next
      assume "surface_at (d_surfaces (bridge s)) k = Some hs"
      with I(3) obtain q v where q: "surfaces_of s q = Some v" "ws_phase v = Published" "ws_id v = k" "shares q v hs"
        unfolding registered_ok_def by blast
      with w have "q \<noteq> p" by auto
      with q show ?thesis by (intro exI [of _ q] exI [of _ v]) (simp add: t)
    qed
  qed
  ultimately show ?thesis using call_inv [OF I(1) ok] by (simp add: driver_inv_def t(5))
qed

lemma unpublish_inv:
  assumes inv: "driver_inv s" and "in_phase p Published s"
  shows "driver_inv (surface_unpublish p s)"
proof -
  note I = driver_invD [OF inv]
  from assms(2) obtain w where w: "surfaces_of s p = Some w" "ws_phase w = Published" by (rule in_phaseD)
  define w' where "w' = w\<lparr>ws_phase := Unpublished\<rparr>"
  let ?t = "surface_unpublish p s"
  have t: "surfaces_of ?t = (surfaces_of s)(p := Some w')" "blocks ?t = blocks s"
    "next_surface_id ?t = next_surface_id s" "surface_list ?t = surface_list s"
    "bridge ?t = callback (Removed (ws_id w)) (bridge s)"
    by (simp_all add: surface_unpublish_def w w'_def)
  have "objects_ok ?t"
    by (rule object_step [OF I(2) w(1) _ _ _ _ t(1-3)]) (simp_all add: w'_def w(2))
  moreover have "list_ok ?t" using I(4) w unfolding list_ok_def by (auto simp: t w'_def)
  moreover have "heap_ok ?t" using I(5) by (simp add: heap_ok_def t)
  moreover have "registered_ok ?t"
    unfolding registered_ok_def
  proof (intro allI impI)
    fix k hs
    assume "surface_at (d_surfaces (bridge ?t)) k = Some hs"
    then have k: "k \<noteq> ws_id w" "surface_at (d_surfaces (bridge s)) k = Some hs"
      by (auto simp: t(5) call_lookup [OF I(1)] split: if_splits)
    with I(3) obtain q v where q: "surfaces_of s q = Some v" "ws_phase v = Published" "ws_id v = k" "shares q v hs"
      unfolding registered_ok_def by blast
    with w k(1) have "q \<noteq> p" by auto
    with q show "\<exists>p' w'. surfaces_of ?t p' = Some w' \<and> ws_phase w' = Published \<and> ws_id w' = k \<and> shares p' w' hs"
      by (intro exI [of _ q] exI [of _ v]) (simp add: t)
  qed
  ultimately show ?thesis using call_inv [OF I(1), of "Removed (ws_id w)"] by (simp add: driver_inv_def t(5))
qed

lemma paint_inv:
  assumes inv: "driver_inv s" and "in_phase p Published s"
  shows "driver_inv (snd (surface_paint color bw d p s))"
proof -
  note I = driver_invD [OF inv]
  from assms(2) obtain w where w: "surfaces_of s p = Some w" "ws_phase w = Published" by (rule in_phaseD)
  obtain dmg m where fl: "flush_pixels color bw (unat (ws_host_bits w)) (ws_width w) (ws_height w)
      (ws_stride w) d (pixels s) = (dmg, m)" by fastforce
  show ?thesis
  proof (cases dmg)
    case None
    with fl w inv show ?thesis by (simp add: surface_paint_def)
  next
    case (Some r)
    define w' where "w' = w\<lparr>ws_flush_count := ws_flush_count w + 1\<rparr>"
    let ?t = "snd (surface_paint color bw d p s)"
    have t: "surfaces_of ?t = (surfaces_of s)(p := Some w')" "blocks ?t = blocks s"
      "next_surface_id ?t = next_surface_id s" "surface_list ?t = surface_list s" "bridge ?t = bridge s"
      by (simp_all add: surface_paint_def w(1) w'_def fl Some)
    have "objects_ok ?t"
      by (rule object_step [OF I(2) w(1) _ _ _ _ t(1-3)]) (simp_all add: w'_def w(2))
    moreover have "list_ok ?t" using I(4) w unfolding list_ok_def by (auto simp: t w'_def)
    moreover have "heap_ok ?t" using I(5) by (simp add: heap_ok_def t)
    moreover have "registered_ok ?t"
      using w by (intro registered_frame [OF I(3)]) (auto simp: t w'_def like_def)
    ultimately show ?thesis using I(1) by (simp add: driver_inv_def t)
  qed
qed

lemma delist_inv:
  assumes inv: "driver_inv s" and "in_phase p Unpublished s"
  shows "driver_inv (surface_delist p s)" "list_broken (surface_delist p s) = list_broken s"
proof -
  note I = driver_invD [OF inv]
  from assms(2) obtain w where w: "surfaces_of s p = Some w" "ws_phase w = Unpublished" by (rule in_phaseD)
  define w' where "w' = w\<lparr>ws_phase := Delisted\<rparr>"
  let ?t = "surface_delist p s"
  have t: "surfaces_of ?t = (surfaces_of s)(p := Some w')" "blocks ?t = blocks s"
    "next_surface_id ?t = next_surface_id s" "surface_list ?t = remove1 p (surface_list s)"
    "bridge ?t = bridge s"
    by (simp_all add: surface_delist_def w w'_def)
  have "objects_ok ?t"
    by (rule object_step [OF I(2) w(1) _ _ _ _ t(1-3)]) (simp_all add: w'_def w(2))
  moreover have "list_ok ?t" using I(4) w unfolding list_ok_def by (auto simp: t w'_def)
  moreover have "heap_ok ?t" using I(5) by (simp add: heap_ok_def t)
  moreover have "registered_ok ?t" using w by (intro registered_frame [OF I(3)]) (auto simp: t)
  ultimately show "driver_inv ?t" using I(1) by (simp add: driver_inv_def t)
  have "p \<in> set (surface_list s)" using I(4) w unfolding list_ok_def by auto
  then show "list_broken ?t = list_broken s" by (simp add: surface_delist_def)
qed

lemma free_inv:
  assumes inv: "driver_inv s" and "in_phase p Delisted s"
  shows "driver_inv (surface_free p s)"
proof -
  note I = driver_invD [OF inv]
  from assms(2) obtain w where w: "surfaces_of s p = Some w" "ws_phase w = Delisted" by (rule in_phaseD)
  let ?t = "surface_free p s"
  have t: "surfaces_of ?t = (surfaces_of s)(p := None)" "blocks ?t = (blocks s)(ws_host_bits w := None)"
    "next_surface_id ?t = next_surface_id s" "surface_list ?t = surface_list s" "bridge ?t = bridge s"
    by (simp_all add: surface_free_def w)
  have "ws_host_bits v \<noteq> ws_host_bits w" if "q \<noteq> p" "surfaces_of s q = Some v" for q v
    using objectD(5) [OF I(2) w(1) that] by (auto simp: apart_def)
  then have "objects_ok ?t" using I(2) unfolding objects_ok_def by (auto simp: t)
  moreover have "list_ok ?t" using I(4) w unfolding list_ok_def by (auto simp: t)
  moreover have "heap_ok ?t" using I(5) unfolding heap_ok_def by (auto simp: t)
  moreover have "registered_ok ?t" using w by (intro registered_frame [OF I(3)]) (auto simp: t)
  ultimately show ?thesis using I(1) by (simp add: driver_inv_def t)
qed

lemma failed_alloc:
  assumes "driver_does s (Alloc_fails hw w h p) t"
  shows "same_surfaces s t" "bridge t = callback (Removed 0) (bridge s)" "list_broken t"
proof -
  have "p \<notin> set (surface_list s)" using assms by simp
  then have "remove1 p (surface_list s) = surface_list s" by (rule remove1_idem)
  with assms show "same_surfaces s t" "bridge t = callback (Removed 0) (bridge s)" "list_broken t"
    by (simp_all add: same_surfaces_def surface_delist_def surface_unpublish_def new_surface_object_def)
qed

lemma display_keeps:
  "driver_inv s \<Longrightarrow> same_surfaces s t \<Longrightarrow> display_inv (bridge t) \<Longrightarrow>
   d_surfaces (bridge t) = d_surfaces (bridge s) \<Longrightarrow> driver_inv t"
  unfolding driver_inv_def using same_surfaces_parts(1-3) [of s t] registered_frame [of s t]
  by (metis same_surfaces_def like_refl)

lemma windows_inv: "driver_inv s \<Longrightarrow> same_surfaces s t \<Longrightarrow> bridge t = bridge s \<Longrightarrow> driver_inv t"
  by (simp add: display_keeps driver_invD)

lemma driver_does_inv: "driver_inv s \<Longrightarrow> driver_does s a t \<Longrightarrow> driver_inv t"
proof (cases a)
  case (Alloc_fails hw w h p)
  moreover assume "driver_inv s" "driver_does s a t"
  ultimately show ?thesis using notify_inv [of s "Removed 0" t] failed_alloc [of s hw w h p t] by simp
next
  case (Place sid r v)
  moreover assume "driver_inv s" "driver_does s a t"
  ultimately show ?thesis using notify_inv [of s _ t] any_time_calls(2) [of sid r v] window_steps_same(5)
    by (cases "place_call sid r v") auto
next
  case (Tell_updated k)
  moreover assume "driver_inv s" "driver_does s a t"
  ultimately show ?thesis using notify_inv [of s "Updated k" t] window_steps_same(5) by simp
next
  case (Set_text hwnd us)
  moreover assume "driver_inv s" "driver_does s a t"
  ultimately show ?thesis
    using notify_inv [of s "set_window_text hwnd us" t] any_time_calls(1) window_steps_same(5) by simp
next
  case Bridge_bump
  moreover assume "driver_inv s" "driver_does s a t"
  ultimately show ?thesis
    using driver_invD(1) [of s]
    by (intro display_keeps [of s t]) (simp_all add: same_surfaces_def bump_def display_inv_def)
next
  case (Bridge_configure w h)
  moreover assume "driver_inv s" "driver_does s a t"
  ultimately show ?thesis
    using driver_invD(1) [of s]
    by (intro display_keeps [of s t]) (simp_all add: same_surfaces_def configure_def display_inv_def)
qed (auto intro: alloc_inv enlist_inv publish_inv paint_inv unpublish_inv delist_inv free_inv
      windows_inv window_steps_same simp del: in_phase.simps)

section \<open>The bridge keeps its side, the driver its own\<close>

lemma bridge_call: "driver_ok c d \<Longrightarrow> execution display_step d [Driver c] (callback c d)"
  by (simp add: execution_Cons)

lemma silent [simp]: "bridge t = bridge s \<Longrightarrow> execution display_step (bridge s) [] (bridge t)"
  by simp

lemma silent_steps:
  "bridge (surface_alloc hw w h p b s) = bridge s" "bridge (surface_enlist p s) = bridge s"
  "bridge (snd (surface_paint color bw d p s)) = bridge s"
  "bridge (surface_delist p s) = bridge s" "bridge (surface_free p s) = bridge s"
  by (simp_all add: surface_alloc_def surface_enlist_def surface_paint_def surface_delist_def
      surface_free_def Let_def split: option.split prod.split)

text \<open>What a step does to the bridge is what its calls do there, each under the contract.\<close>

lemma driver_does_calls:
  assumes inv: "driver_inv s" and st: "driver_does s a t"
  shows "execution display_step (bridge s) (bridge_events s a) (bridge t)"
proof (cases a)
  case (Publish l u p)
  with st have ph: "in_phase p Enlisted s" and t: "t = surface_publish l u p s" by (simp_all del: in_phase.simps)
  from ph obtain w where w: "surfaces_of s p = Some w" "ws_phase w = Enlisted" by (rule in_phaseD)
  from bridge_call [OF added_ok [OF inv w]] w(1) Publish show ?thesis by (simp add: t surface_publish_def)
next
  case (Unpublish p)
  with st have t: "t = surface_unpublish p s" by simp
  show ?thesis
  proof (cases "surfaces_of s p")
    case (Some w)
    with bridge_call [of "Removed (ws_id w)" "bridge s"] Unpublish show ?thesis
      by (simp add: t surface_unpublish_def)
  qed (simp add: Unpublish t surface_unpublish_def)
next
  case (Alloc_fails hw w h p)
  with st failed_alloc(2) [of s hw w h p t] bridge_call [of "Removed 0" "bridge s"] show ?thesis by simp
next
  case (Place sid r v)
  with st show ?thesis
    using bridge_call [OF any_time_ok [OF any_time_calls(2)]] by (cases "place_call sid r v") auto
next
  case (Tell_updated k)
  with st bridge_call [of "Updated k" "bridge s"] show ?thesis by simp
next
  case (Set_text hwnd us)
  with st bridge_call [OF any_time_ok [OF any_time_calls(1)]] show ?thesis by simp
next
  case Bridge_bump
  with st show ?thesis by (simp add: execution_Cons)
next
  case (Bridge_configure w h)
  with st show ?thesis by (simp add: execution_Cons)
qed (use st in \<open>auto simp: silent_steps window_steps_same simp del: in_phase.simps\<close>)

lemma start_driver_inv: "driver_inv (start_driver m)"
  by (simp add: driver_inv_def start_driver_def objects_ok_def registered_ok_def list_ok_def heap_ok_def
      start_display_inv) (simp add: start_display_def surface_at_empty)

text \<open>The bridge, as a machine that takes any number of its steps at a time.\<close>

definition bridge_moves :: "display \<Rightarrow> drv_act \<Rightarrow> display \<Rightarrow> bool" where
  "bridge_moves d _ d' \<longleftrightarrow> (\<exists>bs. execution display_step d bs d')"

interpretation drv: simulation "\<lambda>s. \<exists>m. s = start_driver m" driver_step driver_inv bridge
  "\<lambda>d. d = start_display" bridge_moves
proof unfold_locales
  fix s t :: driver and l :: drv_act
  show "driver_inv s" if "\<exists>m. s = start_driver m" using that start_driver_inv by blast
  show "bridge s = start_display" if "\<exists>m. s = start_driver m" using that by (auto simp: start_driver_def)
  show "driver_inv t" if "driver_inv s" "driver_step s l t"
    using that driver_does_inv unfolding driver_step_def by blast
  show "bridge_moves (bridge s) l (bridge t)" if "driver_inv s" "driver_step s l t"
    using that driver_does_calls unfolding driver_step_def bridge_moves_def by blast
qed

text \<open>Every run has its trace of calls, and only one.\<close>

lemma driver_does_fun: "driver_does s a t \<Longrightarrow> driver_does s a u \<Longrightarrow> t = u"
  by (cases a) (auto split: option.splits simp del: in_phase.simps)

lemma run_trace: "execution driver_step s as t \<Longrightarrow> \<exists>bs. driver_trace s as bs t"
  by (induction rule: execution.induct) (auto intro: driver_trace.intros)

lemma trace_run: "driver_trace s as bs t \<Longrightarrow> execution driver_step s as t"
  by (induction rule: driver_trace.induct) (auto intro: execution.intros)

lemma trace_snoc:
  "driver_trace s as bs t \<Longrightarrow> driver_step t a u \<Longrightarrow> driver_trace s (as @ [a]) (bs @ bridge_events t a) u"
proof (induction rule: driver_trace.induct)
  case (trace_nil s)
  from driver_trace.trace_cons [OF trace_nil driver_trace.trace_nil] show ?case by simp
next
  case (trace_cons s b v as bs t)
  from driver_trace.trace_cons [OF trace_cons.hyps(1) trace_cons.IH [OF trace_cons.prems]] show ?case by simp
qed

lemma trace_unique:
  "driver_trace s as bs t \<Longrightarrow> driver_trace s as cs u \<Longrightarrow> bs = cs \<and> t = u"
proof (induction arbitrary: cs u rule: driver_trace.induct)
  case (trace_nil s)
  then show ?case by (auto elim: driver_trace.cases)
next
  case (trace_cons s a t as bs u')
  from trace_cons.prems obtain v ds where v: "driver_step s a v" "driver_trace v as ds u"
    "cs = bridge_events s a @ ds" by (auto elim: driver_trace.cases)
  with trace_cons.hyps(1) driver_does_fun have "v = t" by (auto simp: driver_step_def)
  with trace_cons.IH v show ?case by auto
qed

lemma trace_bridge:
  "driver_trace s as bs t \<Longrightarrow> driver_inv s \<Longrightarrow> execution display_step (bridge s) bs (bridge t)"
proof (induction rule: driver_trace.induct)
  case (trace_cons s a t as bs u)
  then have "driver_inv t" "execution display_step (bridge s) (bridge_events s a) (bridge t)"
    using driver_does_inv driver_does_calls unfolding driver_step_def by blast+
  with trace_cons.IH show ?case by (auto simp: execution_append)
qed simp

end
