(* ===== verification/DriverInput.thy ===== *)
theory DriverInput
  imports Driver
begin

text \<open>
  The input pump of the display driver, \<^verbatim>\<open>dlls/wineios.drv/iosdrv_main.c\<close> in
  \<^verbatim>\<open>native/patches/0007-ios-display-driver.patch\<close>: how an event of the app becomes
  hardware input of a window, and the loop that the Wine threads compete for, joined to the
  queue of the bridge on one side and the driver's surfaces on the other.
\<close>

section \<open>One event\<close>

text \<open>
  \<^verbatim>\<open>INPUT\<close> of \<^verbatim>\<open>winuser.h\<close>: the fields the code sets, the others are zero. The flag
  words are sets of their bits, since the header that numbers them is Wine's.
\<close>

datatype input_flag =
    MOUSEEVENTF_MOVE | MOUSEEVENTF_ABSOLUTE | MOUSEEVENTF_LEFTDOWN | MOUSEEVENTF_LEFTUP
  | MOUSEEVENTF_RIGHTDOWN | MOUSEEVENTF_RIGHTUP | MOUSEEVENTF_MIDDLEDOWN | MOUSEEVENTF_MIDDLEUP
  | MOUSEEVENTF_WHEEL | KEYEVENTF_KEYUP | KEYEVENTF_UNICODE

record mouse_input =
  mi_dx :: i32
  mi_dy :: i32
  mi_mouseData :: u32
  mi_dwFlags :: "input_flag set"

record keybd_input =
  ki_wVk :: u16
  ki_wScan :: u16
  ki_dwFlags :: "input_flag set"

datatype input = Mouse mouse_input | Keyboard keybd_input

abbreviation WINEIOS_BUTTON_RIGHT :: u32 where "WINEIOS_BUTTON_RIGHT \<equiv> 1"
abbreviation WINEIOS_BUTTON_MIDDLE :: u32 where "WINEIOS_BUTTON_MIDDLE \<equiv> 2"

text \<open>\<open>foreground\<close> is what \<^verbatim>\<open>NtUserGetForegroundWindow\<close> returns.\<close>

definition event_target :: "hwnd \<Rightarrow> wineios_event \<Rightarrow> driver \<Rightarrow> hwnd" where
  "event_target foreground ev s =
     (let hwnd = (if ev_surface_id ev \<noteq> 0 then hwnd_from_surface_id (ev_surface_id ev) s else 0)
      in if hwnd = 0 then foreground else hwnd)"

definition button_flag :: "wineios_event \<Rightarrow> input_flag" where
  "button_flag ev =
     (if ev_button ev = WINEIOS_BUTTON_RIGHT
        then (if ev_down ev \<noteq> 0 then MOUSEEVENTF_RIGHTDOWN else MOUSEEVENTF_RIGHTUP)
      else if ev_button ev = WINEIOS_BUTTON_MIDDLE
        then (if ev_down ev \<noteq> 0 then MOUSEEVENTF_MIDDLEDOWN else MOUSEEVENTF_MIDDLEUP)
      else (if ev_down ev \<noteq> 0 then MOUSEEVENTF_LEFTDOWN else MOUSEEVENTF_LEFTUP))"

text \<open>
  The inputs \<^verbatim>\<open>inject_event\<close> passes to \<^verbatim>\<open>NtUserSendHardwareInput\<close>, in order. The
  key and character codes are cut to 16 bits.
\<close>

definition event_inputs :: "wineios_event \<Rightarrow> input list" where
  "event_inputs ev =
     (if ev_type ev = WINEIOS_EVENT_MOUSE_MOVE then
        [Mouse \<lparr>mi_dx = ev_x ev, mi_dy = ev_y ev, mi_mouseData = 0,
                mi_dwFlags = {MOUSEEVENTF_MOVE, MOUSEEVENTF_ABSOLUTE}\<rparr>]
      else if ev_type ev = WINEIOS_EVENT_MOUSE_BUTTON then
        [Mouse \<lparr>mi_dx = ev_x ev, mi_dy = ev_y ev, mi_mouseData = 0,
                mi_dwFlags = {MOUSEEVENTF_MOVE, MOUSEEVENTF_ABSOLUTE} \<union> {button_flag ev}\<rparr>]
      else if ev_type ev = WINEIOS_EVENT_MOUSE_WHEEL then
        [Mouse \<lparr>mi_dx = ev_x ev, mi_dy = ev_y ev, mi_mouseData = ev_wheel ev,
                mi_dwFlags = {MOUSEEVENTF_WHEEL}\<rparr>]
      else if ev_type ev = WINEIOS_EVENT_KEY then
        [Keyboard \<lparr>ki_wVk = ucast (ev_vk ev), ki_wScan = 0,
                   ki_dwFlags = (if ev_down ev \<noteq> 0 then {} else {KEYEVENTF_KEYUP})\<rparr>]
      else if ev_type ev = WINEIOS_EVENT_CHAR then
        [Keyboard \<lparr>ki_wVk = 0, ki_wScan = ucast (ev_ch ev), ki_dwFlags = {KEYEVENTF_UNICODE}\<rparr>,
         Keyboard \<lparr>ki_wVk = 0, ki_wScan = ucast (ev_ch ev), ki_dwFlags = {KEYEVENTF_UNICODE, KEYEVENTF_KEYUP}\<rparr>]
      else [])"

section \<open>The loop\<close>

text \<open>
  Where a thread is in \<^verbatim>\<open>iosdrv_unix_run_input_loop\<close>: outside, in the loop with its call of
  \<^verbatim>\<open>next_event\<close>, back from it with an event, or sending to the window it looked up.
\<close>

datatype pump_pc = Out | Looping | Got wineios_event | Sending hwnd "input list"

record pump =
  pm_input :: input_state
  pm_driver :: driver
  pm_pc :: "nat \<Rightarrow> pump_pc"
  input_loop_claimed :: bool
  pm_sent :: "(hwnd \<times> input) list"
  pm_handled :: "wineios_event list" \<comment> \<open>not in the code: the events looked up so far\<close>

text \<open>The entry; \<open>host\<close>: the bridge is there and has \<^verbatim>\<open>next_event\<close>.\<close>

definition pump_enter :: "bool \<Rightarrow> nat \<Rightarrow> pump \<Rightarrow> pump" where
  "pump_enter host i s =
     (if \<not> host then s
      else if input_loop_claimed s then s
      else s\<lparr>input_loop_claimed := True, pm_pc := (pm_pc s)(i := Looping)\<rparr>)"

text \<open>The loop after a move of the bridge to \<open>inp\<close>: it blocks, leaves, injects or goes on.\<close>

definition pump_polled :: "nat \<Rightarrow> input_state \<Rightarrow> pump \<Rightarrow> pump" where
  "pump_polled i inp s =
     (case i_wait inp of
        Waiting _ \<Rightarrow> s\<lparr>pm_input := inp\<rparr>
      | Idle ret \<Rightarrow>
          if ret < 0 then s\<lparr>pm_input := inp, pm_pc := (pm_pc s)(i := Out), input_loop_claimed := False\<rparr>
          else if ret > 0 then s\<lparr>pm_input := inp, pm_pc := (pm_pc s)(i := Got (last (delivered inp)))\<rparr>
          else s\<lparr>pm_input := inp\<rparr>)"

definition pump_lookup :: "nat \<Rightarrow> hwnd \<Rightarrow> wineios_event \<Rightarrow> pump \<Rightarrow> pump" where
  "pump_lookup i foreground ev s =
     s\<lparr>pm_pc := (pm_pc s)(i := Sending (event_target foreground ev (pm_driver s)) (event_inputs ev)),
       pm_handled := pm_handled s @ [ev]\<rparr>"

fun pump_send :: "nat \<Rightarrow> hwnd \<Rightarrow> input list \<Rightarrow> pump \<Rightarrow> pump" where
  "pump_send i hwnd [] s = s\<lparr>pm_pc := (pm_pc s)(i := Looping)\<rparr>"
| "pump_send i hwnd (inp # inps) s =
     s\<lparr>pm_pc := (pm_pc s)(i := Sending hwnd inps), pm_sent := pm_sent s @ [(hwnd, inp)]\<rparr>"

datatype pump_act =
    Enter nat bool | Poll nat input_act | Lookup nat hwnd | Inject nat
  | App_sends wineios_event | Driver_does drv_act

fun pump_step :: "pump \<Rightarrow> pump_act \<Rightarrow> pump \<Rightarrow> bool" where
  "pump_step s (Enter i host) t = (pm_pc s i = Out \<and> t = pump_enter host i s)"
| "pump_step s (Poll i a) t =
     (pm_pc s i = Looping \<and> a \<in> {Next, Wake_up, Timed_out} \<and>
      (\<exists>inp. input_step (pm_input s) a inp \<and> t = pump_polled i inp s))"
| "pump_step s (Lookup i foreground) t =
     (\<exists>ev. pm_pc s i = Got ev \<and> t = pump_lookup i foreground ev s)"
| "pump_step s (Inject i) t = (\<exists>hwnd inps. pm_pc s i = Sending hwnd inps \<and> t = pump_send i hwnd inps s)"
| "pump_step s (App_sends ev) t = (t = s\<lparr>pm_input := send ev (pm_input s)\<rparr>)"
| "pump_step s (Driver_does a) t = (\<exists>d. driver_step (pm_driver s) a d \<and> t = s\<lparr>pm_driver := d\<rparr>)"

definition start_pump :: "mem \<Rightarrow> pump" where
  "start_pump m = \<lparr>pm_input = start_input, pm_driver = start_driver m, pm_pc = (\<lambda>_. Out),
     input_loop_claimed = False, pm_sent = [], pm_handled = []\<rparr>"

section \<open>The invariant\<close>

text \<open>One thread at most is inside; its place says what of the delivered events is still to send.\<close>

fun pump_at :: "pump_pc \<Rightarrow> pump \<Rightarrow> bool" where
  "pump_at (Got ev) s \<longleftrightarrow> delivered (pm_input s) = pm_handled s @ [ev] \<and>
     map snd (pm_sent s) = concat (map event_inputs (pm_handled s))"
| "pump_at (Sending _ inps) s \<longleftrightarrow> delivered (pm_input s) = pm_handled s \<and>
     map snd (pm_sent s) @ inps = concat (map event_inputs (pm_handled s))"
| "pump_at _ s \<longleftrightarrow> delivered (pm_input s) = pm_handled s \<and>
     map snd (pm_sent s) = concat (map event_inputs (pm_handled s))"

definition pump_inv :: "pump \<Rightarrow> bool" where
  "pump_inv s \<longleftrightarrow> input_inv (pm_input s) \<and> driver_inv (pm_driver s) \<and>
     (\<exists>i c. pm_pc s = (\<lambda>_. Out)(i := c) \<and> (input_loop_claimed s \<longleftrightarrow> c \<noteq> Out) \<and> pump_at c s)"

lemma pump_invE:
  assumes "pump_inv s" "pm_pc s j = c" "c \<noteq> Out"
  shows "pm_pc s = (\<lambda>_. Out)(j := c)" "input_loop_claimed s" "pump_at c s"
proof -
  from assms(1) obtain i d where d: "pm_pc s = (\<lambda>_. Out)(i := d)" "input_loop_claimed s \<longleftrightarrow> d \<noteq> Out" "pump_at d s"
    unfolding pump_inv_def by blast
  with assms(2,3) have "i = j" "d = c" by (auto split: if_splits)
  with d assms(3) show "pm_pc s = (\<lambda>_. Out)(j := c)" "input_loop_claimed s" "pump_at c s" by simp_all
qed

lemma pump_invI:
  "input_inv (pm_input s) \<Longrightarrow> driver_inv (pm_driver s) \<Longrightarrow> pm_pc s = (\<lambda>_. Out)(i := c) \<Longrightarrow>
   input_loop_claimed s \<longleftrightarrow> c \<noteq> Out \<Longrightarrow> pump_at c s \<Longrightarrow> pump_inv s"
  unfolding pump_inv_def by blast

lemma pump_at_other:
  "delivered (pm_input t) = delivered (pm_input s) \<Longrightarrow> pm_handled t = pm_handled s \<Longrightarrow>
   pm_sent t = pm_sent s \<Longrightarrow> pump_at c t \<longleftrightarrow> pump_at c s"
  by (cases c) simp_all

lemma pump_outside:
  assumes "pump_inv s" "pm_pc t = pm_pc s" "input_loop_claimed t = input_loop_claimed s"
    and "delivered (pm_input t) = delivered (pm_input s)" "pm_handled t = pm_handled s" "pm_sent t = pm_sent s"
    and "input_inv (pm_input t)" "driver_inv (pm_driver t)"
  shows "pump_inv t"
  using assms pump_at_other [of t s] unfolding pump_inv_def by auto

text \<open>What a move of the bridge in the loop can be.\<close>

lemma poll_cases:
  assumes "input_step s a t" "a \<in> {Next, Wake_up, Timed_out}"
  obtains (blocked) "i_wait t = Waiting False" "delivered t = delivered s"
    | (got) ev where "i_wait t = Idle 1" "delivered t = delivered s @ [ev]"
    | (nothing) "i_wait t = Idle 0" "delivered t = delivered s"
  using assms by (auto simp: next_event_test_def next_event_timeout_def split: option.splits)

lemma poll_inv:
  assumes inv: "pump_inv s" and pc: "pm_pc s i = Looping"
    and st: "input_step (pm_input s) a inp" "a \<in> {Next, Wake_up, Timed_out}"
  shows "pump_inv (pump_polled i inp s)" "input_loop_claimed (pump_polled i inp s)"
proof -
  note P = pump_invE [OF inv pc, simplified]
  have ok: "input_inv inp" "driver_inv (pm_driver s)"
    using inv input.inv_step [OF _ st(1)] by (simp_all add: pump_inv_def)
  show "pump_inv (pump_polled i inp s)"
    using st
  proof (cases rule: poll_cases)
    case (got ev)
    then show ?thesis
      using ok P by (intro pump_invI [of _ i "Got ev"]) (simp_all add: pump_polled_def)
  qed (use ok P in \<open>auto intro!: pump_invI [of _ i Looping] simp: pump_polled_def\<close>)
  show "input_loop_claimed (pump_polled i inp s)"
    using st by (cases rule: poll_cases) (simp_all add: pump_polled_def P(2))
qed

lemma pump_step_inv:
  assumes inv: "pump_inv s" and st: "pump_step s a t"
  shows "pump_inv t"
proof (cases a)
  case (Enter i host)
  show ?thesis
  proof (cases "host \<and> \<not> input_loop_claimed s")
    case True
    from inv obtain j c where c: "pm_pc s = (\<lambda>_. Out)(j := c)" "input_loop_claimed s \<longleftrightarrow> c \<noteq> Out" "pump_at c s"
      unfolding pump_inv_def by blast
    with True have "c = Out" by simp
    with c(1) have "pm_pc s = (\<lambda>_. Out)" by auto
    with st Enter True inv c(3) \<open>c = Out\<close> show ?thesis
      by (intro pump_invI [of t i Looping]) (simp_all add: pump_enter_def pump_inv_def)
  next
    case False
    with st Enter inv show ?thesis by (auto simp: pump_enter_def split: if_splits)
  qed
next
  case (Poll i b)
  with st obtain inp where "pm_pc s i = Looping" "b \<in> {Next, Wake_up, Timed_out}"
    "input_step (pm_input s) b inp" "t = pump_polled i inp s" by (auto simp del: input_step.simps)
  with poll_inv(1) [OF inv] show ?thesis by blast
next
  case (Lookup i fg)
  with st obtain ev where ev: "pm_pc s i = Got ev" "t = pump_lookup i fg ev s" by auto
  with inv pump_invE [OF inv ev(1)] show ?thesis
    by (intro pump_invI [of t i "Sending (event_target fg ev (pm_driver s)) (event_inputs ev)"])
       (simp_all add: pump_lookup_def pump_inv_def)
next
  case (Inject i)
  with st obtain h xs where h: "pm_pc s i = Sending h xs" "t = pump_send i h xs s" by auto
  note P = pump_invE [OF inv h(1), simplified]
  show ?thesis
  proof (cases xs)
    case Nil
    with h inv P show ?thesis by (intro pump_invI [of t i Looping]) (simp_all add: pump_inv_def)
  next
    case (Cons x ys)
    with h inv P show ?thesis by (intro pump_invI [of t i "Sending h ys"]) (simp_all add: pump_inv_def)
  qed
next
  case (App_sends ev)
  with st inv input.inv_step [of "pm_input s" "Send ev"] show ?thesis
    by (intro pump_outside [OF inv]) (simp_all add: send_queue pump_inv_def)
next
  case (Driver_does b)
  with st obtain d where d: "driver_step (pm_driver s) b d" "t = s\<lparr>pm_driver := d\<rparr>" by auto
  from inv have "driver_inv (pm_driver s)" by (simp add: pump_inv_def)
  then have "driver_inv d" using d(1) by (rule drv.inv_step)
  with d inv show ?thesis by (intro pump_outside [OF inv]) (simp_all add: pump_inv_def)
qed

lemma start_pump_inv: "pump_inv (start_pump m)"
  by (rule pump_invI [of _ 0 Out])
     (simp_all add: start_pump_def start_driver_inv input.inv_start fun_eq_iff, simp add: start_input_def)

interpretation pumps: machine "\<lambda>s. \<exists>m. s = start_pump m" pump_step pump_inv
  by unfold_locales (use start_pump_inv pump_step_inv in blast)+

end
