(* ===== verification/DriverProps.thy ===== *)
theory DriverProps
  imports DriverInput
begin

text \<open>
  What the display driver and its bridge are correct for together.
\<close>

section \<open>Reachable states\<close>

lemma driver_reachable_inv: "execution driver_step (start_driver m) as s \<Longrightarrow> driver_inv s"
  by (rule drv.reachable_inv) blast

text \<open>The stride is the one the creation computed.\<close>

definition geometry_ok :: "driver \<Rightarrow> bool" where
  "geometry_ok s \<longleftrightarrow> (\<forall>p w. surfaces_of s p = Some w \<longrightarrow> ws_stride w = ws_width w * 4)"

lemma geometry_frame:
  "geometry_ok s \<Longrightarrow> same_surfaces s t \<Longrightarrow> geometry_ok t"
  by (simp add: geometry_ok_def same_surfaces_def)

lemma geometry_update:
  "geometry_ok s \<Longrightarrow> (\<And>w. ws_stride (f w) = ws_stride w \<and> ws_width (f w) = ws_width w) \<Longrightarrow>
   surfaces_of t = (surfaces_of s)(p := map_option f (surfaces_of s p)) \<Longrightarrow> geometry_ok t"
  by (auto simp: geometry_ok_def split: if_splits)

lemma geometry_step:
  assumes g: "geometry_ok s" and st: "driver_does s a t"
  shows "geometry_ok t"
proof (cases a)
  case (Alloc hw w h p b)
  with assms show ?thesis
    by (auto simp: geometry_ok_def surface_alloc_def new_surface_object_def Let_def split: if_splits)
next
  case (Alloc_fails hw w h p)
  with st geometry_frame [OF g] failed_alloc(1) show ?thesis by metis
next
  case (Enlist p)
  with st show ?thesis
    by (intro geometry_update [OF g, of "\<lambda>w. w\<lparr>ws_id := next_surface_id s, ws_phase := Enlisted\<rparr>" t p])
       (simp_all add: surface_enlist_def del: in_phase.simps)
next
  case (Publish l u p)
  with st obtain w where "surfaces_of s p = Some w" by (auto split: option.splits)
  with st Publish show ?thesis
    by (intro geometry_update [OF g, of "\<lambda>w. w\<lparr>ws_phase := Published\<rparr>" t p]) (simp_all add: surface_publish_def)
next
  case (Paint color bw d p)
  with st show ?thesis
    by (auto simp: geometry_ok_def surface_paint_def g [unfolded geometry_ok_def] split: option.splits prod.splits if_splits)
next
  case (Unpublish p)
  with st obtain w where "surfaces_of s p = Some w" by (auto split: option.splits)
  with st Unpublish show ?thesis
    by (intro geometry_update [OF g, of "\<lambda>w. w\<lparr>ws_phase := Unpublished\<rparr>" t p]) (simp_all add: surface_unpublish_def)
next
  case (Delist p)
  with st show ?thesis
    by (intro geometry_update [OF g, of "\<lambda>w. w\<lparr>ws_phase := Delisted\<rparr>" t p])
       (simp_all add: surface_delist_def del: in_phase.simps)
next
  case (Free_bits p)
  with assms show ?thesis by (auto simp: geometry_ok_def surface_free_def split: option.splits if_splits)
next
  case (Place sid r v)
  with st geometry_frame [OF g window_steps_same(5)] g show ?thesis by (cases "place_call sid r v") auto
next
  case Bridge_bump
  with assms show ?thesis by (simp add: geometry_ok_def)
next
  case (Bridge_configure w h)
  with assms show ?thesis by (simp add: geometry_ok_def)
qed (use st geometry_frame [OF g] window_steps_same in auto)

lemma reachable_geometry:
  assumes "execution driver_step (start_driver m) as s"
  shows "geometry_ok s"
proof (rule drv.execution_stable [OF _ assms start_driver_inv])
  show "geometry_ok t" if "driver_inv s" "geometry_ok s" "driver_step s l t" for s t l
    using that geometry_step unfolding driver_step_def by blast
  show "geometry_ok (start_driver m)" by (simp add: geometry_ok_def start_driver_def)
qed

lemma registered_surface:
  assumes "execution driver_step (start_driver m) as s"
    and "surface_at (d_surfaces (bridge s)) k = Some hs"
  obtains p w where "surfaces_of s p = Some w" "ws_phase w = Published" "ws_id w = k" "shares p w hs"
  using driver_invD(3) [OF driver_reachable_inv [OF assms(1)]] assms(2) unfolding registered_ok_def by blast

lemma same_id_same_surface:
  assumes "driver_inv s" "surfaces_of s p = Some w" "surfaces_of s q = Some v"
    and "ws_id w = ws_id v" "ws_phase v \<noteq> Allocated"
  shows "p = q \<and> w = v"
proof -
  have "p = q"
    using objectD(5) [OF driver_invD(2) [OF assms(1)] assms(2), of q v]
      objectD(2) [OF driver_invD(2) [OF assms(1)] assms(3)] assms(3-5) by (auto simp: apart_def)
  with assms(2,3) show ?thesis by simp
qed

section \<open>A small run\<close>

text \<open>One surface of two by one pixels is created and handed to the bridge.\<close>

definition drawn :: driver where
  "drawn = surface_publish 1 2 100 (surface_enlist 100 (surface_alloc 5 2 1 100 4096 (start_driver (\<lambda>_. 0))))"

lemma drawn_run:
  "execution driver_step (start_driver (\<lambda>_. 0)) [Alloc 5 2 1 100 4096, Enlist 100, Publish 1 2 100] drawn"
proof -
  let ?s = "start_driver (\<lambda>_. 0)"
  let ?t = "surface_alloc 5 2 1 100 4096 ?s"
  let ?u = "surface_enlist 100 ?t"
  have "driver_step ?s (Alloc 5 2 1 100 4096) ?t"
    by (simp add: driver_step_def start_driver_def fresh_block_def)
  moreover have "driver_step ?t (Enlist 100) ?u"
    by (simp add: driver_step_def start_driver_def surface_alloc_def new_surface_object_def Let_def)
  moreover have "driver_step ?u (Publish 1 2 100) drawn"
    by (simp add: driver_step_def drawn_def)
       (simp add: start_driver_def surface_alloc_def surface_enlist_def new_surface_object_def Let_def)
  ultimately show ?thesis by (auto simp: execution_Cons)
qed

lemma drawn_surface:
  "surfaces_of drawn 100 = Some \<lparr>ws_hwnd = 5, ws_id = 1, ws_host_bits = 4096, ws_width = 2, ws_height = 1,
     ws_stride = 8, ws_flush_count = 0, ws_phase = Published\<rparr>"
  "list_broken drawn = False" "surface_list drawn = [100]"
  by (simp_all add: drawn_def start_driver_def surface_alloc_def surface_enlist_def surface_publish_def
       upd_surface_def call_bridge_def new_surface_object_def Let_def)

lemma drawn_registered:
  "surface_at (d_surfaces (bridge drawn)) 1 = Some (new_surface (info_of 1 2 100 \<lparr>ws_hwnd = 5, ws_id = 1,
     ws_host_bits = 4096, ws_width = 2, ws_height = 1, ws_stride = 8, ws_flush_count = 0, ws_phase = Enlisted\<rparr>))"
proof -
  let ?w = "\<lparr>ws_hwnd = 5, ws_id = 1, ws_host_bits = 4096, ws_width = 2, ws_height = 1,
    ws_stride = 8, ws_flush_count = 0, ws_phase = Enlisted\<rparr>"
  let ?c = "Added (info_of 1 2 100 ?w)"
  have "bridge drawn = callback ?c start_display"
    by (simp add: drawn_def start_driver_def surface_alloc_def surface_enlist_def surface_publish_def
        upd_surface_def call_bridge_def new_surface_object_def Let_def)
  moreover have "driver_ok ?c start_display" by (simp add: start_display_def surface_at_empty)
  ultimately show ?thesis
    using call_lookup [OF start_display_inv, of ?c]
    by (simp add: start_display_def surface_at_empty info_of_def)
qed

section \<open>The contract of the bridge\<close>

text \<open>C21: The driver keeps its side of the contract of the bridge. The calls it makes in a run, in
  their order and with what the app does in between, are a run of the bridge that begins with
  the empty one and ends as the bridge does in the driver's run: each of them is made where the
  contract allows it, so no surface is added under a registered id, and no title is shorter than
  the length the driver announces for it, which is what \<^verbatim>\<open>wcslen\<close> counts in its text.\<close>

theorem driver_keeps_contract:
  assumes "execution driver_step (start_driver m) as s"
  shows "\<exists>!bs. driver_trace (start_driver m) as bs s \<and> execution display_step start_display bs (bridge s)"
proof -
  from run_trace [OF assms] obtain bs where bs: "driver_trace (start_driver m) as bs s" by blast
  have "execution display_step start_display bs (bridge s)"
    using trace_bridge [OF bs start_driver_inv] by (simp add: start_driver_def)
  with bs trace_unique [OF bs] show ?thesis by blast
qed

text \<open>The surface is published and its window gets a title, whose terminator is its third unit.\<close>

definition titled_run :: "drv_act list" where
  "titled_run = [Alloc 5 2 1 100 4096, Enlist 100, Publish 1 2 100] @ [Set_text 5 [72, 105, 0, 9]]"

theorem driver_keeps_contract_witness:
  "\<exists>bs s. driver_trace (start_driver (\<lambda>_. 0)) titled_run bs s \<and>
     execution display_step start_display bs (bridge s) \<and> last bs = Driver (Titled 5 [72, 105, 0, 9] 2)"
proof -
  let ?t = "call_bridge (set_window_text 5 [72, 105, 0, 9]) drawn"
  have st: "driver_step drawn (Set_text 5 [72, 105, 0, 9]) ?t"
    by (simp add: driver_step_def drawn_surface)
  obtain cs where "driver_trace (start_driver (\<lambda>_. 0)) [Alloc 5 2 1 100 4096, Enlist 100, Publish 1 2 100] cs drawn"
    using run_trace [OF drawn_run] by blast
  from trace_snoc [OF this st] have tr: "driver_trace (start_driver (\<lambda>_. 0)) titled_run
      (cs @ [Driver (Titled 5 [72, 105, 0, 9] 2)]) ?t"
    by (simp add: titled_run_def set_window_text_def wcslen_def)
  from driver_keeps_contract [OF execution_snoc [OF drawn_run st]] obtain bs where
    "driver_trace (start_driver (\<lambda>_. 0)) titled_run bs ?t" "execution display_step start_display bs (bridge ?t)"
    unfolding titled_run_def by blast
  moreover from this have "bs = cs @ [Driver (Titled 5 [72, 105, 0, 9] 2)]" using trace_unique [OF _ tr] by blast
  ultimately show ?thesis by (intro exI [of _ bs] exI [of _ ?t]) simp
qed

lemma copied_live:
  assumes "execution driver_step (start_driver m) as s"
    and "copy_surface (pixels s) (d_surfaces (bridge s)) k dst = (True, out, locks)"
  obtains p w where "surfaces_of s p = Some w" "ws_phase w = Published" "ws_id w = k"
    "blocks s (ws_host_bits w) = Some (surface_size w)" "map snd locks = [p, p]"
    "out = map (\<lambda>i. pixels s (unat (ws_host_bits w) + i)) [0..<surface_size w] @ drop (surface_size w) dst"
proof -
  from assms(2) obtain hs where hs: "surface_at (d_surfaces (bridge s)) k = Some hs"
    and out: "out = map (\<lambda>i. pixels s (unat (hs_bits hs) + i)) [0..<unat (hs_stride hs) * unat (gs_height (hs_pub hs))]
        @ drop (unat (hs_stride hs) * unat (gs_height (hs_pub hs))) dst"
      "locks = [(hs_lock hs, hs_lock_ctx hs), (hs_unlock hs, hs_lock_ctx hs)]"
    by (auto simp: copy_surface_def surface_at_def Let_def split: option.splits if_splits)
  from registered_surface [OF assms(1) hs] obtain p w where
    w: "surfaces_of s p = Some w" "ws_phase w = Published" "ws_id w = k" "shares p w hs" by blast
  have "blocks s (ws_host_bits w) = Some (surface_size w)"
    using objectD(1) [OF driver_invD(2) [OF driver_reachable_inv [OF assms(1)]] w(1)] .
  with w out show ?thesis by (intro that [of p w]) (simp_all add: shares_def surface_size_def)
qed

text \<open>C14: What the presenter copies is the memory of a surface that is published and whose pixels are
  allocated at the full length of the copy, under that surface's own lock.\<close>

theorem presenter_reads_live_pixels:
  assumes "execution driver_step (start_driver m) as s"
    and "copy_surface (pixels s) (d_surfaces (bridge s)) k dst = (True, out, locks)"
  shows "\<exists>p w. surfaces_of s p = Some w \<and> ws_phase w = Published \<and> ws_id w = k \<and>
    blocks s (ws_host_bits w) = Some (surface_size w) \<and> map snd locks = [p, p] \<and>
    take (surface_size w) out = map (\<lambda>i. pixels s (unat (ws_host_bits w) + i)) [0..<surface_size w] \<and>
    drop (surface_size w) out = drop (surface_size w) dst"
  by (rule copied_live [OF assms]) auto

lemma copy_registered:
  assumes "surface_at R k = Some hs" "unat (hs_stride hs) * unat (gs_height (hs_pub hs)) = n" "n \<le> length dst"
  shows "copy_surface m R k dst = (True, map (\<lambda>i. m (unat (hs_bits hs) + i)) [0..<n] @ drop n dst,
    [(hs_lock hs, hs_lock_ctx hs), (hs_unlock hs, hs_lock_ctx hs)])"
  using assms by (auto simp: copy_surface_def surface_at_def Let_def split: option.splits)

lemma drawn_copied:
  "copy_surface m (d_surfaces (bridge drawn)) 1 (replicate 8 0) =
     (True, map (\<lambda>i. m (4096 + i)) [0..<8], [(1, 100), (2, 100)])"
  by (subst copy_registered [OF drawn_registered, of 8]) (simp_all add: new_surface_def info_of_def)

theorem presenter_reads_live_pixels_witness:
  "\<exists>p w. surfaces_of drawn p = Some w \<and> ws_phase w = Published \<and> ws_id w = 1 \<and>
    blocks drawn (ws_host_bits w) = Some (surface_size w) \<and> map snd [(1 :: ptr, 100), (2, 100)] = [p, p] \<and>
    take (surface_size w) (map (\<lambda>i. pixels drawn (4096 + i)) [0..<8]) =
      map (\<lambda>i. pixels drawn (unat (ws_host_bits w) + i)) [0..<surface_size w] \<and>
    drop (surface_size w) (map (\<lambda>i. pixels drawn (4096 + i)) [0..<8]) = drop (surface_size w) (replicate 8 0)"
  by (rule presenter_reads_live_pixels [OF drawn_run drawn_copied])

section \<open>A frame\<close>

lemma le_word_slice:
  "i + n \<le> k \<Longrightarrow> le_word (take n (drop i (map (\<lambda>j. m (b + j)) [0..<k] @ rest))) = word_at m (b + i) n"
proof -
  assume le: "i + n \<le> k"
  have "take n (drop i (map (\<lambda>j. m (b + j)) [0..<k] @ rest)) = map (\<lambda>j. m (b + i + j)) [0..<n]"
    using le by (intro nth_equalityI) (auto simp: nth_append add.assoc)
  moreover have "map m [b + i..<b + i + n] = map (\<lambda>j. m (b + i + j)) [0..<n]"
    by (intro nth_equalityI) simp_all
  ultimately show ?thesis by (simp only: word_at_def peek_def)
qed

lemma stride_exact: "unat w < 2 ^ 30 \<Longrightarrow> unat (w * 4 :: u32) = 4 * unat w"
  by (simp add: unat_word_ariths)

lemma positive_int: "unat w < 2 ^ 31 \<Longrightarrow> 0 \<le> sint (w :: u32)"
proof -
  assume "unat w < 2 ^ 31"
  then have "int (unat w) < int (2 ^ 31)" by (simp only: of_nat_less_iff)
  then have "uint w div 2 ^ 31 = 0" by (intro div_pos_pos_trivial) simp_all
  then have "\<not> bit (uint w) 31" by (simp add: bit_iff_odd)
  then show ?thesis using bit_last_iff [of w] by (simp add: bit_uint_iff)
qed

lemma flush_limits:
  assumes "unat (ws_width w) < 2 ^ 30" "surface_size w < 2 ^ 32"
    and "unat (ws_stride w) = 4 * unat (ws_width w)" "x < unat (ws_width w)" "y < unat (ws_height w)"
  shows "0 \<le> sint (ws_width w)" "0 \<le> sint (ws_height w)"
proof -
  show "0 \<le> sint (ws_width w)" using assms(1) by (intro positive_int) simp
  have "4 * unat (ws_height w) \<le> unat (ws_stride w) * unat (ws_height w)"
    using assms(3,4) by (intro mult_le_mono1) linarith
  then have "4 * unat (ws_height w) < 2 ^ 32" using assms(2) by (simp only: surface_size_def)
  then show "0 \<le> sint (ws_height w)"
    by (intro positive_int) simp
qed

lemma pixel_inside:
  assumes "unat (ws_stride w) = 4 * unat (ws_width w)" "x < unat (ws_width w)" "y < unat (ws_height w)"
  shows "y * unat (ws_stride w) + 4 * x + 4 \<le> surface_size w"
proof -
  have "(y + 1) * unat (ws_stride w) \<le> unat (ws_height w) * unat (ws_stride w)"
    using assms(3) by (intro mult_le_mono1) simp
  then show ?thesis using assms(1,2) by (simp add: surface_size_def algebra_simps)
qed

lemma paint_pixels:
  "surfaces_of s p = Some w \<Longrightarrow> pixels (snd (surface_paint color bw dirty p s)) =
     snd (flush_pixels color bw (unat (ws_host_bits w)) (ws_width w) (ws_height w) (ws_stride w) dirty (pixels s))"
  by (auto simp: surface_paint_def flush_pixels_def Let_def split: option.splits)

lemma paint_surface:
  "surfaces_of s p = Some w \<Longrightarrow> \<exists>w'. surfaces_of (snd (surface_paint color bw dirty p s)) p = Some w' \<and>
     ws_phase w' = ws_phase w \<and> ws_id w' = ws_id w \<and> ws_host_bits w' = ws_host_bits w \<and>
     surface_size w' = surface_size w"
  by (auto simp: surface_paint_def split: option.splits prod.splits)

lemma blocks_apart:
  assumes "driver_inv s" "surfaces_of s p = Some w" "surfaces_of s q = Some v" "q \<noteq> p"
  shows "unat (ws_host_bits w) + surface_size w \<le> unat (ws_host_bits v) \<or>
    unat (ws_host_bits v) + surface_size v \<le> unat (ws_host_bits w)"
  using driver_invD(5) [OF assms(1)] objectD(1) [OF driver_invD(2) [OF assms(1)] assms(2)]
    objectD(1) [OF driver_invD(2) [OF assms(1)] assms(3)]
    objectD(5) [OF driver_invD(2) [OF assms(1)] assms(2) assms(4) assms(3)]
  unfolding heap_ok_def apart_def by blast

text \<open>C15: A flush, as the app sees it, of a surface narrower than 2^30 pixels and smaller than 2^32
  bytes (the driver computes in 32 bits): in the copy the presenter then takes, a pixel inside the
  dirty rectangle is the guest's with full alpha, a pixel outside it is what it was; and the pixels
  of every other surface there is are untouched.\<close>

theorem frame_reaches_presenter:
  assumes run: "execution driver_step (start_driver m) as s" and p: "surfaces_of s p = Some w"
    and step: "driver_step s (Paint color bi_width dirty p) t"
    and small: "unat (ws_width w) < 2 ^ 30" "surface_size w < 2 ^ 32"
    and copy: "copy_surface (pixels t) (d_surfaces (bridge t)) (ws_id w) dst = (True, out, locks)"
    and xy: "x < unat (ws_width w)" "y < unat (ws_height w)"
  shows "le_word (take 4 (drop (y * unat (ws_stride w) + 4 * x) out)) =
      (if in_rect (int x) (int y) dirty
       then word_at color (unat (of_nat y * (bi_width * 4)) + 4 * x) 4 OR 0xff000000
       else word_at (pixels s) (unat (ws_host_bits w) + y * unat (ws_stride w) + 4 * x) 4 :: u32)
    \<and> (\<forall>q v i. q \<noteq> p \<longrightarrow> surfaces_of s q = Some v \<longrightarrow> i < surface_size v \<longrightarrow>
         pixels t (unat (ws_host_bits v) + i) = pixels s (unat (ws_host_bits v) + i))"
proof -
  from step have ph: "in_phase p Published s" and t: "t = snd (surface_paint color bi_width dirty p s)"
    by (simp_all add: driver_step_def del: in_phase.simps)
  from ph p have w: "ws_phase w = Published" by simp
  note inv = driver_reachable_inv [OF run]
  have st: "unat (ws_stride w) = 4 * unat (ws_width w)"
    using reachable_geometry [OF run] p small(1) stride_exact by (simp add: geometry_ok_def)
  note limits = st small(2) [unfolded surface_size_def] flush_limits [OF small st xy]
  obtain dmg where fl: "flush_pixels color bi_width (unat (ws_host_bits w)) (ws_width w) (ws_height w)
      (ws_stride w) dirty (pixels s) = (dmg, pixels t)"
    using paint_pixels [OF p] unfolding t by (metis prod.collapse)
  obtain w' where w': "surfaces_of t p = Some w'" "ws_phase w' = Published" "ws_id w' = ws_id w"
    "ws_host_bits w' = ws_host_bits w" "surface_size w' = surface_size w"
    using paint_surface [OF p, of color bi_width dirty] w unfolding t by auto
  note run' = execution_snoc [OF run step]
  from copied_live [OF run' copy] obtain r u where
    u: "surfaces_of t r = Some u" "ws_phase u = Published" "ws_id u = ws_id w"
      "out = map (\<lambda>i. pixels t (unat (ws_host_bits u) + i)) [0..<surface_size u] @ drop (surface_size u) dst"
    by metis
  with same_id_same_surface [OF driver_reachable_inv [OF run'] w'(1), of r u] w' have "u = w'" by simp
  with u(4) w' have out: "out = map (\<lambda>i. pixels t (unat (ws_host_bits w) + i)) [0..<surface_size w]
      @ drop (surface_size w) dst" by simp
  from le_word_slice [OF pixel_inside [OF st xy], of "pixels t" "unat (ws_host_bits w)"]
  have "le_word (take 4 (drop (y * unat (ws_stride w) + 4 * x) out)) =
      (word_at (pixels t) (unat (ws_host_bits w) + y * unat (ws_stride w) + 4 * x) 4 :: u32)"
    unfolding out by (simp only: add.assoc)
  moreover have "pixels t (unat (ws_host_bits v) + i) = pixels s (unat (ws_host_bits v) + i)"
    if other: "q \<noteq> p" "surfaces_of s q = Some v" "i < surface_size v" for q v i
  proof (rule flush_pixels_inside [OF fl limits])
    have "unat (ws_host_bits w) + surface_size w \<le> unat (ws_host_bits v) \<or>
        unat (ws_host_bits v) + surface_size v \<le> unat (ws_host_bits w)"
      by (rule blocks_apart [OF inv p other(2)]) (use other(1) in simp)
    with other(3) show "unat (ws_host_bits v) + i < unat (ws_host_bits w) \<or>
        unat (ws_host_bits w) + unat (ws_stride w) * unat (ws_height w) \<le> unat (ws_host_bits v) + i"
      by (auto simp: surface_size_def)
  qed
  ultimately show ?thesis using flush_pixels_exact [OF fl limits xy] by simp
qed

text \<open>With a second surface, still without an id, beside the first.\<close>

definition drawn2 :: driver where
  "drawn2 = surface_alloc 6 1 1 200 8192 drawn"

lemma drawn2_run:
  "execution driver_step (start_driver (\<lambda>_. 0))
     ([Alloc 5 2 1 100 4096, Enlist 100, Publish 1 2 100] @ [Alloc 6 1 1 200 8192]) drawn2"
proof (rule execution_snoc [OF drawn_run])
  have "surfaces_of drawn 200 = None" "blocks drawn = [4096 \<mapsto> 8]"
    by (simp_all add: drawn_def start_driver_def surface_alloc_def surface_enlist_def surface_publish_def
       upd_surface_def call_bridge_def new_surface_object_def surface_size_def Let_def)
  then show "driver_step drawn (Alloc 6 1 1 200 8192) drawn2"
    by (simp add: driver_step_def drawn_surface drawn2_def fresh_block_def)
qed

lemma drawn2_sel:
  "surfaces_of drawn2 = (surfaces_of drawn)(200 := Some (new_surface_object 6 1 1 8192))"
  "bridge drawn2 = bridge drawn" "list_broken drawn2 = False"
  by (simp_all add: drawn2_def surface_alloc_def drawn_surface Let_def)

definition drawn3 :: driver where
  "drawn3 = snd (surface_paint (\<lambda>_. 7) 2 \<lparr>r_left = 1, r_top = 0, r_right = 9, r_bottom = 9\<rparr> 100 drawn2)"

lemma drawn2_paint:
  "driver_step drawn2 (Paint (\<lambda>_. 7) 2 \<lparr>r_left = 1, r_top = 0, r_right = 9, r_bottom = 9\<rparr> 100) drawn3"
  by (simp add: drawn3_def driver_step_def drawn2_sel drawn_surface)

lemma drawn2_painted_copy:
  "copy_surface m (d_surfaces (bridge (snd (surface_paint color bw d 100 drawn2)))) 1 (replicate 8 0) =
     (True, map (\<lambda>i. m (4096 + i)) [0..<8], [(1, 100), (2, 100)])"
  by (simp only: silent_steps drawn2_sel drawn_copied)

theorem frame_reaches_presenter_witness:
  "le_word (take 4 (drop 4 (map (\<lambda>i. pixels drawn3 (4096 + i)) [0..<8]))) = (0xff070707 :: u32)
    \<and> pixels drawn3 8192 = pixels drawn2 8192"
proof -
  have w: "surfaces_of drawn2 100 = Some \<lparr>ws_hwnd = 5, ws_id = 1, ws_host_bits = 4096, ws_width = 2,
    ws_height = 1, ws_stride = 8, ws_flush_count = 0, ws_phase = Published\<rparr>" (is "_ = Some ?w")
    by (simp add: drawn2_sel drawn_surface)
  have v: "surfaces_of drawn2 200 = Some (new_surface_object 6 1 1 8192)"
    by (simp add: drawn2_sel)
  have "copy_surface (pixels drawn3) (d_surfaces (bridge drawn3)) (ws_id ?w) (replicate 8 0) =
     (True, map (\<lambda>i. pixels drawn3 (4096 + i)) [0..<8], [(1, 100), (2, 100)])"
    unfolding drawn3_def by (simp only: ios_window_surface.simps drawn2_painted_copy)
  note F = frame_reaches_presenter [OF drawn2_run w drawn2_paint _ _ this, of 1 0]
  have "le_word (take 4 (drop 4 (map (\<lambda>i. pixels drawn3 (4096 + i)) [0..<8]))) = (0xff070707 :: u32)"
    using F by (simp add: surface_size_def in_rect_def word_at_def peek_def upt_rec)
  moreover have "\<forall>i. i < surface_size (new_surface_object 6 1 1 8192) \<longrightarrow>
      pixels drawn3 (unat (ws_host_bits (new_surface_object 6 1 1 8192)) + i) =
      pixels drawn2 (unat (ws_host_bits (new_surface_object 6 1 1 8192)) + i)"
    by (intro allI impI, rule F [THEN conjunct2, rule_format, OF _ _ _ _ _ v])
       (simp_all add: surface_size_def)
  ultimately show ?thesis by (auto simp: new_surface_object_def surface_size_def dest: spec [of _ 0])
qed

section \<open>Ids\<close>

lemma lookup_shown:
  assumes "execution driver_step (start_driver m) as s" "surface_at (d_surfaces (bridge s)) k = Some hs"
  shows "hwnd_from_surface_id k s = gs_hwnd (hs_pub hs)"
proof -
  note inv = driver_reachable_inv [OF assms(1)]
  from registered_surface [OF assms] obtain p w where
    w: "surfaces_of s p = Some w" "ws_phase w = Published" "ws_id w = k" "shares p w hs" by metis
  then have "p \<in> set (surface_list s)" using driver_invD(4) [OF inv] unfolding list_ok_def by auto
  with w obtain q where q: "find (\<lambda>p. map_option ws_id (surfaces_of s p) = Some k) (surface_list s) = Some q"
    by (cases "find (\<lambda>p. map_option ws_id (surfaces_of s p) = Some k) (surface_list s)")
       (auto simp: find_None_iff)
  then obtain v where v: "surfaces_of s q = Some v" "ws_id v = k" by (auto simp: find_Some_iff)
  from same_id_same_surface [OF inv v(1) w(1)] v w have "v = w" by simp
  with q v w(4) show ?thesis by (simp add: hwnd_from_surface_id_def shares_def)
qed

lemma lookup_unknown:
  "(\<And>p w. p \<in> set (surface_list s) \<Longrightarrow> surfaces_of s p = Some w \<Longrightarrow> ws_id w \<noteq> k) \<Longrightarrow>
   hwnd_from_surface_id k s = 0"
proof -
  assume "\<And>p w. p \<in> set (surface_list s) \<Longrightarrow> surfaces_of s p = Some w \<Longrightarrow> ws_id w \<noteq> k"
  then have "find (\<lambda>p. map_option ws_id (surfaces_of s p) = Some k) (surface_list s) = None"
    by (auto simp: find_None_iff)
  then show ?thesis by (simp add: hwnd_from_surface_id_def)
qed

text \<open>An event goes to the window the app saw: one for a surface the bridge shows is sent to the
  window the bridge shows for it, one whose id no listed surface has, or without an id, to the
  foreground window.\<close>

theorem event_reaches_shown_window:
  assumes "execution driver_step (start_driver m) as s"
  shows "(\<forall>hs. surface_at (d_surfaces (bridge s)) (ev_surface_id ev) = Some hs \<longrightarrow>
      gs_hwnd (hs_pub hs) \<noteq> 0 \<longrightarrow> event_target foreground ev s = gs_hwnd (hs_pub hs))
    \<and> (ev_surface_id ev = 0 \<or>
       (\<forall>p \<in> set (surface_list s). \<forall>w. surfaces_of s p = Some w \<longrightarrow> ws_id w \<noteq> ev_surface_id ev) \<longrightarrow>
      event_target foreground ev s = foreground)"
proof (intro conjI allI impI)
  fix hs
  assume hs: "surface_at (d_surfaces (bridge s)) (ev_surface_id ev) = Some hs" "gs_hwnd (hs_pub hs) \<noteq> 0"
  from registered_surface [OF assms hs(1)] obtain p w where
    w: "surfaces_of s p = Some w" "ws_phase w = Published" "ws_id w = ev_surface_id ev" by metis
  with objectD(2) [OF driver_invD(2) [OF driver_reachable_inv [OF assms]] w(1)]
  have "ev_surface_id ev \<noteq> 0" by auto
  with hs lookup_shown [OF assms hs(1)] show "event_target foreground ev s = gs_hwnd (hs_pub hs)"
    by (simp add: event_target_def)
next
  assume "ev_surface_id ev = 0 \<or>
       (\<forall>p \<in> set (surface_list s). \<forall>w. surfaces_of s p = Some w \<longrightarrow> ws_id w \<noteq> ev_surface_id ev)"
  then show "event_target foreground ev s = foreground"
    using lookup_unknown [of s "ev_surface_id ev"] by (auto simp: event_target_def)
qed

theorem event_reaches_shown_window_witness:
  "event_target 9 (send_mouse_move 1 3 4) drawn = 5 \<and> event_target 9 (send_mouse_move 2 3 4) drawn = 9"
  using event_reaches_shown_window [OF drawn_run, of "send_mouse_move 1 3 4" 9]
    event_reaches_shown_window [OF drawn_run, of "send_mouse_move 2 3 4" 9] drawn_registered
  by (simp add: drawn_surface send_mouse_move_def) (simp add: new_surface_def info_of_def)

section \<open>The end of a surface\<close>

lemma unbroken_steps:
  assumes "driver_inv s" "driver_step s a t"
  shows "list_broken t \<longleftrightarrow> (\<exists>hw w h p. a = Alloc_fails hw w h p)"
proof (cases a)
  case (Alloc_fails hw w h p)
  with assms(2) failed_alloc(3) [of s hw w h p t] show ?thesis by (simp add: driver_step_def)
next
  case (Delist p)
  with assms delist_inv(2) [of s p] show ?thesis by (simp add: driver_step_def del: in_phase.simps)
qed (use assms(2) in \<open>auto simp: driver_step_def surface_alloc_def surface_enlist_def surface_publish_def
      surface_paint_def surface_unpublish_def surface_free_def window_pos_changing_def ios_win_data_create_def
      window_pos_changed_def bind_surface_def destroy_window_def Let_def
      split: option.splits prod.splits if_splits\<close>)

text \<open>An entry that is not in the surface list is removed from it exactly when the pixels of a new
  surface could not be allocated.\<close>

theorem list_breaks_on_failed_alloc:
  assumes "execution driver_step (start_driver m) (as @ [a]) s"
  shows "list_broken s \<longleftrightarrow> (\<exists>hw w h p. a = Alloc_fails hw w h p)"
proof -
  from assms obtain t where "execution driver_step (start_driver m) as t" "driver_step t a s"
    by (auto simp: execution_append execution_Cons)
  with unbroken_steps driver_reachable_inv show ?thesis by metis
qed

lemma drawn_fails:
  "driver_step drawn (Alloc_fails 6 1 1 200) (surface_delist 200 (surface_unpublish 200
      (drawn\<lparr>surfaces_of := (surfaces_of drawn)(200 := Some (new_surface_object 6 1 1 0))\<rparr>))
      \<lparr>surfaces_of := surfaces_of drawn\<rparr>)"
proof -
  have "surfaces_of drawn 200 = None"
    by (simp add: drawn_def start_driver_def surface_alloc_def surface_enlist_def surface_publish_def
       upd_surface_def call_bridge_def new_surface_object_def surface_size_def Let_def)
  then show ?thesis by (simp add: driver_step_def drawn_surface)
qed

theorem list_breaks_on_failed_alloc_witness:
  "list_broken (surface_delist 200 (surface_unpublish 200
      (drawn\<lparr>surfaces_of := (surfaces_of drawn)(200 := Some (new_surface_object 6 1 1 0))\<rparr>))
      \<lparr>surfaces_of := surfaces_of drawn\<rparr>)"
  using list_breaks_on_failed_alloc [OF execution_snoc [OF drawn_run drawn_fails]] by blast

text \<open>A published surface can be taken back: the three steps of its destruction are possible one
  after the other, and at their end the app cannot see it, its id leads nowhere and its memory
  is free, while every other surface and every other block is as before.\<close>

theorem destroy_takes_everything:
  assumes run: "execution driver_step (start_driver m) as s" and ok: "\<not> list_broken s"
    and p: "surfaces_of s p = Some w" "ws_phase w = Published"
  shows "\<exists>t. execution driver_step s [Unpublish p, Delist p, Free_bits p] t \<and>
    surface_at (d_surfaces (bridge t)) = (surface_at (d_surfaces (bridge s)))(ws_id w := None) \<and>
    hwnd_from_surface_id (ws_id w) t = 0 \<and> blocks t = (blocks s)(ws_host_bits w := None) \<and>
    surfaces_of t = (surfaces_of s)(p := None) \<and> surface_list t = remove1 p (surface_list s)"
proof -
  note inv = driver_reachable_inv [OF run]
  let ?u = "surface_unpublish p s"
  let ?v = "surface_delist p ?u"
  let ?t = "surface_free p ?v"
  have u: "driver_step s (Unpublish p) ?u" using ok p by (simp add: driver_step_def)
  have us: "surfaces_of ?u p = Some (w\<lparr>ws_phase := Unpublished\<rparr>)" "list_broken ?u = list_broken s"
    by (simp_all add: surface_unpublish_def p)
  have v: "driver_step ?u (Delist p) ?v" using ok us by (simp add: driver_step_def)
  have iu: "driver_inv ?u" using unpublish_inv [OF inv, of p] p by simp
  have "\<not> list_broken ?v" using delist_inv(2) [OF iu, of p] us ok by simp
  moreover have vs: "surfaces_of ?v p = Some (w\<lparr>ws_phase := Delisted\<rparr>)" by (simp add: surface_delist_def us)
  ultimately have t: "driver_step ?v (Free_bits p) ?t" by (simp add: driver_step_def)
  from u v t have ex: "execution driver_step s [Unpublish p, Delist p, Free_bits p] ?t"
    by (auto simp: execution_Cons)
  have ts: "surfaces_of ?t = (surfaces_of s)(p := None)" "surface_list ?t = remove1 p (surface_list s)"
    "blocks ?t = (blocks s)(ws_host_bits w := None)" "bridge ?t = callback (Removed (ws_id w)) (bridge s)"
    by (simp_all add: surface_free_def surface_delist_def surface_unpublish_def p)
  have "surface_at (d_surfaces (bridge ?t)) = (surface_at (d_surfaces (bridge s)))(ws_id w := None)"
    using call_lookup [OF driver_invD(1) [OF inv], of "Removed (ws_id w)"] by (simp add: ts(4))
  moreover have "hwnd_from_surface_id (ws_id w) ?t = 0"
  proof -
    have "map_option ws_id (surfaces_of ?t q) \<noteq> Some (ws_id w)" for q
      using same_id_same_surface [OF inv _ p(1), of q] p(2) by (auto simp: ts(1))
    then have "find (\<lambda>q. map_option ws_id (surfaces_of ?t q) = Some (ws_id w)) (surface_list ?t) = None"
      by (auto simp: find_None_iff)
    then show ?thesis by (simp add: hwnd_from_surface_id_def)
  qed
  ultimately show ?thesis using ex ts(1-3) by blast
qed

theorem destroy_takes_everything_witness:
  "\<exists>t. execution driver_step drawn [Unpublish 100, Delist 100, Free_bits 100] t \<and>
    surface_at (d_surfaces (bridge t)) = (surface_at (d_surfaces (bridge drawn)))(1 := None) \<and>
    hwnd_from_surface_id 1 t = 0 \<and> blocks t = (blocks drawn)(4096 := None) \<and>
    surfaces_of t = (surfaces_of drawn)(100 := None) \<and> surface_list t = remove1 100 (surface_list drawn)"
  using destroy_takes_everything [OF drawn_run _ drawn_surface(1)] drawn_surface(2) by simp

end
