(* ===== verification/DriverInputProps.thy ===== *)
theory DriverInputProps
  imports DriverProps
begin

text \<open>
  The way of the input, from the app's call to the hardware input of a window.
\<close>

section \<open>The input pump\<close>

fun app_sends :: "pump_act list \<Rightarrow> wineios_event list" where
  "app_sends [] = []"
| "app_sends (App_sends ev # tr) = ev # app_sends tr"
| "app_sends (_ # tr) = app_sends tr"

lemma polled_input [simp]: "pm_input (pump_polled i inp s) = inp"
  by (simp add: pump_polled_def split: waiter.split)

lemma pump_send_input [simp]: "pm_input (pump_send i h xs s) = pm_input s"
  by (cases xs) simp_all

lemma pump_input_step:
  assumes "pump_step s a t"
  shows "\<exists>ins. execution input_step (pm_input s) ins (pm_input t) \<and> sends ins = app_sends [a]"
proof (cases a)
  case (Poll i b)
  with assms show ?thesis
    by (intro exI [of _ "[b]"]) (auto intro!: execution_one simp del: input_step.simps)
next
  case (App_sends ev)
  with assms show ?thesis by (intro exI [of _ "[Send ev]"]) (simp add: execution_one)
next
  case (Enter i h)
  with assms show ?thesis by (intro exI [of _ "[]"]) (simp add: pump_enter_def)
qed (use assms in \<open>auto intro!: exI [of _ "[]"] simp: pump_lookup_def\<close>)

lemma sends_append: "sends (as @ bs) = sends as @ sends bs"
  by (induction as rule: sends.induct) simp_all

lemma pump_input_run:
  "execution pump_step s tr t \<Longrightarrow>
     \<exists>ins. execution input_step (pm_input s) ins (pm_input t) \<and> sends ins = app_sends tr"
proof (induction rule: execution.induct)
  case (stop s)
  show ?case by (intro exI [of _ "[]"]) simp
next
  case (move s a u tr t)
  from move.IH pump_input_step [OF move.hyps(1)] obtain as bs where
    "execution input_step (pm_input s) as (pm_input u)" "sends as = app_sends [a]"
    "execution input_step (pm_input u) bs (pm_input t)" "sends bs = app_sends tr" by blast
  moreover have "app_sends (a # tr) = app_sends [a] @ app_sends tr" by (cases a) simp_all
  ultimately show ?case
    by (intro exI [of _ "as @ bs"]) (auto simp: execution_append sends_append)
qed

lemma pump_reachable_inv: "execution pump_step (start_pump m) tr s \<Longrightarrow> pump_inv s"
  by (rule pumps.reachable_inv) blast

text \<open>C16: What the app sends reaches the guest: the hardware inputs sent so far are those of the
  accepted events in their order, without a gap or a repetition, and all of them when nothing is
  queued or in the pump's hands; and all that was sent was accepted while at most 512 events
  were sent.\<close>

theorem input_reaches_guest_in_order:
  assumes "execution pump_step (start_pump m) tr s"
  shows "\<exists>evs. subseq evs (app_sends tr) \<and> (length (app_sends tr) \<le> QUEUE_LEN \<longrightarrow> evs = app_sends tr) \<and>
    prefix (map snd (pm_sent s)) (concat (map event_inputs evs)) \<and>
    (q_count (i_queue (pm_input s)) = 0 \<and> (\<forall>i. pm_pc s i \<in> {Out, Looping}) \<longrightarrow>
       map snd (pm_sent s) = concat (map event_inputs evs))"
proof -
  let ?queued = "q_items (i_queue (pm_input s))"
  from pump_input_run [OF assms] obtain ins where
    run: "execution input_step start_input ins (pm_input s)" "sends ins = app_sends tr"
    by (auto simp: start_pump_def)
  from input_accepted [OF run(1)] obtain ls where
    ls: "puts ls = app_sends tr" "delivered (pm_input s) @ ?queued = accepted QUEUE_LEN 0 ls"
    using run(2) by auto
  from pump_reachable_inv [OF assms] obtain i c where c: "pm_pc s = (\<lambda>_. Out)(i := c)" "pump_at c s"
    unfolding pump_inv_def by blast
  then have pre: "prefix (map snd (pm_sent s)) (concat (map event_inputs (delivered (pm_input s))))"
    by (cases c) (auto simp: prefix_def intro: sym)
  have all: "map snd (pm_sent s) = concat (map event_inputs (delivered (pm_input s)))"
    if "\<forall>i. pm_pc s i \<in> {Out, Looping}"
    using that c by (cases c) (auto dest: spec [of _ i])
  show ?thesis
  proof (intro exI [of _ "delivered (pm_input s) @ ?queued"] conjI impI)
    show "subseq (delivered (pm_input s) @ ?queued) (app_sends tr)"
      using ls accepted_subseq [of QUEUE_LEN 0 ls] by simp
    show "delivered (pm_input s) @ ?queued = app_sends tr" if "length (app_sends tr) \<le> QUEUE_LEN"
      using that ls accepted_all [of 0 ls QUEUE_LEN] by simp
    show "prefix (map snd (pm_sent s)) (concat (map event_inputs (delivered (pm_input s) @ ?queued)))"
      using pre by (simp add: prefix_def) (metis append.assoc)
    show "map snd (pm_sent s) = concat (map event_inputs (delivered (pm_input s) @ ?queued))"
      if "q_count (i_queue (pm_input s)) = 0 \<and> (\<forall>i. pm_pc s i \<in> {Out, Looping})"
      using that all by (simp add: q_items_def)
  qed
qed

text \<open>A thread enters the pump and takes a character from the app to the foreground window.\<close>

lemma drawn_pump:
  obtains s where
    "execution pump_step (start_pump (\<lambda>_. 0))
       [Enter 0 True, App_sends (send_char 0x41), Poll 0 Next, Lookup 0 9, Inject 0] s"
    "map fst (pm_sent s) = [9]" "pm_pc s 0 \<noteq> Out"
proof -
  let ?a = "start_pump (\<lambda>_. 0)"
  define b where "b = pump_enter True 0 ?a"
  define c where "c = b\<lparr>pm_input := send (send_char 0x41) (pm_input b)\<rparr>"
  define d where "d = pump_polled 0 (next_event_test (pm_input c)) c"
  define e where "e = pump_lookup 0 9 (send_char 0x41) d"
  note defs = b_def start_pump_def start_input_def pump_enter_def send_def
  have b: "pump_step ?a (Enter 0 True) b" by (simp add: start_pump_def b_def)
  have c: "pump_step b (App_sends (send_char 0x41)) c" by (simp add: c_def)
  have c': "pm_pc c 0 = Looping" "i_wait (pm_input c) = Idle 0"
    "i_queue (pm_input c) = enqueue (send_char 0x41) empty_queue" "delivered (pm_input c) = []"
    "pm_sent c = []"
    by (simp_all add: c_def defs empty_queue_def)
  then have d: "pump_step c (Poll 0 Next) d" by (simp add: d_def)
  have "dequeue (enqueue (send_char 0x41) empty_queue) =
      Some (send_char 0x41, (enqueue (send_char 0x41) empty_queue)\<lparr>q_head := 1, q_count := 0\<rparr>)"
    by (simp add: dequeue_def enqueue_def empty_queue_def)
  with c' have d': "pm_pc d 0 = Got (send_char 0x41)" "pm_sent d = []"
    by (simp_all add: d_def pump_polled_def next_event_test_def)
  then have e: "pump_step d (Lookup 0 9) e" by (simp add: e_def)
  have e': "pm_pc e 0 = Sending 9 (event_inputs (send_char 0x41))" "pm_sent e = []"
    by (simp_all add: e_def pump_lookup_def d' event_target_def send_char_def zero_event_def)
  let ?f = "pump_send 0 9 (event_inputs (send_char 0x41)) e"
  have f: "pump_step e (Inject 0) ?f" using e' by simp
  show ?thesis
  proof (rule that [of ?f])
    show "execution pump_step ?a [Enter 0 True, App_sends (send_char 0x41), Poll 0 Next, Lookup 0 9, Inject 0] ?f"
      using b c d e f by (blast intro: execution.intros)
    show "map fst (pm_sent ?f) = [9]" "pm_pc ?f 0 \<noteq> Out"
      by (simp_all add: event_inputs_def send_char_def zero_event_def e')
  qed
qed

theorem input_reaches_guest_in_order_witness:
  "\<exists>s :: pump. map fst (pm_sent s) = [9] \<and> prefix (map snd (pm_sent s)) (event_inputs (send_char 0x41))"
proof -
  obtain s where s: "execution pump_step (start_pump (\<lambda>_. 0))
       [Enter 0 True, App_sends (send_char 0x41), Poll 0 Next, Lookup 0 9, Inject 0] s"
    "map fst (pm_sent s) = [9]" by (rule drawn_pump)
  from input_reaches_guest_in_order [OF s(1)]
  have "prefix (map snd (pm_sent s)) (event_inputs (send_char 0x41))" by (elim exE conjE) simp
  with s(2) have "map fst (pm_sent s) = [9] \<and> prefix (map snd (pm_sent s)) (event_inputs (send_char 0x41))" ..
  then show ?thesis by (rule exI [of _ s])
qed

text \<open>However many threads call the loop, one drains the queue, and it stays: two threads inside
  are the same one, the claim is held while it is inside, and no later step takes it out.\<close>

theorem one_pump_drains:
  assumes "execution pump_step (start_pump m) tr s" "pm_pc s i \<noteq> Out"
  shows "(pm_pc s j \<noteq> Out \<longrightarrow> j = i) \<and> input_loop_claimed s \<and>
    (execution pump_step s tr' t \<longrightarrow> pm_pc t i \<noteq> Out)"
proof (intro conjI impI)
  note inv = pump_reachable_inv [OF assms(1)]
  show "j = i" if "pm_pc s j \<noteq> Out"
    using pump_invE(1) [OF inv refl assms(2)] that by (metis fun_upd_other)
  show "input_loop_claimed s" by (rule pump_invE(2) [OF inv refl assms(2)])
  show "pm_pc t i \<noteq> Out" if "execution pump_step s tr' t"
  proof (rule pumps.execution_stable [where P = "\<lambda>u. pm_pc u i \<noteq> Out", OF _ that inv assms(2)])
    fix u a v
    assume u: "pump_inv u" "pm_pc u i \<noteq> Out" "pump_step u a v"
    note P = pump_invE [OF u(1) refl u(2)]
    show "pm_pc v i \<noteq> Out"
    proof (cases a)
      case (Enter k h)
      with u P show ?thesis by (auto simp: pump_enter_def)
    next
      case (Poll k b)
      with u obtain inp where k: "pm_pc u k = Looping" "b \<in> {Next, Wake_up, Timed_out}"
        "input_step (pm_input u) b inp" "v = pump_polled k inp u" by (auto simp del: input_step.simps)
      from k(3,2) show ?thesis
        by (cases rule: poll_cases) (use u(2) k(4) in \<open>auto simp: pump_polled_def\<close>)
    next
      case (Inject k)
      with u obtain h xs where "pm_pc u k = Sending h xs" "v = pump_send k h xs u" by auto
      with u(2) show ?thesis by (cases xs) auto
    qed (use u in \<open>auto simp: pump_lookup_def split: if_splits\<close>)
  qed
qed

theorem one_pump_drains_witness:
  "\<exists>s :: pump. pm_pc s 0 \<noteq> Out \<and> pm_pc s 1 = Out \<and> input_loop_claimed s"
proof -
  obtain s where s: "execution pump_step (start_pump (\<lambda>_. 0))
       [Enter 0 True, App_sends (send_char 0x41), Poll 0 Next, Lookup 0 9, Inject 0] s"
    "pm_pc s 0 \<noteq> Out" by (rule drawn_pump)
  from one_pump_drains [OF s, of 1 "[]" s] s(2) show ?thesis by (intro exI [of _ s]) simp
qed

end
