(* ===== verification/CText.thy ===== *)
theory CText
  imports Prelude
begin

text \<open>
  The two conversions between numbers and text that the programs use: \<^verbatim>\<open>strtoul\<close>
  with base 0, and the decimal conversions of \<^verbatim>\<open>printf\<close>.
\<close>

section \<open>Text to number\<close>

text \<open>\<^verbatim>\<open>strtoul(s, NULL, 0)\<close> with a 64-bit \<^verbatim>\<open>unsigned long\<close>, in the C locale.\<close>

definition c_isspace :: "char \<Rightarrow> bool" where
  "c_isspace c \<longleftrightarrow> c \<in> {CHR 0x20, CHR 0x09, CHR 0x0A, CHR 0x0B, CHR 0x0C, CHR 0x0D}"

definition digit_value :: "nat \<Rightarrow> char \<Rightarrow> nat option" where
  "digit_value base c =
     (let n = of_char c :: nat;
          v = (if 48 \<le> n \<and> n \<le> 57 then n - 48
               else if 97 \<le> n \<and> n \<le> 122 then n - 87
               else if 65 \<le> n \<and> n \<le> 90 then n - 55 else base)
      in if v < base then Some v else None)"

fun digits_value :: "nat \<Rightarrow> nat \<Rightarrow> string \<Rightarrow> nat" where
  "digits_value base acc [] = acc"
| "digits_value base acc (c # cs) =
     (case digit_value base c of None \<Rightarrow> acc | Some d \<Rightarrow> digits_value base (acc * base + d) cs)"

definition strip_sign :: "string \<Rightarrow> bool \<times> string" where
  "strip_sign s =
     (case s of
        [] \<Rightarrow> (False, [])
      | c # cs \<Rightarrow> if c = CHR ''-'' then (True, cs) else if c = CHR ''+'' then (False, cs) else (False, s))"

definition hex_prefix :: "string \<Rightarrow> bool" where
  "hex_prefix s = (case s of
       a # b # c # _ \<Rightarrow> a = CHR ''0'' \<and> (b = CHR ''x'' \<or> b = CHR ''X'') \<and> digit_value 16 c \<noteq> None
     | _ \<Rightarrow> False)"

definition strtoul :: "string \<Rightarrow> u64" where
  "strtoul s =
     (let (neg, t) = strip_sign (dropWhile c_isspace s);
          v = (if hex_prefix t then digits_value 16 0 (drop 2 t)
               else if take 1 t = ''0'' then digits_value 8 0 t
               else digits_value 10 0 t)
      in if 2 ^ 64 \<le> v then -1 else if neg then - of_nat v else of_nat v)"

section \<open>Number to text\<close>

text \<open>\<^verbatim>\<open>%u\<close>, and \<^verbatim>\<open>%ld\<close> below\<close>

fun dec :: "nat \<Rightarrow> string" where
  "dec n = (if n < 10 then [char_of (48 + n)] else dec (n div 10) @ [char_of (48 + n mod 10)])"

declare dec.simps [simp del]

definition sdec :: "int \<Rightarrow> string" where
  "sdec i = (if i < 0 then CHR ''-'' # dec (nat (- i)) else dec (nat i))"

section \<open>A number printed is read back\<close>

definition is_digit :: "char \<Rightarrow> bool" where
  "is_digit c \<longleftrightarrow> 48 \<le> (of_char c :: nat) \<and> (of_char c :: nat) \<le> 57"

lemma digit_char: "d < 10 \<Longrightarrow> is_digit (char_of (48 + d)) \<and> digit_value 10 (char_of (48 + d)) = Some d"
  by (simp add: is_digit_def digit_value_def)

lemma digits_value_append:
  "\<forall>c\<in>set xs. digit_value b c \<noteq> None \<Longrightarrow>
     digits_value b acc (xs @ ys) = digits_value b (digits_value b acc xs) ys"
  by (induction xs arbitrary: acc) (auto split: option.split)

lemma dec_correct:
  "(\<forall>c\<in>set (dec n). is_digit c \<and> digit_value 10 c \<noteq> None) \<and> digits_value 10 0 (dec n) = n \<and>
     dec n \<noteq> [] \<and> (hd (dec n) = CHR ''0'' \<longrightarrow> n = 0)"
proof (induction n rule: dec.induct)
  case (1 n)
  show ?case
  proof (cases "n < 10")
    case True
    then have "dec n = [char_of (48 + n)]" by (subst dec.simps) simp
    moreover have "char_of (48 + n) = CHR ''0'' \<Longrightarrow> n = 0"
      using True by (auto simp: char_of_eq_iff take_bit_nat_eq_self)
    ultimately show ?thesis using digit_char [OF True] by auto
  next
    case False
    then have "dec n = dec (n div 10) @ [char_of (48 + n mod 10)]" by (subst dec.simps) simp
    moreover have "n div 10 \<noteq> 0" using False by simp
    ultimately show ?thesis
      using 1 [OF False] digit_char [of "n mod 10"] by (auto simp: digits_value_append)
  qed
qed

lemma digit_plain: "is_digit c \<Longrightarrow> \<not> c_isspace c \<and> c \<noteq> CHR ''-'' \<and> c \<noteq> CHR ''+'' \<and>
    c \<noteq> CHR ''x'' \<and> c \<noteq> CHR ''X''"
  by (auto simp: is_digit_def c_isspace_def)

lemma strtoul_dec:
  assumes "n < 2 ^ 64"
  shows "strtoul (dec n) = of_nat n"
proof -
  obtain c cs where d: "dec n = c # cs" using dec_correct [of n] by (cases "dec n") auto
  then have c: "is_digit c" "\<forall>x\<in>set cs. is_digit x" using dec_correct [of n] by auto
  have trim: "strip_sign (dropWhile c_isspace (dec n)) = (False, dec n)"
    using digit_plain [OF c(1)] by (simp add: d strip_sign_def)
  have nohex: "\<not> hex_prefix (dec n)"
    using c(2) digit_plain by (auto simp: d hex_prefix_def split: list.splits)
  have "n = 0" if "take 1 (dec n) = ''0''" using dec_correct [of n] d that by simp
  moreover have "digits_value 8 0 (dec 0) = 0" by (simp add: dec.simps digit_value_def)
  ultimately have "(if take 1 (dec n) = ''0'' then digits_value 8 0 (dec n) else digits_value 10 0 (dec n)) = n"
    using dec_correct [of n] by auto
  with trim nohex assms show ?thesis by (simp add: strtoul_def)
qed

end
