(* ===== verification/GuestExit.thy ===== *)
theory GuestExit
  imports CText
begin

text \<open>
  How a guest's exit ends: \<^verbatim>\<open>process_exit_wrapper\<close> and \<^verbatim>\<open>abort_process\<close> of
  the runtime as \<^verbatim>\<open>native/patches/0006-ios-src.patch\<close> leaves them, and the harness
  \<^verbatim>\<open>native/ios/inproc_smoke.c\<close> that starts a guest on a thread of its own process
  and reports how it ended.
\<close>

section \<open>Ending a guest\<close>

type_synonym environment = "string \<Rightarrow> string option"

datatype exit_effect = Ends_thread int | Ends_process int

text \<open>
  \<open>ios\<close>: the build is for iOS and not macOS, where the patch adds its test. The first
  component is the descriptor that is closed.
\<close>

definition process_exit_wrapper :: "bool \<Rightarrow> environment \<Rightarrow> int \<Rightarrow> int \<Rightarrow> int \<times> exit_effect" where
  "process_exit_wrapper ios e fd_socket status =
     (fd_socket,
      if ios \<and> e ''WINE_INPROCESS'' \<noteq> None then Ends_thread status else Ends_process status)"

text \<open>\<open>unix_code\<close> is the runtime's own \<^verbatim>\<open>get_unix_exit_code\<close>.\<close>

definition abort_process :: "bool \<Rightarrow> (int \<Rightarrow> int) \<Rightarrow> environment \<Rightarrow> int \<Rightarrow> exit_effect" where
  "abort_process ios unix_code e status =
     (if ios \<and> e ''WINE_INPROCESS'' \<noteq> None then Ends_thread status
      else Ends_process (unix_code status))"

section \<open>The harness\<close>

text \<open>What the loader and the guest do: what the guest prints before it ends, and how it ends.\<close>

datatype guest_run =
    No_library string \<comment> \<open>\<open>dlopen\<close> fails with this message\<close>
  | No_main
  | Main_returned string
  | Guest_exits string int int \<comment> \<open>its server socket and its exit status\<close>

datatype thread_end = Thread_value int | Process_gone int

text \<open>What it printed to the standard output and error, and how it ended.\<close>

definition smoke_thread :: "bool \<Rightarrow> environment \<Rightarrow> guest_run \<Rightarrow> string \<times> string \<times> thread_end" where
  "smoke_thread ios e g =
     (case g of
        No_library msg \<Rightarrow> ([], ''INPROC_FAIL dlopen: '' @ msg @ [CHR 0x0A], Thread_value 1)
      | No_main \<Rightarrow> ([], ''INPROC_FAIL no __wine_main'' @ [CHR 0x0A], Thread_value 1)
      | Main_returned txt \<Rightarrow>
          (txt, ''INPROC_NOTE __wine_main returned normally'' @ [CHR 0x0A], Thread_value 0)
      | Guest_exits txt fd_socket status \<Rightarrow>
          (txt, [], case snd (process_exit_wrapper ios e fd_socket status) of
             Ends_thread v \<Rightarrow> Thread_value v | Ends_process v \<Rightarrow> Process_gone v))"

record smoke_result =
  smoke_status :: int
  smoke_out :: string
  smoke_err :: string

text \<open>
  \<open>failure\<close>: the error text when \<^verbatim>\<open>pthread_create\<close> failed; what the guest does
  may depend on the environment it finds.
\<close>

definition smoke_main ::
  "bool \<Rightarrow> environment \<Rightarrow> string list \<Rightarrow> string option \<Rightarrow> (environment \<Rightarrow> guest_run) \<Rightarrow> smoke_result" where
  "smoke_main ios e argv failure guest =
     (if length argv < 3
      then \<lparr>smoke_status = 2, smoke_out = [],
            smoke_err = ''usage: '' @ (case argv of [] \<Rightarrow> ''(null)'' | p # _ \<Rightarrow> p) @ '' <ntdll.so> <loader/wine>'' @ [CHR 0x0A]\<rparr>
      else
        let e1 = e(''WINE_INPROCESS'' := Some ''1'') in
        case failure of
          Some msg \<Rightarrow> \<lparr>smoke_status = 1, smoke_out = [], smoke_err = ''pthread_create: '' @ msg @ [CHR 0x0A]\<rparr>
        | None \<Rightarrow>
          (case smoke_thread ios e1 (guest e1) of
             (out, err, Process_gone v) \<Rightarrow> \<lparr>smoke_status = v, smoke_out = out, smoke_err = err\<rparr>
           | (out, err, Thread_value v) \<Rightarrow>
               \<lparr>smoke_status = 0,
                smoke_out = out @ ''INPROC_HOST_SURVIVED code='' @ sdec v @ [CHR 0x0A],
                smoke_err = err\<rparr>))"

text \<open>the harness shows what it is meant to show: on iOS every run with enough arguments
  and a thread ends with status 0 and the survival line, and the line carries the guest's
  exit status when the guest exits; on another build a guest that exits takes the harness with
  it, and the line is not printed.\<close>
theorem smoke_host_survives:
  assumes "3 \<le> length argv" "guest (e(''WINE_INPROCESS'' := Some ''1'')) = g"
  shows "smoke_status (smoke_main True e argv None guest) = 0 \<and>
    (\<forall>txt fd status. g = Guest_exits txt fd status \<longrightarrow>
       smoke_out (smoke_main True e argv None guest) =
         txt @ ''INPROC_HOST_SURVIVED code='' @ sdec status @ [CHR 0x0A] \<and>
       smoke_main False e argv None guest =
         \<lparr>smoke_status = status, smoke_out = txt, smoke_err = []\<rparr>)"
  using assms by (cases g) (auto simp: smoke_main_def smoke_thread_def process_exit_wrapper_def)

theorem smoke_host_survives_witness:
  "smoke_status (smoke_main True (\<lambda>_. None) [''a'', ''b'', ''c''] None (\<lambda>_. Guest_exits ''ran'' 3 5)) = 0"
  using smoke_host_survives [of "[''a'', ''b'', ''c'']" "\<lambda>_. Guest_exits ''ran'' 3 5" "\<lambda>_. None"] by simp

end
