(* ===== verification/WineHost.thy ===== *)
theory WineHost
  imports Machines GuestExit
begin

text \<open>
  The in-process sessions of \<^verbatim>\<open>CrossoverPad/Sources/WineHost/WineHost.c\<close>: starting
  a console or GUI guest on a thread of the app, the thread itself, the queries of the app
  and the release of a session. What the operating system and the loader answer is an
  argument of each operation.
\<close>

section \<open>State\<close>

text \<open>What a descriptor refers to: an end of pipe number \<open>n\<close>, or something else.\<close>

datatype fobj = Read_end nat | Write_end nat | Dev_null | Other_file

record wine_console_session =
  ntdll_path :: string
  prefix_path :: string
  exe_name :: string
  guest_stdin_rd :: int
  guest_stdout_wr :: int
  thread :: nat
  finished :: bool
  exit_code :: int

text \<open>Where the guest thread is in \<^verbatim>\<open>wine_thread\<close>: before which access to shared state.\<close>

datatype thread_pc = TIn | TOut | TErr | TLoad | TFail | TMain | TFinish | TEnded

text \<open>
  The process: descriptors, what was written to each pipe, the environment, the sessions on
  the heap by address, the guest threads by number, each with the pointer it was given, and
  whether a freed session was touched, after which C promises nothing. The address of a freed
  session can be handed out again, while an older thread still holds it.
\<close>

record host =
  fds :: "int \<Rightarrow> fobj option"
  written :: "nat \<Rightarrow> string"
  env :: environment
  heap :: "nat \<Rightarrow> wine_console_session option"
  guests :: "nat \<Rightarrow> thread_pc option"
  args :: "nat \<Rightarrow> nat"
  next_thread :: nat
  next_pipe :: nat
  bad_access :: bool

definition host_close :: "int \<Rightarrow> host \<Rightarrow> host" where
  "host_close fd h = h\<lparr>fds := (fds h)(fd := None)\<rparr>"

text \<open>\<^verbatim>\<open>pipe\<close>, when it returned the two descriptors.\<close>

definition make_pipe :: "int \<times> int \<Rightarrow> host \<Rightarrow> host" where
  "make_pipe p h =
     h\<lparr>fds := (fds h)(fst p := Some (Read_end (next_pipe h)), snd p := Some (Write_end (next_pipe h))),
       next_pipe := next_pipe h + 1\<rparr>"

definition dup2 :: "int \<Rightarrow> int \<Rightarrow> host \<Rightarrow> host" where
  "dup2 old new h =
     (case fds h old of None \<Rightarrow> h | Some f \<Rightarrow> h\<lparr>fds := (fds h)(new := Some f)\<rparr>)"

text \<open>\<^verbatim>\<open>write\<close> moves at most \<open>k\<close> bytes; the code ignores its result.\<close>

definition write_fd :: "int \<Rightarrow> string \<Rightarrow> nat \<Rightarrow> host \<Rightarrow> host" where
  "write_fd fd msg k h =
     (case fds h fd of
        Some (Write_end n) \<Rightarrow> h\<lparr>written := (written h)(n := written h n @ take k msg)\<rparr>
      | _ \<Rightarrow> h)"

definition setenv :: "string \<Rightarrow> string \<Rightarrow> bool \<Rightarrow> host \<Rightarrow> host" where
  "setenv n v overwrite h =
     (if overwrite \<or> env h n = None then h\<lparr>env := (env h)(n := Some v)\<rparr> else h)"

definition free_session :: "nat \<Rightarrow> host \<Rightarrow> host" where
  "free_session a h = h\<lparr>heap := (heap h)(a := None)\<rparr>"

text \<open>An access to the session at \<open>a\<close>.\<close>

definition with_session :: "nat \<Rightarrow> (wine_console_session \<Rightarrow> host \<Rightarrow> host) \<Rightarrow> host \<Rightarrow> host" where
  "with_session a f h = (case heap h a of None \<Rightarrow> h\<lparr>bad_access := True\<rparr> | Some s \<Rightarrow> f s h)"

section \<open>Starting\<close>

text \<open>\<^verbatim>\<open>strncpy\<close> into a zeroed field of \<open>n\<close> bytes, all but the last of it.\<close>

definition strncpy_field :: "nat \<Rightarrow> string \<Rightarrow> string" where
  "strncpy_field n s = take (n - 1) s"

definition new_session :: "string \<Rightarrow> string \<Rightarrow> string \<Rightarrow> wine_console_session" where
  "new_session ntdll prefix exe =
     \<lparr>ntdll_path = strncpy_field 1024 ntdll, prefix_path = strncpy_field 1024 prefix,
      exe_name = strncpy_field 256 exe, guest_stdin_rd = 0, guest_stdout_wr = 0,
      thread = 0, finished = False, exit_code = 0\<rparr>"

text \<open>\<^verbatim>\<open>pthread_create\<close> stores the new thread in the session and hands it the pointer.\<close>

definition session_launch :: "nat \<Rightarrow> wine_console_session \<Rightarrow> bool \<Rightarrow> host \<Rightarrow> bool \<times> host" where
  "session_launch a s thread_ok h =
     (let h1 = setenv ''WINEPREFIX'' (prefix_path s) True h;
          h2 = setenv ''WINE_INPROCESS'' ''1'' True h1;
          h3 = setenv ''WINEDEBUG'' ''-all'' False h2;
          h4 = setenv ''WINEDLLOVERRIDES'' ''mscoree=d;mshtml=d'' False h3;
          h5 = h4\<lparr>env := (env h4)(''DISPLAY'' := None)\<rparr>;
          k = next_thread h5
      in if \<not> thread_ok then (False, h5)
         else (True, h5\<lparr>heap := (heap h5)(a := Some (s\<lparr>thread := k\<rparr>)), guests := (guests h5)(k := Some TIn),
                       args := (args h5)(k := a), next_thread := k + 1\<rparr>))"

text \<open>
  The answers: \<^verbatim>\<open>access\<close>, the address \<^verbatim>\<open>calloc\<close> returned, the pipe for the guest's input
  (console), the descriptor of \<^verbatim>\<open>/dev/null\<close> (GUI), the pipe for its output, and
  \<^verbatim>\<open>pthread_create\<close>.
\<close>

record answers =
  readable :: bool
  allocated :: "nat option"
  in_pipe :: "(int \<times> int) option"
  null_fd :: "int option"
  out_pipe :: "(int \<times> int) option"
  created :: bool

text \<open>
  A parameter that is NULL is \<open>None\<close>, \<open>outs_given\<close> says that no out parameter is. The
  result: the session and what was stored through the out parameters, \<open>None\<close> for NULL.
\<close>

definition wine_console_start ::
  "string option \<Rightarrow> string option \<Rightarrow> bool \<Rightarrow> answers \<Rightarrow> host \<Rightarrow> (nat \<times> int \<times> int) option \<times> host" where
  "wine_console_start ntdll prefix outs_given w h =
     (if ntdll = None \<or> prefix = None \<or> \<not> outs_given then (None, h)
      else if \<not> readable w then (None, h)
      else if allocated w = None then (None, h)
      else
        let a = the (allocated w);
            s = new_session (the ntdll) (the prefix) ''cmd.exe'';
            h1 = h\<lparr>heap := (heap h)(a := Some s)\<rparr>
        in (case in_pipe w of
              None \<Rightarrow> (None, free_session a h1)
            | Some ip \<Rightarrow>
                let h2 = make_pipe ip h1 in
                (case out_pipe w of
                  None \<Rightarrow> (None, free_session a (host_close (snd ip) (host_close (fst ip) h2)))
                | Some opp \<Rightarrow>
                    let h3 = make_pipe opp h2;
                        s1 = s\<lparr>guest_stdin_rd := fst ip, guest_stdout_wr := snd opp\<rparr>;
                        h4 = h3\<lparr>heap := (heap h3)(a := Some s1)\<rparr>;
                        (ok, h5) = session_launch a s1 (created w) h4
                    in if \<not> ok
                       then (None, free_session a (host_close (snd opp) (host_close (fst opp)
                               (host_close (snd ip) (host_close (fst ip) h5)))))
                       else (Some (a, snd ip, fst opp), h5))))"

definition wine_gui_start ::
  "string option \<Rightarrow> string option \<Rightarrow> string option \<Rightarrow> bool \<Rightarrow> answers \<Rightarrow> host \<Rightarrow> (nat \<times> int) option \<times> host" where
  "wine_gui_start ntdll prefix exe out_given w h =
     (if ntdll = None \<or> prefix = None \<or> exe = None \<or> \<not> out_given then (None, h)
      else if \<not> readable w then (None, h)
      else if allocated w = None then (None, h)
      else
        let a = the (allocated w);
            s = new_session (the ntdll) (the prefix) (the exe);
            h1 = h\<lparr>heap := (heap h)(a := Some s)\<rparr>
        in (case null_fd w of
              None \<Rightarrow> (None, free_session a h1)
            | Some dn \<Rightarrow>
                let h2 = h1\<lparr>fds := (fds h1)(dn := Some Dev_null)\<rparr> in
                (case out_pipe w of
                  None \<Rightarrow> (None, free_session a (host_close dn h2))
                | Some opp \<Rightarrow>
                    let h3 = make_pipe opp h2;
                        s1 = s\<lparr>guest_stdin_rd := dn, guest_stdout_wr := snd opp\<rparr>;
                        h4 = h3\<lparr>heap := (heap h3)(a := Some s1)\<rparr>;
                        (ok, h5) = session_launch a s1 (created w) h4
                    in if \<not> ok
                       then (None, free_session a (host_close (snd opp) (host_close (fst opp) (host_close dn h5))))
                       else (Some (a, fst opp), h5))))"

section \<open>Queries and release\<close>

text \<open>A NULL session is \<open>None\<close>; the result \<open>None\<close> is the access to a freed one.\<close>

definition wine_console_is_finished :: "nat option \<Rightarrow> host \<Rightarrow> int option" where
  "wine_console_is_finished p h =
     (case p of None \<Rightarrow> Some 1 | Some a \<Rightarrow> map_option (\<lambda>s. of_bool (finished s)) (heap h a))"

definition wine_console_exit_code :: "nat option \<Rightarrow> host \<Rightarrow> int option" where
  "wine_console_exit_code p h =
     (case p of None \<Rightarrow> Some (-1) | Some a \<Rightarrow> map_option exit_code (heap h a))"

definition wine_console_free :: "nat option \<Rightarrow> host \<Rightarrow> host" where
  "wine_console_free p h =
     (case p of None \<Rightarrow> h | Some a \<Rightarrow> with_session a (\<lambda>_. free_session a) h)"

section \<open>The guest thread\<close>

definition set_session :: "nat \<Rightarrow> wine_console_session \<Rightarrow> host \<Rightarrow> host" where
  "set_session a s h = h\<lparr>heap := (heap h)(a := Some s)\<rparr>"

definition goto_pc :: "nat \<Rightarrow> thread_pc \<Rightarrow> host \<Rightarrow> host" where
  "goto_pc k c h = h\<lparr>guests := (guests h)(k := Some c)\<rparr>"

text \<open>
  What the loader or the guest program does at the step; the numbers bound the short writes.
\<close>

datatype outcome =
    Goes_on
  | Dlopen_fails "string option" nat \<comment> \<open>with what \<open>dlerror\<close> gave\<close>
  | Dlsym_fails nat
  | Prints int string nat \<comment> \<open>the guest program writes to a descriptor\<close>
  | Exits_thread \<comment> \<open>the guest's exit called \<open>pthread_exit\<close>\<close>

definition no_main_msg :: string where
  "no_main_msg = ''wine: __wine_main not found in ntdll.so'' @ [CHR 0x0A]"

definition thread_step :: "nat \<Rightarrow> outcome \<Rightarrow> thread_pc \<Rightarrow> host \<Rightarrow> host" where
  "thread_step k r c h =
     (let a = args h k in
      case c of
        TIn \<Rightarrow> goto_pc k TOut (with_session a (\<lambda>s. dup2 (guest_stdin_rd s) 0) h)
      | TOut \<Rightarrow> goto_pc k TErr (with_session a (\<lambda>s. dup2 (guest_stdout_wr s) 1) h)
      | TErr \<Rightarrow> goto_pc k TLoad (with_session a (\<lambda>s. dup2 (guest_stdout_wr s) 2) h)
      | TLoad \<Rightarrow>
          with_session a (\<lambda>s h.
            case r of
              Dlopen_fails e n \<Rightarrow>
                goto_pc k TFail (case e of None \<Rightarrow> h | Some msg \<Rightarrow> write_fd 2 msg n h)
            | Dlsym_fails n \<Rightarrow> goto_pc k TFail (write_fd 2 no_main_msg n h)
            | _ \<Rightarrow> goto_pc k TMain h) h
      | TFail \<Rightarrow> goto_pc k TFinish (with_session a (\<lambda>s. set_session a (s\<lparr>exit_code := 255\<rparr>)) h)
      | TMain \<Rightarrow>
          (case r of
             Exits_thread \<Rightarrow> goto_pc k TEnded h
           | Prints fd msg n \<Rightarrow> write_fd fd msg n h
           | _ \<Rightarrow> goto_pc k TFinish h)
      | TFinish \<Rightarrow> goto_pc k TEnded (with_session a (\<lambda>s. set_session a (s\<lparr>finished := True\<rparr>)) h)
      | TEnded \<Rightarrow> h)"

section \<open>The process as a machine\<close>

datatype host_call =
    Start_console "string option" "string option" bool answers
  | Start_gui "string option" "string option" "string option" bool answers
  | Release "nat option"
  | Guest nat outcome
  | Close_fd int \<comment> \<open>the app closes a descriptor\<close>

definition new_fds :: "answers \<Rightarrow> int list" where
  "new_fds w = (case in_pipe w of None \<Rightarrow> [] | Some (a, b) \<Rightarrow> [a, b]) @
     (case null_fd w of None \<Rightarrow> [] | Some d \<Rightarrow> [d]) @
     (case out_pipe w of None \<Rightarrow> [] | Some (a, b) \<Rightarrow> [a, b])"

text \<open>
  New descriptors are distinct and were not open; the address of a new session is any at which
  there is none.
\<close>

definition fresh_answers :: "answers \<Rightarrow> host \<Rightarrow> bool" where
  "fresh_answers w h \<longleftrightarrow> distinct (new_fds w) \<and> (\<forall>fd\<in>set (new_fds w). fds h fd = None) \<and>
     (\<forall>a. allocated w = Some a \<longrightarrow> heap h a = None)"

fun host_step :: "host \<Rightarrow> host_call \<Rightarrow> host \<Rightarrow> bool" where
  "host_step h (Start_console n p given w) t =
     (fresh_answers w h \<and> t = snd (wine_console_start n p given w h))"
| "host_step h (Start_gui n p e given w) t =
     (fresh_answers w h \<and> t = snd (wine_gui_start n p e given w h))"
| "host_step h (Release p) t = (t = wine_console_free p h)"
| "host_step h (Guest k r) t =
     (case guests h k of
        None \<Rightarrow> False
      | Some c \<Rightarrow> c \<noteq> TEnded \<and> t = thread_step k r c h)"
| "host_step h (Close_fd fd) t = (t = host_close fd h)"

definition start_host :: "(int \<Rightarrow> fobj option) \<Rightarrow> (string \<Rightarrow> string option) \<Rightarrow> host" where
  "start_host d e = \<lparr>fds = d, written = (\<lambda>_. []), env = e, heap = (\<lambda>_. None), guests = (\<lambda>_. None),
     args = (\<lambda>_. 0), next_thread = 0, next_pipe = 0, bad_access = False\<rparr>"

section \<open>What a session says about its guest\<close>

text \<open>
  A code other than 0 was stored by a thread that is past its loading, and a session is
  finished only when its thread has ended. That holds where the app releases a session only
  after its thread has ended: then every thread that still runs has its own session.
\<close>

definition session_ok :: "wine_console_session \<Rightarrow> thread_pc \<Rightarrow> bool" where
  "session_ok s c \<longleftrightarrow> (finished s \<longrightarrow> c = TEnded) \<and> (exit_code s \<noteq> 0 \<longrightarrow> c = TFinish \<or> c = TEnded) \<and>
     exit_code s \<in> {0, 255}"

definition host_inv :: "host \<Rightarrow> bool" where
  "host_inv h \<longleftrightarrow> (\<forall>k. guests h k \<noteq> None \<longrightarrow> k < next_thread h)"

definition careful_step :: "host \<Rightarrow> host_call \<Rightarrow> host \<Rightarrow> bool" where
  "careful_step h l t \<longleftrightarrow> host_step h l t \<and>
     (case l of
        Release (Some a) \<Rightarrow> (\<exists>s. heap h a = Some s \<and> guests h (thread s) = Some TEnded)
      | _ \<Rightarrow> True)"

definition careful_inv :: "host \<Rightarrow> bool" where
  "careful_inv h \<longleftrightarrow> host_inv h \<and> \<not> bad_access h \<and>
     (\<forall>a s. heap h a = Some s \<longrightarrow>
        args h (thread s) = a \<and> (\<exists>c. guests h (thread s) = Some c \<and> session_ok s c)) \<and>
     (\<forall>k c. guests h k = Some c \<longrightarrow> c \<noteq> TEnded \<longrightarrow> (\<exists>s. heap h (args h k) = Some s \<and> thread s = k))"

lemma careful_invD:
  assumes "careful_inv h"
  shows "host_inv h" "\<not> bad_access h"
    "heap h a = Some s \<Longrightarrow> args h (thread s) = a \<and> (\<exists>c. guests h (thread s) = Some c \<and> session_ok s c)"
    "guests h k = Some c \<Longrightarrow> c \<noteq> TEnded \<Longrightarrow> \<exists>s. heap h (args h k) = Some s \<and> thread s = k"
  using assms by (auto simp: careful_inv_def)

lemma careful_invI:
  assumes "host_inv h" "\<not> bad_access h"
    and "\<And>a s. heap h a = Some s \<Longrightarrow> args h (thread s) = a \<and> (\<exists>c. guests h (thread s) = Some c \<and> session_ok s c)"
    and "\<And>k c. guests h k = Some c \<Longrightarrow> c \<noteq> TEnded \<Longrightarrow> \<exists>s. heap h (args h k) = Some s \<and> thread s = k"
  shows "careful_inv h"
  using assms by (simp add: careful_inv_def)

lemma host_sel [simp]:
  "heap (host_close fd h) = heap h" "guests (host_close fd h) = guests h"
  "fds (host_close fd h) = (fds h)(fd := None)"
  "heap (make_pipe p h) = heap h" "guests (make_pipe p h) = guests h"
  "heap (dup2 i n h) = heap h" "guests (dup2 i n h) = guests h"
  "heap (write_fd fd m k h) = heap h" "guests (write_fd fd m k h) = guests h"
  "fds (write_fd fd m k h) = fds h"
  "heap (setenv x v b h) = heap h" "guests (setenv x v b h) = guests h" "fds (setenv x v b h) = fds h"
  "heap (free_session a h) = (heap h)(a := None)" "guests (free_session a h) = guests h"
  "fds (free_session a h) = fds h"
  "heap (set_session a s h) = (heap h)(a := Some s)" "guests (set_session a s h) = guests h"
  "fds (set_session a s h) = fds h"
  "heap (goto_pc k c h) = heap h" "guests (goto_pc k c h) = (guests h)(k := Some c)"
  "fds (goto_pc k c h) = fds h"
  by (simp_all add: host_close_def make_pipe_def dup2_def write_fd_def setenv_def free_session_def
      set_session_def goto_pc_def split: option.splits fobj.splits)

text \<open>What only a start that succeeds changes, and what only an access to a freed session does.\<close>

definition threads_of :: "host \<Rightarrow> (nat \<Rightarrow> nat) \<times> nat \<times> bool" where
  "threads_of h = (args h, next_thread h, bad_access h)"

lemma threads_of_sel [simp]:
  "threads_of (host_close fd h) = threads_of h" "threads_of (make_pipe p h) = threads_of h"
  "threads_of (dup2 i n h) = threads_of h" "threads_of (write_fd fd m k h) = threads_of h"
  "threads_of (setenv x v b h) = threads_of h" "threads_of (free_session a h) = threads_of h"
  "threads_of (set_session a s h) = threads_of h" "threads_of (goto_pc k c h) = threads_of h"
  "threads_of (h\<lparr>heap := f\<rparr>) = threads_of h" "threads_of (h\<lparr>fds := g\<rparr>) = threads_of h"
  "threads_of (h\<lparr>env := e\<rparr>) = threads_of h"
  by (simp_all add: threads_of_def host_close_def make_pipe_def dup2_def write_fd_def setenv_def
      free_session_def set_session_def goto_pc_def split: option.splits fobj.splits)

lemma threads_ofD:
  assumes "threads_of t = threads_of h"
  shows "args t = args h" "next_thread t = next_thread h" "bad_access t = bad_access h"
  using assms by (simp_all add: threads_of_def)

lemmas same_threads [simp] = threads_of_sel [THEN threads_ofD(1)] threads_of_sel [THEN threads_ofD(2)]
  threads_of_sel [THEN threads_ofD(3)]

lemma with_session_sel [simp]:
  "guests (with_session a f h) = (case heap h a of None \<Rightarrow> guests h | Some s \<Rightarrow> guests (f s h))"
  "args (with_session a f h) = (case heap h a of None \<Rightarrow> args h | Some s \<Rightarrow> args (f s h))"
  "next_thread (with_session a f h) = (case heap h a of None \<Rightarrow> next_thread h | Some s \<Rightarrow> next_thread (f s h))"
  "bad_access (with_session a f h) = (case heap h a of None \<Rightarrow> True | Some s \<Rightarrow> bad_access (f s h))"
  "heap (with_session a f h) = (case heap h a of None \<Rightarrow> heap h | Some s \<Rightarrow> heap (f s h))"
  "fds (with_session a f h) = (case heap h a of None \<Rightarrow> fds h | Some s \<Rightarrow> fds (f s h))"
  by (simp_all add: with_session_def split: option.split)

lemma session_launch_sel:
  "session_launch a s thread_ok h = (r, t) \<Longrightarrow> r = thread_ok \<and> fds t = fds h \<and> bad_access t = bad_access h \<and>
     (if thread_ok
      then heap t = (heap h)(a := Some (s\<lparr>thread := next_thread h\<rparr>)) \<and>
        guests t = (guests h)(next_thread h := Some TIn) \<and> args t = (args h)(next_thread h := a) \<and>
        next_thread t = next_thread h + 1
      else heap t = heap h \<and> guests t = guests h \<and> args t = args h \<and> next_thread t = next_thread h)"
  by (auto simp: session_launch_def Let_def split: if_splits)

text \<open>What a start does to the sessions and threads.\<close>

definition started :: "host \<Rightarrow> answers \<Rightarrow> bool \<Rightarrow> host \<Rightarrow> bool" where
  "started h w ok t \<longleftrightarrow> bad_access t = bad_access h \<and>
     (if ok then (\<exists>a. allocated w = Some a \<and>
         (\<exists>s. heap t a = Some s \<and> thread s = next_thread h \<and> \<not> finished s \<and> exit_code s = 0) \<and>
         heap t = (heap h)(a := heap t a) \<and> guests t = (guests h)(next_thread h := Some TIn) \<and>
         args t = (args h)(next_thread h := a) \<and> next_thread t = next_thread h + 1)
      else (heap t = heap h \<or> (\<exists>a. allocated w = Some a \<and> heap t = (heap h)(a := None))) \<and>
        guests t = guests h \<and> args t = args h \<and> next_thread t = next_thread h)"

lemma new_session_flags [simp]:
  "\<not> finished (new_session n p e)" "exit_code (new_session n p e) = 0"
  by (simp_all add: new_session_def)

lemma console_started:
  "started h w (fst (wine_console_start n p given w h) \<noteq> None) (snd (wine_console_start n p given w h))"
  by (auto simp: wine_console_start_def started_def Let_def dest!: session_launch_sel
      split: option.splits prod.splits if_splits)

lemma gui_started:
  "started h w (fst (wine_gui_start n p e given w h) \<noteq> None) (snd (wine_gui_start n p e given w h))"
  by (auto simp: wine_gui_start_def started_def Let_def dest!: session_launch_sel
      split: option.splits prod.splits if_splits)

lemma started_inv: "host_inv h \<Longrightarrow> started h w ok t \<Longrightarrow> host_inv t"
  by (auto simp: host_inv_def started_def less_SucI split: if_splits)

lemma started_careful:
  assumes inv: "careful_inv h" and st: "started h w ok t" and f: "fresh_answers w h"
  shows "careful_inv t"
proof (cases ok)
  case False
  have "heap h a = None" if "allocated w = Some a" for a using f that by (simp add: fresh_answers_def)
  then have "heap t = heap h" using st False by (auto simp: started_def fun_upd_idem)
  with inv st False show ?thesis by (auto simp: started_def careful_inv_def host_inv_def)
next
  case True
  from True st obtain a s where n: "allocated w = Some a" "thread s = next_thread h" "\<not> finished s" "exit_code s = 0"
    "heap t = (heap h)(a := Some s)" "guests t = (guests h)(next_thread h := Some TIn)"
    "args t = (args h)(next_thread h := a)" "next_thread t = next_thread h + 1" "bad_access t = bad_access h"
    unfolding started_def by (metis (no_types, lifting))
  have a: "heap h a = None" using f n(1) by (simp add: fresh_answers_def)
  have old: "guests h (next_thread h) = None" using inv by (auto simp: careful_inv_def host_inv_def)
  have th: "thread s' \<noteq> next_thread h" if "heap h b = Some s'" for b s'
    using inv that old by (fastforce simp: careful_inv_def)
  have ga: "args h k \<noteq> a" if "guests h k = Some c" "c \<noteq> TEnded" for k c
    using inv that a by (fastforce simp: careful_inv_def)
  have hi: "host_inv t" using inv n(6,8) by (auto simp: careful_inv_def host_inv_def less_SucI)
  have ses: "args t (thread s') = b \<and> (\<exists>c. guests t (thread s') = Some c \<and> session_ok s' c)"
    if "heap t b = Some s'" for b s'
  proof (cases "b = a")
    case True
    with that n show ?thesis by (simp add: session_ok_def)
  next
    case False
    with that n(5) have "heap h b = Some s'" by simp
    with inv th [OF this] n(6,7) show ?thesis by (auto simp: careful_inv_def)
  qed
  have thr: "\<exists>s'. heap t (args t k) = Some s' \<and> thread s' = k" if "guests t k = Some c" "c \<noteq> TEnded" for k c
  proof (cases "k = next_thread h")
    case True
    with n show ?thesis by simp
  next
    case False
    with that n(6) have k: "guests h k = Some c" "c \<noteq> TEnded" by simp_all
    then obtain s' where "heap h (args h k) = Some s'" "thread s' = k"
      using inv unfolding careful_inv_def by blast
    with False ga [OF k] n(5,7) show ?thesis by auto
  qed
  have "\<not> bad_access t" using n(9) careful_invD(2) [OF inv] by simp
  from careful_invI [OF hi this ses thr] show ?thesis .
qed

lemma thread_step_frame:
  "next_thread (thread_step k r c h) = next_thread h" "args (thread_step k r c h) = args h"
  "b \<noteq> args h k \<Longrightarrow> heap (thread_step k r c h) b = heap h b"
  "j \<noteq> k \<Longrightarrow> guests (thread_step k r c h) j = guests h j"
  by (simp_all add: thread_step_def Let_def split: thread_pc.split outcome.split option.split)

lemma thread_step_own:
  "heap h (args h k) = Some s \<Longrightarrow> guests h k = Some c \<Longrightarrow> session_ok s c \<Longrightarrow> c \<noteq> TEnded \<Longrightarrow>
     \<exists>s' c'. heap (thread_step k r c h) (args h k) = Some s' \<and> guests (thread_step k r c h) k = Some c' \<and>
       session_ok s' c' \<and> thread s' = thread s \<and> bad_access (thread_step k r c h) = bad_access h"
  by (cases c; cases r)
     (auto simp: thread_step_def Let_def session_ok_def with_session_def split: option.split)

lemma thread_step_dom: "guests h k = Some c \<Longrightarrow> guests (thread_step k r c h) k \<noteq> None"
  by (cases c; simp add: thread_step_def Let_def with_session_def split: outcome.split option.split)

lemma guest_step_inv:
  assumes "host_inv h" "guests h k = Some c"
  shows "host_inv (thread_step k r c h)"
  unfolding host_inv_def
proof (intro allI impI)
  fix j
  assume "guests (thread_step k r c h) j \<noteq> None"
  then have "guests h j \<noteq> None" using assms(2) by (cases "j = k") (simp_all add: thread_step_frame)
  then show "j < next_thread (thread_step k r c h)"
    using assms(1) by (simp add: host_inv_def thread_step_frame)
qed

lemma guest_step_careful:
  assumes inv: "careful_inv h" and k: "guests h k = Some c" "c \<noteq> TEnded"
  shows "careful_inv (thread_step k r c h)"
proof -
  let ?t = "thread_step k r c h"
  obtain s where s: "heap h (args h k) = Some s" "thread s = k"
    using inv k unfolding careful_inv_def by blast
  then have "session_ok s c" using inv k by (fastforce simp: careful_inv_def)
  then obtain s' c' where o: "heap ?t (args h k) = Some s'" "guests ?t k = Some c'" "session_ok s' c'"
    "thread s' = k" "bad_access ?t = bad_access h"
    using thread_step_own [OF s(1) k(1) _ k(2)] s(2) by blast
  have h: "host_inv ?t" using inv guest_step_inv k(1) by (simp add: careful_inv_def)
  have ses: "args ?t (thread q) = b \<and> (\<exists>d. guests ?t (thread q) = Some d \<and> session_ok q d)"
    if "heap ?t b = Some q" for b q
  proof (cases "b = args h k")
    case True
    with that o show ?thesis by (simp add: thread_step_frame)
  next
    case False
    with that have q: "heap h b = Some q" by (simp add: thread_step_frame)
    then have "args h (thread q) = b" using inv by (simp add: careful_inv_def)
    with False have "thread q \<noteq> k" by auto
    with inv q show ?thesis by (simp add: careful_inv_def thread_step_frame)
  qed
  have thr: "\<exists>q. heap ?t (args ?t j) = Some q \<and> thread q = j" if "guests ?t j = Some d" "d \<noteq> TEnded" for j d
  proof (cases "j = k")
    case True
    with o show ?thesis by (simp add: thread_step_frame)
  next
    case False
    with that have "guests h j = Some d" "d \<noteq> TEnded" by (simp_all add: thread_step_frame)
    then obtain q where q: "heap h (args h j) = Some q" "thread q = j"
      using inv unfolding careful_inv_def by blast
    then have "args h j \<noteq> args h k" using s False by (metis option.inject)
    with q show ?thesis by (simp add: thread_step_frame)
  qed
  have "\<not> bad_access ?t" using o(5) careful_invD(2) [OF inv] by simp
  from careful_invI [OF h this ses thr] show ?thesis .
qed

interpretation host: machine "\<lambda>h. \<exists>d e. h = start_host d e" host_step host_inv
proof unfold_locales
  fix h t :: host and l :: host_call
  show "host_inv h" if "\<exists>d e. h = start_host d e" using that by (auto simp: host_inv_def start_host_def)
  show "host_inv t" if inv: "host_inv h" and step: "host_step h l t"
  proof (cases l)
    case (Start_console n p given w)
    with step have "t = snd (wine_console_start n p given w h)" by simp
    then show ?thesis using started_inv [OF inv console_started] by simp
  next
    case (Start_gui n p e given w)
    with step have "t = snd (wine_gui_start n p e given w h)" by simp
    then show ?thesis using started_inv [OF inv gui_started] by simp
  next
    case (Guest k r)
    with inv step show ?thesis by (auto intro: guest_step_inv split: option.splits)
  next
    case (Release p)
    with inv step show ?thesis
      by (cases p) (auto simp: host_inv_def wine_console_free_def split: option.splits)
  next
    case (Close_fd fd)
    with inv step show ?thesis by (simp add: host_inv_def)
  qed
qed

interpretation careful: machine "\<lambda>h. \<exists>d e. h = start_host d e" careful_step careful_inv
proof unfold_locales
  fix h t :: host and l :: host_call
  show "careful_inv h" if "\<exists>d e. h = start_host d e"
    using that host.inv_start by (auto simp: careful_inv_def start_host_def)
  show "careful_inv t" if inv: "careful_inv h" and step: "careful_step h l t"
  proof (cases l)
    case (Start_console n p given w)
    with step have "t = snd (wine_console_start n p given w h)" "fresh_answers w h" by (simp_all add: careful_step_def)
    then show ?thesis using started_careful [OF inv console_started] by simp
  next
    case (Start_gui n p e given w)
    with step have "t = snd (wine_gui_start n p e given w h)" "fresh_answers w h" by (simp_all add: careful_step_def)
    then show ?thesis using started_careful [OF inv gui_started] by simp
  next
    case (Guest k r)
    with inv step show ?thesis by (auto simp: careful_step_def intro: guest_step_careful split: option.splits)
  next
    case (Release p)
    show ?thesis
    proof (cases p)
      case None
      with Release inv step show ?thesis by (simp add: careful_step_def wine_console_free_def)
    next
      case (Some a)
      with Release step obtain s where s: "heap h a = Some s" "guests h (thread s) = Some TEnded"
        by (auto simp: careful_step_def)
      then have t: "t = free_session a h"
        using Release Some step by (simp add: careful_step_def wine_console_free_def with_session_def)
      have ne: "args h k \<noteq> a" if "guests h k = Some c" "c \<noteq> TEnded" for k c
        using careful_invD(4) [OF inv that] s that by auto
      show ?thesis unfolding careful_inv_def
      proof (intro conjI allI impI)
        show "host_inv t" "\<not> bad_access t" using careful_invD(1,2) [OF inv] by (simp_all add: t host_inv_def)
        fix b q
        assume "heap t b = Some q"
        then have "heap h b = Some q" by (simp add: t split: if_splits)
        from careful_invD(3) [OF inv this]
        show "args t (thread q) = b" "\<exists>c. guests t (thread q) = Some c \<and> session_ok q c" by (simp_all add: t)
      next
        fix k c
        assume "guests t k = Some c" "c \<noteq> TEnded"
        then have k: "guests h k = Some c" "c \<noteq> TEnded" by (simp_all add: t)
        from careful_invD(4) [OF inv k] ne [OF k]
        show "\<exists>q. heap t (args t k) = Some q \<and> thread q = k" by (simp add: t)
      qed
    qed
  next
    case (Close_fd fd)
    with inv step show ?thesis by (simp add: careful_step_def careful_inv_def host_inv_def)
  qed
qed

text \<open>Careful runs are runs.\<close>

lemma careful_run: "execution careful_step h tr t \<Longrightarrow> execution host_step h tr t"
  by (induction rule: execution.induct) (auto simp: careful_step_def intro: execution.intros)

end
