(* ===== verification/WineHostProps.thy ===== *)
theory WineHostProps
  imports WineHost
begin

text \<open>
  What the app may rely on when it starts, watches and releases a session, and what it may
  not: the properties of \<^verbatim>\<open>WineHost.c\<close>, with the runs that show their hypotheses
  can hold.
\<close>

section \<open>Descriptors\<close>

text \<open>A start touches only the descriptors the system gave it; on failure it closed them.\<close>

lemma start_fds:
  assumes "fd \<notin> set (new_fds w)"
  shows "fds (snd (wine_console_start n p given w h)) fd = fds h fd"
    and "fds (snd (wine_gui_start n p e given w h)) fd = fds h fd"
  using assms
  by (auto simp: wine_console_start_def wine_gui_start_def new_fds_def Let_def make_pipe_def
      dest!: session_launch_sel split: option.splits prod.splits if_splits)

lemma thread_step_fds: "2 < fd \<Longrightarrow> fds (thread_step a r c h) fd = fds h fd"
  by (cases c)
     (auto simp: thread_step_def Let_def with_session_def dup2_def write_fd_def goto_pc_def set_session_def
       split: option.split outcome.split fobj.split)

lemma open_fd_kept:
  assumes "host_step h l t" "fds h fd = Some f" "2 < fd" "l \<noteq> Close_fd fd"
  shows "fds t fd = Some f"
proof (cases l)
  case (Start_console n p given w)
  with assms have "fd \<notin> set (new_fds w)" by (auto simp: fresh_answers_def)
  with assms Start_console start_fds(1) show ?thesis by simp
next
  case (Start_gui n p e given w)
  with assms have "fd \<notin> set (new_fds w)" by (auto simp: fresh_answers_def)
  with assms Start_gui start_fds(2) show ?thesis by simp
next
  case (Release q)
  with assms show ?thesis by (cases q) (auto simp: wine_console_free_def split: option.splits)
next
  case (Guest a r)
  with assms show ?thesis by (auto simp: thread_step_fds split: option.splits)
qed (use assms in auto)

lemma open_fd_stays:
  "execution host_step h tr t \<Longrightarrow> fds h fd = Some f \<Longrightarrow> 2 < fd \<Longrightarrow> Close_fd fd \<notin> set tr \<Longrightarrow>
     fds t fd = Some f"
  by (induction rule: execution.induct) (auto intro: open_fd_kept)

section \<open>Sessions whose guest has ended\<close>

text \<open>A start leaves the sessions there are alone, and so does a thread of another session.\<close>

lemma start_other:
  assumes "heap h a = Some s" "fresh_answers w h" "started h w ok t"
  shows "heap t a = Some s"
  using assms by (auto simp: started_def fresh_answers_def split: if_splits)

lemma start_guests: "host_inv h \<Longrightarrow> started h w ok t \<Longrightarrow> guests h k \<noteq> None \<Longrightarrow> guests t k = guests h k"
  by (auto simp: started_def host_inv_def split: if_splits)

lemma ended_step:
  assumes inv: "careful_inv h" and s: "heap h a = Some s" "guests h (thread s) = Some TEnded"
    and st: "careful_step h l t" and l: "l \<noteq> Release (Some a)"
  shows "heap t a = Some s \<and> guests t (thread s) = Some TEnded"
proof (cases l)
  case (Start_console n p given w)
  with st have "t = snd (wine_console_start n p given w h)" "fresh_answers w h" by (simp_all add: careful_step_def)
  with s start_other [OF s(1) _ console_started] start_guests [OF careful_invD(1) [OF inv] console_started]
  show ?thesis by simp
next
  case (Start_gui n p e given w)
  with st have "t = snd (wine_gui_start n p e given w h)" "fresh_answers w h" by (simp_all add: careful_step_def)
  with s start_other [OF s(1) _ gui_started] start_guests [OF careful_invD(1) [OF inv] gui_started]
  show ?thesis by simp
next
  case (Release q)
  with st s l show ?thesis
    by (cases q) (auto simp: careful_step_def wine_console_free_def split: option.splits)
next
  case (Guest k r)
  with st obtain c where c: "guests h k = Some c" "c \<noteq> TEnded" "t = thread_step k r c h"
    by (auto simp: careful_step_def split: option.splits)
  then have "k \<noteq> thread s" using s(2) by auto
  moreover have "args h k \<noteq> a"
    using careful_invD(4) [OF inv c(1,2)] s(1) \<open>k \<noteq> thread s\<close> by auto
  ultimately show ?thesis using s c(3) by (simp add: thread_step_frame)
qed (use st s in \<open>simp add: careful_step_def\<close>)

lemma ended_run:
  assumes "execution careful_step h tr t" "careful_inv h" "heap h a = Some s" "guests h (thread s) = Some TEnded"
    and "Release (Some a) \<notin> set tr"
  shows "heap t a = Some s \<and> guests t (thread s) = Some TEnded"
  using assms
proof (induction rule: execution.induct)
  case (move u l v ls w)
  then have "l \<noteq> Release (Some a)" by auto
  with move have "heap v a = Some s \<and> guests v (thread s) = Some TEnded"
    by (intro ended_step [of u a s l v])
  with move careful.inv_step [of u l v] show ?case by simp
qed simp

section \<open>The properties\<close>

lemma session_launch_env:
  assumes "session_launch a s thread_ok h = (r, t)"
  shows "env t ''WINEPREFIX'' = Some (prefix_path s)" "env t ''WINE_INPROCESS'' = Some ''1''"
    "env t ''DISPLAY'' = None"
  using assms by (auto simp: session_launch_def Let_def setenv_def split: if_splits)

lemma goto_pc_env [simp]: "env (goto_pc a c h) = env h"
  by (simp add: goto_pc_def)

lemma dup2_env [simp]: "env (dup2 i n h) = env h"
  by (simp add: dup2_def split: option.split)

lemma console_start_None_iff:
  "fst (wine_console_start n p given w h) = None \<longleftrightarrow>
     n = None \<or> p = None \<or> \<not> given \<or> \<not> readable w \<or> allocated w = None \<or> in_pipe w = None \<or>
     out_pipe w = None \<or> \<not> created w"
  by (auto simp: wine_console_start_def Let_def dest!: session_launch_sel
      split: option.splits prod.splits if_splits)

lemma gui_start_None_iff:
  "fst (wine_gui_start n p e given w h) = None \<longleftrightarrow>
     n = None \<or> p = None \<or> e = None \<or> \<not> given \<or> \<not> readable w \<or> allocated w = None \<or> null_fd w = None \<or>
     out_pipe w = None \<or> \<not> created w"
  by (auto simp: wine_gui_start_def Let_def dest!: session_launch_sel
      split: option.splits prod.splits if_splits)

lemma failed_start_fd:
  "fst (wine_console_start n p given w h) = None \<Longrightarrow>
     fds (snd (wine_console_start n p given w h)) fd \<in> {fds h fd, None}"
  "fst (wine_gui_start n p e given w h) = None \<Longrightarrow>
     fds (snd (wine_gui_start n p e given w h)) fd \<in> {fds h fd, None}"
  by (auto simp: wine_console_start_def wine_gui_start_def Let_def make_pipe_def
      dest!: session_launch_sel split: option.splits prod.splits if_splits)

text \<open>What every failed start satisfies, from its effect on a descriptor and on the heap.\<close>

lemma failed_start_clean:
  assumes "fresh_answers w h" "started h w False t"
    and "\<And>fd. fd \<notin> set (new_fds w) \<Longrightarrow> fds t fd = fds h fd"
    and "\<And>fd. fds t fd \<in> {fds h fd, None}"
  shows "fds t = fds h \<and> heap t = heap h \<and> guests t = guests h"
proof (intro conjI ext)
  show "fds t fd = fds h fd" for fd
    using assms(1,3) assms(4) [of fd] by (cases "fd \<in> set (new_fds w)") (auto simp: fresh_answers_def)
  show "heap t a = heap h a" "guests t a = guests h a" for a
    using assms(1,2) by (auto simp: started_def fresh_answers_def)
qed

text \<open>C30: a start that fails leaves nothing behind: every descriptor it opened is closed, no
  session stays on the heap and no thread runs; and it fails exactly when an argument is
  missing or the system refused something.\<close>
theorem start_failure_clean:
  assumes "fresh_answers w h"
  shows "(fst (wine_console_start n p given w h) = None \<longleftrightarrow>
        n = None \<or> p = None \<or> \<not> given \<or> \<not> readable w \<or> allocated w = None \<or> in_pipe w = None \<or>
        out_pipe w = None \<or> \<not> created w) \<and>
      (fst (wine_gui_start n p e given w h) = None \<longleftrightarrow>
        n = None \<or> p = None \<or> e = None \<or> \<not> given \<or> \<not> readable w \<or> allocated w = None \<or> null_fd w = None \<or>
        out_pipe w = None \<or> \<not> created w) \<and>
      (\<forall>t. wine_console_start n p given w h = (None, t) \<or> wine_gui_start n p e given w h = (None, t) \<longrightarrow>
        fds t = fds h \<and> heap t = heap h \<and> guests t = guests h)"
proof (intro conjI allI impI console_start_None_iff gui_start_None_iff)
  fix t
  assume "wine_console_start n p given w h = (None, t) \<or> wine_gui_start n p e given w h = (None, t)"
  then have "fds t = fds h \<and> heap t = heap h \<and> guests t = guests h"
  proof
    assume "wine_console_start n p given w h = (None, t)"
    with failed_start_clean [OF assms, of t] console_started [of h w n p given]
      start_fds(1) [of _ w n p given h] failed_start_fd(1) [of n p given w h]
    show ?thesis by simp
  next
    assume "wine_gui_start n p e given w h = (None, t)"
    with failed_start_clean [OF assms, of t] gui_started [of h w n p e given]
      start_fds(2) [of _ w n p e given h] failed_start_fd(2) [of n p e given w h]
    show ?thesis by simp
  qed
  then show "fds t = fds h" "heap t = heap h" "guests t = guests h" by auto
qed

definition no_fds :: host where
  "no_fds = start_host (\<lambda>_. None) (\<lambda>_. None)"

definition refused :: answers where
  "refused = \<lparr>readable = True, allocated = Some 64, in_pipe = Some (10, 11), null_fd = Some 14,
     out_pipe = Some (12, 13), created = False\<rparr>"

definition given_all :: answers where
  "given_all = refused\<lparr>created := True\<rparr>"

lemma no_fds_ok:
  "fresh_answers refused no_fds" "fresh_answers given_all no_fds"
  by (simp_all add: no_fds_def refused_def given_all_def start_host_def host_inv_def fresh_answers_def new_fds_def)

theorem start_failure_clean_witness:
  "wine_console_start (Some ''/n'') (Some ''/p'') True refused no_fds =
     (None, snd (wine_console_start (Some ''/n'') (Some ''/p'') True refused no_fds)) \<and>
   fds (snd (wine_console_start (Some ''/n'') (Some ''/p'') True refused no_fds)) = fds no_fds"
proof -
  have "fst (wine_console_start (Some ''/n'') (Some ''/p'') True refused no_fds) = None"
    using start_failure_clean [OF no_fds_ok(1), of "Some ''/n''" "Some ''/p''" True None]
    by (simp add: refused_def)
  then have eq: "wine_console_start (Some ''/n'') (Some ''/p'') True refused no_fds =
     (None, snd (wine_console_start (Some ''/n'') (Some ''/p'') True refused no_fds))"
    by (simp add: prod_eq_iff)
  with start_failure_clean [OF no_fds_ok(1), of "Some ''/n''" "Some ''/p''" True None]
  show ?thesis by (metis (no_types, lifting))
qed

text \<open>What a console start that succeeds has set up.\<close>

lemma console_start_state:
  assumes "wine_console_start (Some n) (Some p) True w h = (Some (a, fin, fout), t)"
  obtains gin gout s where "in_pipe w = Some (gin, fin)" "out_pipe w = Some (fout, gout)"
    "allocated w = Some a" "heap t a = Some s" "thread s = next_thread h" "guest_stdin_rd s = gin" "guest_stdout_wr s = gout"
    "\<not> finished s" "exit_code s = 0" "ntdll_path s = take 1023 n" "exe_name s = ''cmd.exe''"
    "prefix_path s = take 1023 p" "guests t (thread s) = Some TIn" "args t (thread s) = a"
    "fds t = (fds h)(gin := Some (Read_end (next_pipe h)), fin := Some (Write_end (next_pipe h)),
       fout := Some (Read_end (next_pipe h + 1)), gout := Some (Write_end (next_pipe h + 1)))"
    "env t ''WINEPREFIX'' = Some (take 1023 p)" "env t ''WINE_INPROCESS'' = Some ''1''"
proof -
  from assms obtain gin gout where
    pipes: "in_pipe w = Some (gin, fin)" "out_pipe w = Some (fout, gout)" and
    ok: "readable w" "created w" and a: "allocated w = Some a"
    by (auto simp: wine_console_start_def Let_def dest!: session_launch_sel
        split: option.splits prod.splits if_splits)
  define s where "s = (new_session n p ''cmd.exe'')\<lparr>guest_stdin_rd := gin, guest_stdout_wr := gout\<rparr>"
  define h4 where "h4 = (make_pipe (fout, gout) (make_pipe (gin, fin)
     (h\<lparr>heap := (heap h)(a := Some (new_session n p ''cmd.exe''))\<rparr>)))\<lparr>heap := (heap h)(a := Some s)\<rparr>"
  have "session_launch a s True h4 = (True, t)"
    using assms pipes ok a
    by (simp add: wine_console_start_def Let_def h4_def s_def split: prod.splits if_splits)
  with session_launch_env [OF this] session_launch_sel [OF this] show ?thesis
    by (intro that [OF pipes a, of "s\<lparr>thread := next_thread h\<rparr>"])
       (auto simp: h4_def s_def make_pipe_def new_session_def strncpy_field_def)
qed

text \<open>The first three steps of the guest thread.\<close>

lemma three_dups:
  assumes "execution host_step h [Guest k r0, Guest k r1, Guest k r2] t"
    and "heap h (args h k) = Some s" "guests h k = Some TIn"
    and "fds h (guest_stdin_rd s) = Some fi" "fds h (guest_stdout_wr s) = Some fo"
    and "2 < guest_stdin_rd s" "2 < guest_stdout_wr s"
  shows "fds t = (fds h)(0 := Some fi, 1 := Some fo, 2 := Some fo) \<and> env t = env h \<and>
    heap t = heap h \<and> guests t = (guests h)(k := Some TLoad)"
  using assms
  by (auto simp: execution_Cons thread_step_def Let_def with_session_def dup2_def goto_pc_def
      split: option.splits)

text \<open>C20: a console is wired to its app: when \<^verbatim>\<open>wine_console_start\<close> returned a
  session and its thread has routed its standard handles, what the app writes to the first
  descriptor is the guest's standard input, and its standard output and error are what the app
  reads from the second, two different pipes; and the guest finds its prefix in the environment,
  cut to 1023 characters.\<close>
theorem console_wired:
  assumes "fresh_answers w h" "\<And>fd. fd \<in> set (new_fds w) \<Longrightarrow> 2 < fd"
    and "wine_console_start (Some n) (Some p) True w h = (Some (a, fin, fout), t0)"
    and "heap t0 a = Some s" "execution host_step t0 [Guest (thread s) r0, Guest (thread s) r1, Guest (thread s) r2] t"
  shows "\<exists>i j. i \<noteq> j \<and> fds t fin = Some (Write_end i) \<and> fds t 0 = Some (Read_end i) \<and>
      fds t 1 = Some (Write_end j) \<and> fds t 2 = Some (Write_end j) \<and> fds t fout = Some (Read_end j) \<and>
      env t ''WINEPREFIX'' = Some (take 1023 p) \<and> env t ''WINE_INPROCESS'' = Some ''1'' \<and>
      guests t (thread s) = Some TLoad"
proof -
  from assms(3) obtain gin gout s' where S:
    "in_pipe w = Some (gin, fin)" "out_pipe w = Some (fout, gout)" "heap t0 a = Some s'"
    "guest_stdin_rd s' = gin" "guest_stdout_wr s' = gout" "guests t0 (thread s') = Some TIn" "args t0 (thread s') = a"
    "fds t0 = (fds h)(gin := Some (Read_end (next_pipe h)), fin := Some (Write_end (next_pipe h)),
       fout := Some (Read_end (next_pipe h + 1)), gout := Some (Write_end (next_pipe h + 1)))"
    "env t0 ''WINEPREFIX'' = Some (take 1023 p)" "env t0 ''WINE_INPROCESS'' = Some ''1''"
    by (rule console_start_state) blast
  have s: "s' = s" using S(3) assms(4) by simp
  have d: "distinct [gin, fin, fout, gout]" "2 < gin" "2 < fin" "2 < fout" "2 < gout"
    using assms(1) assms(2) S(1,2) by (auto simp: fresh_answers_def new_fds_def split: option.splits)
  have "fds t = (fds t0)(0 := Some (Read_end (next_pipe h)), 1 := Some (Write_end (next_pipe h + 1)),
      2 := Some (Write_end (next_pipe h + 1))) \<and> env t = env t0 \<and> guests t (thread s) = Some TLoad"
    using three_dups [OF assms(5) _ S(6) [unfolded s]] S(3-5,7,8) d s by auto
  with S(8-10) d show ?thesis
    by (intro exI [of _ "next_pipe h"] exI [of _ "next_pipe h + 1"]) auto
qed

lemma three_dups_run:
  "heap h (args h k) = Some s \<Longrightarrow> guests h k = Some TIn \<Longrightarrow>
     \<exists>t. execution host_step h [Guest k r0, Guest k r1, Guest k r2] t"
  by (simp add: execution_Cons thread_step_def Let_def with_session_def)

definition console0 :: host where
  "console0 = snd (wine_console_start (Some ''/n'') (Some ''/p'') True given_all no_fds)"

lemma console0_start:
  "wine_console_start (Some ''/n'') (Some ''/p'') True given_all no_fds = (Some (64, 11, 12), console0)"
proof -
  have "fst (wine_console_start (Some ''/n'') (Some ''/p'') True given_all no_fds) = Some (64, 11, 12)"
    by (auto simp: wine_console_start_def given_all_def refused_def no_fds_def start_host_def Let_def
        dest!: session_launch_sel split: prod.splits)
  then show ?thesis by (simp add: console0_def prod_eq_iff)
qed

lemma given_all_high: "fd \<in> set (new_fds given_all) \<Longrightarrow> 2 < fd"
  by (auto simp: new_fds_def given_all_def refused_def)

lemma console0_heap:
  obtains s where "heap console0 64 = Some s" "thread s = 0" "guests console0 0 = Some TIn" "args console0 0 = 64"
    "\<not> finished s" "exit_code s = 0"
  by (rule console_start_state [OF console0_start]) (auto simp: no_fds_def start_host_def)

theorem console_wired_witness:
  "\<exists>t i j. execution host_step console0 [Guest 0 Goes_on, Guest 0 Goes_on, Guest 0 Goes_on] t \<and> i \<noteq> j \<and>
     fds t 11 = Some (Write_end i) \<and> fds t 0 = Some (Read_end i) \<and> fds t 1 = Some (Write_end j) \<and>
     fds t 12 = Some (Read_end j)"
proof -
  obtain s t where "heap console0 64 = Some s" "thread s = 0"
    "execution host_step console0 [Guest 0 Goes_on, Guest 0 Goes_on, Guest 0 Goes_on] t"
    using console0_heap three_dups_run by metis
  with console_wired [OF no_fds_ok(2) given_all_high console0_start this(1)] show ?thesis by metis
qed

text \<open>a loader that fails is reported: if \<^verbatim>\<open>dlopen\<close> or
  \<^verbatim>\<open>dlsym\<close> fails, the next steps of the thread write the message, as far as the
  write went, to what its standard error is routed to, and store the code 255 before the
  session says finished; the other sessions and all descriptors are as before.\<close>
theorem load_failure_reported:
  assumes "heap h a = Some s" "args h q = a" "guests h q = Some TLoad" "fds h 2 = Some (Write_end j)"
    and "r = Dlopen_fails (Some msg) k \<or> r = Dlsym_fails k \<and> msg = no_main_msg"
    and "execution host_step h [Guest q r, Guest q r1, Guest q r2] t"
  shows "wine_console_is_finished (Some a) t = Some 1 \<and> wine_console_exit_code (Some a) t = Some 255 \<and>
    guests t q = Some TEnded \<and> written t = (written h)(j := written h j @ take k msg) \<and>
    fds t = fds h \<and> (\<forall>b. b \<noteq> a \<longrightarrow> heap t b = heap h b)"
  using assms
  by (auto simp: execution_Cons thread_step_def Let_def with_session_def write_fd_def goto_pc_def set_session_def
      wine_console_is_finished_def wine_console_exit_code_def split: option.splits)

definition loading :: host where
  "loading = no_fds\<lparr>fds := (\<lambda>_. None)(2 := Some (Write_end 1)),
     heap := (\<lambda>_. None)(0 := Some (new_session ''/n'' ''/p'' ''cmd.exe'')),
     guests := (\<lambda>_. None)(0 := Some TLoad), next_thread := 1\<rparr>"

theorem load_failure_reported_witness:
  "\<exists>t. execution host_step loading [Guest 0 (Dlsym_fails 5), Guest 0 Goes_on, Guest 0 Goes_on] t \<and>
     wine_console_exit_code (Some 0) t = Some 255 \<and> written t 1 = ''wine:''"
proof -
  have l: "heap loading 0 = Some (new_session ''/n'' ''/p'' ''cmd.exe'')" "args loading 0 = 0" "guests loading 0 = Some TLoad"
    "fds loading 2 = Some (Write_end 1)" "written loading 1 = []"
    by (simp_all add: loading_def no_fds_def start_host_def)
  obtain t where run: "execution host_step loading [Guest 0 (Dlsym_fails 5), Guest 0 Goes_on, Guest 0 Goes_on] t"
    using l by (auto simp: execution_Cons thread_step_def Let_def with_session_def)
  have "take 5 no_main_msg = ''wine:''" by (simp add: no_main_msg_def)
  with load_failure_reported [OF l(1-4) _ run, of no_main_msg 5] l(5) run show ?thesis by auto
qed

text \<open>C19: what a session says of its guest is true and final, for an app that releases a
  session only when its thread has ended (\<open>careful_step\<close>; the header does not ask that of
  it, and without it a session at the address of one released too early can be told finished by
  the older guest, see \<open>reused_session_lies\<close>). In every such run of starts, releases,
  closes and guest threads, with \<^verbatim>\<open>calloc\<close> free to hand out the address of a released session,
  no freed session is touched; and a session that reads finished has a thread that has ended, its
  exit code is 0 or 255, and as long as it is not released both answers stay the same whatever
  happens.\<close>
theorem finished_is_final:
  assumes "execution careful_step (start_host d e) tr h" "wine_console_is_finished (Some a) h = Some 1"
    and "execution careful_step h tr' t" "Release (Some a) \<notin> set tr'"
  shows "(\<exists>s. heap t a = Some s \<and> guests t (thread s) = Some TEnded) \<and> \<not> bad_access t \<and>
    wine_console_is_finished (Some a) t = Some 1 \<and>
    wine_console_exit_code (Some a) t = wine_console_exit_code (Some a) h \<and>
    wine_console_exit_code (Some a) h \<in> {Some 0, Some 255}"
proof -
  have inv: "careful_inv h" using careful.reachable_inv assms(1) by blast
  have "\<not> bad_access t" using careful_invD(2) [OF careful.execution_inv [OF assms(3) inv]] .
  moreover from assms(2) obtain s where s: "heap h a = Some s" "finished s"
    by (auto simp: wine_console_is_finished_def)
  with careful_invD(3) [OF inv s(1)] have e: "guests h (thread s) = Some TEnded" "exit_code s = 0 \<or> exit_code s = 255"
    by (auto simp: session_ok_def)
  moreover have "heap t a = Some s \<and> guests t (thread s) = Some TEnded"
    using ended_run [OF assms(3) inv s(1) e(1) assms(4)] .
  ultimately show ?thesis using s
    by (simp add: wine_console_is_finished_def wine_console_exit_code_def)
qed

lemma console0_run:
  "execution host_step console0 tr t \<Longrightarrow>
     execution host_step no_fds (Start_console (Some ''/n'') (Some ''/p'') True given_all # tr) t"
  by (rule execution.move) (use no_fds_ok(2) console0_start in simp_all)

lemma console0_careful:
  "execution careful_step console0 tr t \<Longrightarrow>
     execution careful_step no_fds (Start_console (Some ''/n'') (Some ''/p'') True given_all # tr) t"
  by (rule execution.move) (use no_fds_ok(2) console0_start in \<open>simp_all add: careful_step_def\<close>)

definition failing_guest :: "host_call list" where
  "failing_guest = [Guest 0 Goes_on, Guest 0 Goes_on, Guest 0 Goes_on, Guest 0 (Dlsym_fails 5),
     Guest 0 Goes_on, Guest 0 Goes_on]"

lemma failing_run:
  "heap h (args h 0) = Some s \<Longrightarrow> guests h 0 = Some TIn \<Longrightarrow>
     \<exists>t. execution careful_step h failing_guest t \<and> wine_console_is_finished (Some (args h 0)) t = Some 1"
  by (simp add: failing_guest_def execution_Cons careful_step_def thread_step_def Let_def with_session_def
      wine_console_is_finished_def)

theorem finished_is_final_witness:
  "\<exists>tr h. execution careful_step no_fds tr h \<and> wine_console_is_finished (Some 64) h = Some 1 \<and>
     wine_console_exit_code (Some 64) h \<in> {Some 0, Some 255} \<and> \<not> bad_access h"
proof -
  obtain t where t: "execution careful_step console0 failing_guest t"
    "wine_console_is_finished (Some 64) t = Some 1"
    using console0_heap failing_run [of console0] by metis
  from console0_careful [OF t(1)] finished_is_final [of "\<lambda>_. None" "\<lambda>_. None" _ t 64 "[]" t] t(2)
  show ?thesis unfolding no_fds_def by fastforce
qed

text \<open>a guest that ends the way the runtime ends guests is never seen to finish: when
  the thread leaves \<^verbatim>\<open>__wine_main\<close> by \<^verbatim>\<open>pthread_exit\<close>, nothing that happens
  later makes \<^verbatim>\<open>wine_console_is_finished\<close> true or stores an exit code, although the
  thread has ended.\<close>
theorem thread_exit_not_finished:
  assumes "execution careful_step (start_host d e) tr h" "heap h a = Some s" "guests h (thread s) = Some TMain"
    and "execution careful_step h (Guest (thread s) Exits_thread # tr') t" "Release (Some a) \<notin> set tr'"
  shows "guests t (thread s) = Some TEnded \<and> wine_console_is_finished (Some a) t = Some 0 \<and>
    wine_console_exit_code (Some a) t = Some 0"
proof -
  have inv: "careful_inv h" using careful.reachable_inv assms(1) by blast
  from assms(3,4) obtain u where u: "u = goto_pc (thread s) TEnded h" "execution careful_step u tr' t"
    by (auto simp: execution_Cons careful_step_def thread_step_def)
  have "careful_step h (Guest (thread s) Exits_thread) u"
    using assms(3) u(1) by (simp add: careful_step_def thread_step_def)
  with inv have "careful_inv u" by (rule careful.inv_step)
  with ended_run [OF u(2) _ _ _ assms(5), of s] u(1) assms(2)
  have "guests t (thread s) = Some TEnded" "heap t a = Some s" by auto
  moreover have "\<not> finished s \<and> exit_code s = 0"
    using careful_invD(3) [OF inv assms(2)] assms(3) by (auto simp: session_ok_def)
  ultimately show ?thesis
    by (simp add: wine_console_is_finished_def wine_console_exit_code_def)
qed

lemma console0_bad: "\<not> bad_access console0"
  using console_started [of no_fds given_all "Some ''/n''" "Some ''/p''" True]
  by (simp add: console0_def started_def no_fds_def start_host_def)

definition running_guest :: "host_call list" where
  "running_guest = [Guest 0 Goes_on, Guest 0 Goes_on, Guest 0 Goes_on, Guest 0 Goes_on]"

lemma running_run:
  "heap h 64 = Some s \<Longrightarrow> args h 0 = 64 \<Longrightarrow> guests h 0 = Some TIn \<Longrightarrow>
     \<exists>t. execution careful_step h running_guest t \<and> heap t 64 = Some s \<and> guests t 0 = Some TMain \<and>
       args t 0 = 64 \<and> bad_access t = bad_access h \<and> next_thread t = next_thread h"
  by (simp add: running_guest_def execution_Cons careful_step_def thread_step_def Let_def with_session_def)

lemma running_reachable:
  obtains tr h s where "execution careful_step (start_host (\<lambda>_. None) (\<lambda>_. None)) tr h"
    "execution careful_step console0 running_guest h"
    "guests h 0 = Some TMain" "heap h 64 = Some s" "thread s = 0" "args h 0 = 64" "\<not> bad_access h"
proof -
  obtain s where s: "heap console0 64 = Some s" "thread s = 0" "guests console0 0 = Some TIn" "args console0 0 = 64"
    using console0_heap by metis
  then obtain t where t: "execution careful_step console0 running_guest t" "heap t 64 = Some s"
    "guests t 0 = Some TMain" "args t 0 = 64" "bad_access t = bad_access console0"
    using running_run [of console0 s] by blast
  from that [OF console0_careful [OF t(1), unfolded no_fds_def]] t s console0_bad show ?thesis by simp
qed

theorem thread_exit_not_finished_witness:
  "\<exists>h t. guests h 0 = Some TMain \<and> execution careful_step h [Guest 0 Exits_thread] t \<and>
     guests t 0 = Some TEnded \<and> wine_console_is_finished (Some 64) t = Some 0"
proof -
  obtain tr h s where h: "execution careful_step (start_host (\<lambda>_. None) (\<lambda>_. None)) tr h"
    "guests h 0 = Some TMain" "heap h 64 = Some s" "thread s = 0" by (rule running_reachable)
  then have "execution careful_step h [Guest (thread s) Exits_thread] (goto_pc 0 TEnded h)"
    by (simp add: execution_Cons careful_step_def thread_step_def)
  with thread_exit_not_finished [OF h(1,3) _ this] h show ?thesis by fastforce
qed

text \<open>the app never reads end of file from a guest: the guest's end of the output pipe
  is closed by nothing in the code, so in every run in which the app itself does not close
  that descriptor number the pipe it reads from keeps an open writer, also after the guest
  has ended.\<close>
theorem output_pipe_stays_open:
  assumes "fresh_answers w h" "\<And>fd. fd \<in> set (new_fds w) \<Longrightarrow> 2 < fd"
    and "wine_console_start (Some n) (Some p) True w h = (Some (a, fin, fout), t0)"
    and "execution host_step t0 tr t" "Close_fd fout \<notin> set tr" "Close_fd (snd (the (out_pipe w))) \<notin> set tr"
  shows "\<exists>j. fds t fout = Some (Read_end j) \<and> fds t (snd (the (out_pipe w))) = Some (Write_end j)"
proof -
  from assms(3) obtain gin gout where S: "in_pipe w = Some (gin, fin)" "out_pipe w = Some (fout, gout)"
    "fds t0 = (fds h)(gin := Some (Read_end (next_pipe h)), fin := Some (Write_end (next_pipe h)),
       fout := Some (Read_end (next_pipe h + 1)), gout := Some (Write_end (next_pipe h + 1)))"
    by (rule console_start_state) blast
  have d: "fout \<noteq> gout" "2 < fout" "2 < gout"
    using assms(1) assms(2) S(1,2) by (auto simp: fresh_answers_def new_fds_def split: option.splits)
  have "fds t fout = Some (Read_end (next_pipe h + 1))"
    using assms(5) S d by (intro open_fd_stays [OF assms(4)]) auto
  moreover have "fds t gout = Some (Write_end (next_pipe h + 1))"
    using assms(6) S d by (intro open_fd_stays [OF assms(4)]) auto
  ultimately show ?thesis using S(2) by simp
qed

theorem output_pipe_stays_open_witness:
  "\<exists>t j. execution host_step console0 (running_guest @ [Guest 0 Exits_thread]) t \<and>
     fds t 12 = Some (Read_end j) \<and> fds t 13 = Some (Write_end j)"
proof -
  obtain u where u: "execution host_step console0 running_guest u" "guests u 0 = Some TMain"
    using running_reachable careful_run by metis
  then have "host_step u (Guest 0 Exits_thread) (goto_pc 0 TEnded u)" by (simp add: thread_step_def)
  with u(1) have run: "execution host_step console0 (running_guest @ [Guest 0 Exits_thread]) (goto_pc 0 TEnded u)"
    by (rule execution_snoc)
  have "snd (the (out_pipe given_all)) = 13" by (simp add: given_all_def refused_def)
  with output_pipe_stays_open [OF no_fds_ok(2) given_all_high console0_start run] run
  show ?thesis by (auto simp: running_guest_def)
qed

text \<open>a session can be released under a running guest: the header allows to free it
  while the guest lives, and then a guest that returns from \<^verbatim>\<open>__wine_main\<close> stores
  into freed memory.\<close>
theorem freed_session_written:
  "\<exists>tr h t. execution careful_step (start_host (\<lambda>_. None) (\<lambda>_. None)) tr h \<and> \<not> bad_access h \<and>
     heap h 64 \<noteq> None \<and> guests h 0 = Some TMain \<and>
     execution host_step h [Release (Some 64), Guest 0 Goes_on, Guest 0 Goes_on] t \<and> bad_access t"
proof -
  obtain tr h s where h: "execution careful_step (start_host (\<lambda>_. None) (\<lambda>_. None)) tr h"
    "guests h 0 = Some TMain" "heap h 64 = Some s" "args h 0 = 64" "\<not> bad_access h" by (rule running_reachable)
  then have "\<exists>t. execution host_step h [Release (Some 64), Guest 0 Goes_on, Guest 0 Goes_on] t \<and> bad_access t"
    by (auto simp: execution_Cons thread_step_def Let_def wine_console_free_def with_session_def)
  with h show ?thesis by blast
qed

text \<open>and when another session was started in between, at the address of the released one,
  the store finds that one: it reads finished while its guest has only begun.\<close>
theorem reused_session_lies:
  assumes "guests h 0 = Some TMain" "args h 0 = 64" "heap h 64 \<noteq> None" "0 < next_thread h"
    and "fresh_answers w (free_session 64 h)" "allocated w = Some 64" "readable w" "created w"
    and "in_pipe w \<noteq> None" "out_pipe w \<noteq> None"
  shows "\<exists>t s. execution host_step h [Release (Some 64), Start_console (Some n) (Some p) True w,
       Guest 0 Goes_on, Guest 0 Goes_on] t \<and> wine_console_is_finished (Some 64) t = Some 1 \<and>
     heap t 64 = Some s \<and> guests t (thread s) = Some TIn"
proof -
  let ?h = "free_session 64 h"
  let ?r = "wine_console_start (Some n) (Some p) True w ?h"
  have "fst ?r \<noteq> None" using assms by (auto simp: console_start_None_iff)
  then obtain fin fout t a where r: "?r = (Some (a, fin, fout), t)" by (cases ?r) auto
  obtain s where s: "allocated w = Some a" "heap t a = Some s" "thread s = next_thread ?h" "guests t (thread s) = Some TIn"
    by (rule console_start_state [OF r])
  have st: "started ?h w True t" using console_started [of ?h w "Some n" "Some p" True] r by simp
  have a: "a = 64" using s(1) assms(6) by simp
  have g: "guests t 0 = Some TMain" "args t 0 = 64" "thread s \<noteq> 0"
    using st s assms(1,2,4) by (auto simp: started_def)
  have "host_step h (Release (Some 64)) ?h"
    using assms(3) by (auto simp: wine_console_free_def with_session_def)
  moreover have "host_step ?h (Start_console (Some n) (Some p) True w) t" using assms(5) r by simp
  moreover have "host_step t (Guest 0 Goes_on) (goto_pc 0 TFinish t)"
    using g by (simp add: thread_step_def)
  moreover have "host_step (goto_pc 0 TFinish t) (Guest 0 Goes_on)
      (goto_pc 0 TEnded (set_session 64 (s\<lparr>finished := True\<rparr>) (goto_pc 0 TFinish t)))"
    using g s(2) a by (simp add: thread_step_def Let_def with_session_def)
  ultimately have "execution host_step h [Release (Some 64), Start_console (Some n) (Some p) True w,
      Guest 0 Goes_on, Guest 0 Goes_on] (goto_pc 0 TEnded (set_session 64 (s\<lparr>finished := True\<rparr>) (goto_pc 0 TFinish t)))"
    (is "execution _ _ _ ?u") by (blast intro: execution.intros)
  moreover have "wine_console_is_finished (Some 64) ?u = Some 1" "heap ?u 64 = Some (s\<lparr>finished := True\<rparr>)"
    "guests ?u (thread (s\<lparr>finished := True\<rparr>)) = Some TIn"
    using g s(4) by (simp_all add: wine_console_is_finished_def)
  ultimately show ?thesis by blast
qed

theorem reused_session_lies_witness:
  "\<exists>(h :: host) t. guests h 0 = Some TMain \<and> wine_console_is_finished (Some 64) t = Some 1 \<and>
     (\<exists>s. heap t 64 = Some s \<and> guests t (thread s) = Some TIn)"
proof -
  define h where "h = no_fds\<lparr>guests := (\<lambda>_. None)(0 := Some TMain), args := (\<lambda>_. 64), next_thread := 1,
     heap := (\<lambda>_. None)(64 := Some (new_session ''/n'' ''/p'' ''cmd.exe''))\<rparr>"
  have h: "guests h 0 = Some TMain" "args h 0 = 64" "heap h 64 \<noteq> None" "0 < next_thread h"
    "fresh_answers given_all (free_session 64 h)"
    by (simp_all add: h_def no_fds_def start_host_def fresh_answers_def new_fds_def given_all_def refused_def)
  have w: "allocated given_all = Some 64" "readable given_all" "created given_all"
    "in_pipe given_all \<noteq> None" "out_pipe given_all \<noteq> None" by (simp_all add: given_all_def refused_def)
  from reused_session_lies [OF h w, of "''/n''" "''/p''"] h(1) show ?thesis by blast
qed

section \<open>The guest's exit and the app\<close>

definition env_ok :: "host \<Rightarrow> bool" where
  "env_ok h \<longleftrightarrow> (\<forall>a. guests h a \<noteq> None \<longrightarrow> env h ''WINE_INPROCESS'' = Some ''1'')"

lemma host_env [simp]:
  "env (host_close fd h) = env h" "env (make_pipe q h) = env h" "env (free_session a h) = env h"
  "env (write_fd fd m k h) = env h" "env (set_session a s h) = env h"
  by (simp_all add: host_close_def make_pipe_def free_session_def write_fd_def set_session_def
      split: option.split fobj.split)

lemma thread_step_env: "env (thread_step a r c h) = env h"
  by (simp add: thread_step_def Let_def with_session_def split: thread_pc.split outcome.split option.split)

lemma start_env:
  "env (snd (wine_console_start n p given w h)) ''WINE_INPROCESS'' \<in> {env h ''WINE_INPROCESS'', Some ''1''}"
  "env (snd (wine_gui_start n p e given w h)) ''WINE_INPROCESS'' \<in> {env h ''WINE_INPROCESS'', Some ''1''}"
  "fst (wine_console_start n p given w h) \<noteq> None \<Longrightarrow>
     env (snd (wine_console_start n p given w h)) ''WINE_INPROCESS'' = Some ''1''"
  "fst (wine_gui_start n p e given w h) \<noteq> None \<Longrightarrow>
     env (snd (wine_gui_start n p e given w h)) ''WINE_INPROCESS'' = Some ''1''"
  by (auto simp: wine_console_start_def wine_gui_start_def Let_def dest!: session_launch_env(2)
      split: option.splits prod.splits if_splits)

lemma env_ok_started:
  assumes "env_ok h" "started h w ok t"
    and "env t ''WINE_INPROCESS'' \<in> {env h ''WINE_INPROCESS'', Some ''1''}"
    and "ok \<Longrightarrow> env t ''WINE_INPROCESS'' = Some ''1''"
  shows "env_ok t"
  using assms by (cases ok) (auto simp: env_ok_def started_def)

lemma env_ok_step:
  assumes "env_ok h" "host_step h l t"
  shows "env_ok t"
proof (cases l)
  case (Start_console n p given w)
  with assms have "t = snd (wine_console_start n p given w h)" by simp
  then show ?thesis
    using env_ok_started [OF assms(1) console_started [of h w n p given]] start_env(1,3) by simp
next
  case (Start_gui n p e given w)
  with assms have "t = snd (wine_gui_start n p e given w h)" by simp
  then show ?thesis
    using env_ok_started [OF assms(1) gui_started [of h w n p e given]] start_env(2,4) by simp
next
  case (Release q)
  with assms show ?thesis
    by (cases q) (auto simp: env_ok_def wine_console_free_def with_session_def split: option.splits)
next
  case (Guest a r)
  with assms obtain c where c: "guests h a = Some c" "t = thread_step a r c h"
    by (auto split: option.splits)
  with assms(1) show ?thesis
    by (auto simp: env_ok_def thread_step_env thread_step_frame(3))
qed (use assms in \<open>auto simp: env_ok_def\<close>)

text \<open>C18: the two process exits of the runtime that the patches redirect spare the app:
  whatever the app does with its sessions, once a guest thread exists the environment makes
  \<^verbatim>\<open>process_exit_wrapper\<close> (the exit of the last thread of a process) and
  \<^verbatim>\<open>abort_process\<close> end the calling thread only. The other ways out of the runtime are
  not covered: \<^verbatim>\<open>fatal_error\<close> of the loader and the \<^verbatim>\<open>exit\<close> in \<^verbatim>\<open>start_server\<close>
  still end the app.\<close>
theorem guest_exit_spares_host:
  assumes "execution host_step (start_host d e) tr h" "guests h a \<noteq> None"
  shows "snd (process_exit_wrapper True (env h) fd_socket status) = Ends_thread status \<and>
    abort_process True unix_code (env h) status = Ends_thread status"
proof -
  have kept: "env_ok u" if "host_inv s" "env_ok s" "host_step s l u" for s l u
    using that(2,3) by (rule env_ok_step)
  have "env_ok h"
    by (rule host.execution_stable [where P = env_ok, OF kept assms(1)])
       (auto simp: env_ok_def start_host_def intro: host.inv_start [unfolded start_host_def])
  with assms(2) show ?thesis by (auto simp: env_ok_def process_exit_wrapper_def abort_process_def)
qed

theorem guest_exit_spares_host_witness:
  "\<exists>h :: host. guests h 0 = Some TMain \<and> snd (process_exit_wrapper True (env h) 3 7) = Ends_thread 7"
proof -
  obtain tr h s where h: "execution careful_step (start_host (\<lambda>_. None) (\<lambda>_. None)) tr h"
    "guests h 0 = Some TMain" "heap h 64 = Some s" by (rule running_reachable)
  then have "snd (process_exit_wrapper True (env h) 3 7) = Ends_thread 7"
    using guest_exit_spares_host [OF careful_run [OF h(1)], of 0] by simp
  with h(2) show ?thesis by blast
qed

end
