(* ===== verification/PeImage.thy ===== *)
theory PeImage
  imports Memory
begin

text \<open>
  The PE32+ images of \<^verbatim>\<open>native/wineforge\<close>: the packed header structures that
  \<^verbatim>\<open>mkexe.c\<close> writes and \<^verbatim>\<open>peload_test.c\<close> reads, as records with the bytes
  they occupy, and memory as a map from offsets to bytes.
\<close>

section \<open>The structures\<close>

record dos_header =
  e_magic :: u16
  e_lfanew :: u32

record file_header =
  Machine :: u16
  NumberOfSections :: u16
  TimeDateStamp :: u32
  PointerToSymbolTable :: u32
  NumberOfSymbols :: u32
  SizeOfOptionalHeader :: u16
  fh_Characteristics :: u16

record data_dir =
  dd_VirtualAddress :: u32
  dd_Size :: u32

record opt_header64 =
  Magic :: u16
  MajorLinker :: u8
  MinorLinker :: u8
  SizeOfCode :: u32
  SizeOfInitializedData :: u32
  SizeOfUninitializedData :: u32
  AddressOfEntryPoint :: u32
  BaseOfCode :: u32
  ImageBase :: u64
  SectionAlignment :: u32
  FileAlignment :: u32
  MajorOS :: u16
  MinorOS :: u16
  MajorImage :: u16
  MinorImage :: u16
  MajorSub :: u16
  MinorSub :: u16
  Win32VersionValue :: u32
  SizeOfImage :: u32
  SizeOfHeaders :: u32
  CheckSum :: u32
  Subsystem :: u16
  DllCharacteristics :: u16
  SizeOfStackReserve :: u64
  SizeOfStackCommit :: u64
  SizeOfHeapReserve :: u64
  SizeOfHeapCommit :: u64
  LoaderFlags :: u32
  NumberOfRvaAndSizes :: u32
  DataDirectory :: "data_dir list"

record section_header =
  sec_Name :: "byte list"
  VirtualSize :: u32
  sec_VirtualAddress :: u32
  SizeOfRawData :: u32
  PointerToRawData :: u32
  PointerToRelocations :: u32
  PointerToLinenumbers :: u32
  NumberOfRelocations :: u16
  NumberOfLinenumbers :: u16
  sec_Characteristics :: u32

record base_reloc_block =
  blk_VirtualAddress :: u32
  SizeOfBlock :: u32

abbreviation DIR_BASERELOC :: nat where "DIR_BASERELOC \<equiv> 5"
abbreviation REL_BASED_DIR64 :: nat where "REL_BASED_DIR64 \<equiv> 10"
abbreviation SUBSYS_CUI :: u16 where "SUBSYS_CUI \<equiv> 3"
abbreviation SEC_ALIGN :: nat where "SEC_ALIGN \<equiv> 0x1000"
abbreviation FILE_ALIGN :: nat where "FILE_ALIGN \<equiv> 0x200"
abbreviation TEXT_RVA :: nat where "TEXT_RVA \<equiv> 0x1000"
abbreviation DATA_RVA :: nat where "DATA_RVA \<equiv> 0x2000"
abbreviation RELOC_RVA :: nat where "RELOC_RVA \<equiv> 0x3000"
abbreviation IMAGE_SIZE :: nat where "IMAGE_SIZE \<equiv> 0x4000"
abbreviation PREFERRED_BASE :: u64 where "PREFERRED_BASE \<equiv> 0x140000000"

section \<open>Their bytes\<close>

text \<open>The structures are packed, so each is the concatenation of its fields.\<close>

definition dos_header_bytes :: "dos_header \<Rightarrow> byte list" where
  "dos_header_bytes d = le_bytes 2 (e_magic d) @ replicate 58 0 @ le_bytes 4 (e_lfanew d)"

definition file_header_bytes :: "file_header \<Rightarrow> byte list" where
  "file_header_bytes f = le_bytes 2 (Machine f) @ le_bytes 2 (NumberOfSections f) @
     le_bytes 4 (TimeDateStamp f) @ le_bytes 4 (PointerToSymbolTable f) @
     le_bytes 4 (NumberOfSymbols f) @ le_bytes 2 (SizeOfOptionalHeader f) @
     le_bytes 2 (fh_Characteristics f)"

definition data_dir_bytes :: "data_dir \<Rightarrow> byte list" where
  "data_dir_bytes d = le_bytes 4 (dd_VirtualAddress d) @ le_bytes 4 (dd_Size d)"

definition opt_header64_bytes :: "opt_header64 \<Rightarrow> byte list" where
  "opt_header64_bytes h = le_bytes 2 (Magic h) @ le_bytes 1 (MajorLinker h) @ le_bytes 1 (MinorLinker h) @
     le_bytes 4 (SizeOfCode h) @ le_bytes 4 (SizeOfInitializedData h) @
     le_bytes 4 (SizeOfUninitializedData h) @ le_bytes 4 (AddressOfEntryPoint h) @
     le_bytes 4 (BaseOfCode h) @ le_bytes 8 (ImageBase h) @ le_bytes 4 (SectionAlignment h) @
     le_bytes 4 (FileAlignment h) @ le_bytes 2 (MajorOS h) @ le_bytes 2 (MinorOS h) @
     le_bytes 2 (MajorImage h) @ le_bytes 2 (MinorImage h) @ le_bytes 2 (MajorSub h) @
     le_bytes 2 (MinorSub h) @ le_bytes 4 (Win32VersionValue h) @ le_bytes 4 (SizeOfImage h) @
     le_bytes 4 (SizeOfHeaders h) @ le_bytes 4 (CheckSum h) @ le_bytes 2 (Subsystem h) @
     le_bytes 2 (DllCharacteristics h) @ le_bytes 8 (SizeOfStackReserve h) @
     le_bytes 8 (SizeOfStackCommit h) @ le_bytes 8 (SizeOfHeapReserve h) @
     le_bytes 8 (SizeOfHeapCommit h) @ le_bytes 4 (LoaderFlags h) @
     le_bytes 4 (NumberOfRvaAndSizes h) @ concat (map data_dir_bytes (DataDirectory h))"

definition section_header_bytes :: "section_header \<Rightarrow> byte list" where
  "section_header_bytes s = sec_Name s @ le_bytes 4 (VirtualSize s) @ le_bytes 4 (sec_VirtualAddress s) @
     le_bytes 4 (SizeOfRawData s) @ le_bytes 4 (PointerToRawData s) @
     le_bytes 4 (PointerToRelocations s) @ le_bytes 4 (PointerToLinenumbers s) @
     le_bytes 2 (NumberOfRelocations s) @ le_bytes 2 (NumberOfLinenumbers s) @
     le_bytes 4 (sec_Characteristics s)"

definition base_reloc_block_bytes :: "base_reloc_block \<Rightarrow> byte list" where
  "base_reloc_block_bytes b = le_bytes 4 (blk_VirtualAddress b) @ le_bytes 4 (SizeOfBlock b)"

section \<open>Reading them\<close>

definition read_dos_header :: "mem \<Rightarrow> nat \<Rightarrow> dos_header" where
  "read_dos_header m a = \<lparr>e_magic = word_at m a 2, e_lfanew = word_at m (a + 60) 4\<rparr>"

definition read_file_header :: "mem \<Rightarrow> nat \<Rightarrow> file_header" where
  "read_file_header m a = \<lparr>Machine = word_at m a 2, NumberOfSections = word_at m (a + 2) 2,
     TimeDateStamp = word_at m (a + 4) 4, PointerToSymbolTable = word_at m (a + 8) 4,
     NumberOfSymbols = word_at m (a + 12) 4, SizeOfOptionalHeader = word_at m (a + 16) 2,
     fh_Characteristics = word_at m (a + 18) 2\<rparr>"

definition read_data_dir :: "mem \<Rightarrow> nat \<Rightarrow> data_dir" where
  "read_data_dir m a = \<lparr>dd_VirtualAddress = word_at m a 4, dd_Size = word_at m (a + 4) 4\<rparr>"

definition read_opt_header64 :: "mem \<Rightarrow> nat \<Rightarrow> opt_header64" where
  "read_opt_header64 m a = \<lparr>Magic = word_at m a 2, MajorLinker = word_at m (a + 2) 1,
     MinorLinker = word_at m (a + 3) 1, SizeOfCode = word_at m (a + 4) 4,
     SizeOfInitializedData = word_at m (a + 8) 4, SizeOfUninitializedData = word_at m (a + 12) 4,
     AddressOfEntryPoint = word_at m (a + 16) 4, BaseOfCode = word_at m (a + 20) 4,
     ImageBase = word_at m (a + 24) 8, SectionAlignment = word_at m (a + 32) 4,
     FileAlignment = word_at m (a + 36) 4, MajorOS = word_at m (a + 40) 2, MinorOS = word_at m (a + 42) 2,
     MajorImage = word_at m (a + 44) 2, MinorImage = word_at m (a + 46) 2,
     MajorSub = word_at m (a + 48) 2, MinorSub = word_at m (a + 50) 2,
     Win32VersionValue = word_at m (a + 52) 4, SizeOfImage = word_at m (a + 56) 4,
     SizeOfHeaders = word_at m (a + 60) 4, CheckSum = word_at m (a + 64) 4,
     Subsystem = word_at m (a + 68) 2, DllCharacteristics = word_at m (a + 70) 2,
     SizeOfStackReserve = word_at m (a + 72) 8, SizeOfStackCommit = word_at m (a + 80) 8,
     SizeOfHeapReserve = word_at m (a + 88) 8, SizeOfHeapCommit = word_at m (a + 96) 8,
     LoaderFlags = word_at m (a + 104) 4, NumberOfRvaAndSizes = word_at m (a + 108) 4,
     DataDirectory = map (\<lambda>i. read_data_dir m (a + 112 + 8 * i)) [0..<16]\<rparr>"

definition read_section_header :: "mem \<Rightarrow> nat \<Rightarrow> section_header" where
  "read_section_header m a = \<lparr>sec_Name = peek m a 8, VirtualSize = word_at m (a + 8) 4,
     sec_VirtualAddress = word_at m (a + 12) 4, SizeOfRawData = word_at m (a + 16) 4,
     PointerToRawData = word_at m (a + 20) 4, PointerToRelocations = word_at m (a + 24) 4,
     PointerToLinenumbers = word_at m (a + 28) 4, NumberOfRelocations = word_at m (a + 32) 2,
     NumberOfLinenumbers = word_at m (a + 34) 2, sec_Characteristics = word_at m (a + 36) 4\<rparr>"

definition read_base_reloc_block :: "mem \<Rightarrow> nat \<Rightarrow> base_reloc_block" where
  "read_base_reloc_block m a = \<lparr>blk_VirtualAddress = word_at m a 4, SizeOfBlock = word_at m (a + 4) 4\<rparr>"

section \<open>What is written is read back\<close>

lemma struct_length [simp]:
  "length (dos_header_bytes d) = 64" "length (file_header_bytes f) = 20" "length (data_dir_bytes dd) = 8"
  "length (base_reloc_block_bytes b) = 8"
  by (simp_all add: dos_header_bytes_def file_header_bytes_def data_dir_bytes_def base_reloc_block_bytes_def)

lemma section_header_length [simp]: "length (sec_Name s) = 8 \<Longrightarrow> length (section_header_bytes s) = 40"
  by (simp add: section_header_bytes_def)

lemma data_dirs_length [simp]: "length (concat (map data_dir_bytes ds)) = 8 * length ds"
  by (induction ds) simp_all

lemma opt_header64_length [simp]:
  "length (DataDirectory h) = 16 \<Longrightarrow> length (opt_header64_bytes h) = 240"
  by (simp add: opt_header64_bytes_def)

lemmas plain_offsets = add_2_eq_Suc add_2_eq_Suc' le_bytes.simps

lemma read_dos_header_stored: "stored m a (dos_header_bytes d) \<Longrightarrow> read_dos_header m a = d"
  by (simp add: dos_header_bytes_def layout read_dos_header_def ac_simps)

lemma read_file_header_stored: "stored m a (file_header_bytes f) \<Longrightarrow> read_file_header m a = f"
  by (simp add: file_header_bytes_def layout read_file_header_def ac_simps del: plain_offsets)

lemma read_data_dir_stored: "stored m a (data_dir_bytes d) \<Longrightarrow> read_data_dir m a = d"
  by (simp add: data_dir_bytes_def layout read_data_dir_def ac_simps)

lemma read_data_dirs_stored:
  "stored m a (concat (map data_dir_bytes ds)) \<Longrightarrow>
     map (\<lambda>i. read_data_dir m (a + 8 * i)) [0..<length ds] = ds"
proof (induction ds arbitrary: a)
  case (Cons d ds)
  then have "read_data_dir m a = d" "map (\<lambda>i. read_data_dir m (a + 8 + 8 * i)) [0..<length ds] = ds"
    by (simp_all add: layout read_data_dir_stored)
  moreover have "[0..<length (d # ds)] = 0 # map Suc [0..<length ds]"
    by (simp add: map_Suc_upt upt_conv_Cons del: upt_Suc)
  ultimately show ?case by (simp add: o_def add.assoc del: upt_Suc)
qed simp

lemma read_opt_header64_stored:
  assumes "length (DataDirectory h) = 16" "stored m a (opt_header64_bytes h)"
  shows "read_opt_header64 m a = h"
proof -
  have "map (\<lambda>i. read_data_dir m (a + 112 + 8 * i)) [0..<16] = DataDirectory h"
    using read_data_dirs_stored [of m "a + 112" "DataDirectory h"] assms
    by (simp add: opt_header64_bytes_def layout ac_simps del: plain_offsets)
  with assms show ?thesis
    by (simp add: opt_header64_bytes_def layout read_opt_header64_def ac_simps del: plain_offsets)
qed

lemma read_section_header_stored:
  "length (sec_Name s) = 8 \<Longrightarrow> stored m a (section_header_bytes s) \<Longrightarrow> read_section_header m a = s"
  by (simp add: section_header_bytes_def layout read_section_header_def stored_def [of _ _ "sec_Name s"]
      ac_simps del: plain_offsets)

lemma read_base_reloc_block_stored:
  "stored m a (base_reloc_block_bytes b) \<Longrightarrow> read_base_reloc_block m a = b"
  by (simp add: base_reloc_block_bytes_def layout read_base_reloc_block_def ac_simps)

end
