(* ===== verification/Mkexe.thy ===== *)
theory Mkexe
  imports PeImage CText
begin

text \<open>
  \<^verbatim>\<open>native/wineforge/mkexe.c\<close>, which writes a minimal import-free executable whose
  entry point returns a chosen code, and the loader of \<^verbatim>\<open>peload_test.c\<close> whose
  layout it mirrors: mapping the sections and walking the base relocations.
\<close>

section \<open>The image\<close>

definition mk_dos :: dos_header where
  "mk_dos = \<lparr>e_magic = 0x5A4D, e_lfanew = 0x40\<rparr>"

definition mk_file_header :: file_header where
  "mk_file_header = \<lparr>Machine = 0x8664, NumberOfSections = 3, TimeDateStamp = 0, PointerToSymbolTable = 0,
     NumberOfSymbols = 0, SizeOfOptionalHeader = 240, fh_Characteristics = 0x0022\<rparr>"

definition mk_opt_header :: opt_header64 where
  "mk_opt_header = \<lparr>Magic = 0x20b, MajorLinker = 0, MinorLinker = 0, SizeOfCode = 0,
     SizeOfInitializedData = 0, SizeOfUninitializedData = 0, AddressOfEntryPoint = of_nat TEXT_RVA,
     BaseOfCode = of_nat TEXT_RVA, ImageBase = PREFERRED_BASE, SectionAlignment = of_nat SEC_ALIGN,
     FileAlignment = of_nat FILE_ALIGN, MajorOS = 6, MinorOS = 0, MajorImage = 0, MinorImage = 0,
     MajorSub = 6, MinorSub = 0, Win32VersionValue = 0, SizeOfImage = of_nat IMAGE_SIZE,
     SizeOfHeaders = of_nat FILE_ALIGN, CheckSum = 0, Subsystem = SUBSYS_CUI, DllCharacteristics = 0,
     SizeOfStackReserve = 0x100000, SizeOfStackCommit = 0, SizeOfHeapReserve = 0x100000,
     SizeOfHeapCommit = 0, LoaderFlags = 0, NumberOfRvaAndSizes = 16,
     DataDirectory = (replicate 16 \<lparr>dd_VirtualAddress = 0, dd_Size = 0\<rparr>)
       [DIR_BASERELOC := \<lparr>dd_VirtualAddress = of_nat RELOC_RVA, dd_Size = 8 + 2\<rparr>]\<rparr>"

text \<open>A section header with the fields \<^verbatim>\<open>main\<close> sets; the others stay 0.\<close>

definition mk_section :: "string \<Rightarrow> u32 \<Rightarrow> nat \<Rightarrow> u32 \<Rightarrow> section_header" where
  "mk_section name vsize rva chars =
     \<lparr>sec_Name = map of_char name @ replicate (8 - length name) 0, VirtualSize = vsize,
      sec_VirtualAddress = of_nat rva, SizeOfRawData = of_nat FILE_ALIGN, PointerToRawData = of_nat rva,
      PointerToRelocations = 0, PointerToLinenumbers = 0, NumberOfRelocations = 0,
      NumberOfLinenumbers = 0, sec_Characteristics = chars\<rparr>"

definition mk_sections :: "section_header list" where
  "mk_sections = [mk_section ''.text'' 0x20 TEXT_RVA 0x60000020,
     mk_section ''.data'' 8 DATA_RVA 0xC0000040, mk_section ''.reloc'' 0x10 RELOC_RVA 0x42000040]"

text \<open>\<^verbatim>\<open>mov eax, code; ret\<close>\<close>

definition entry_code :: "u32 \<Rightarrow> byte list" where
  "entry_code code_val = [0xB8, ucast (code_val AND 0xff), ucast (drop_bit 8 code_val AND 0xff),
     ucast (drop_bit 16 code_val AND 0xff), ucast (drop_bit 24 code_val AND 0xff), 0xC3]"

definition mk_block :: base_reloc_block where
  "mk_block = \<lparr>blk_VirtualAddress = of_nat DATA_RVA, SizeOfBlock = 8 + 2\<rparr>"

definition mk_entry :: u16 where
  "mk_entry = push_bit 12 (of_nat REL_BASED_DIR64) OR 0"

text \<open>The buffer after the assignments of \<^verbatim>\<open>main\<close>; the offsets are the code's pointers.\<close>

definition pe_image :: "u32 \<Rightarrow> mem" where
  "pe_image code_val =
     (let pe = unat (e_lfanew mk_dos); fh = pe + 4; oh = fh + 20; sec = oh + 240;
          m0 = poke 0 (dos_header_bytes mk_dos) (\<lambda>_. 0);
          m1 = poke pe (le_bytes 4 (0x00004550 :: u32)) m0;
          m2 = poke fh (file_header_bytes mk_file_header) m1;
          m3 = poke oh (opt_header64_bytes mk_opt_header) m2;
          m4 = poke sec (concat (map section_header_bytes mk_sections)) m3;
          m5 = poke TEXT_RVA (entry_code code_val) m4;
          m6 = poke DATA_RVA (le_bytes 8 (PREFERRED_BASE + of_nat DATA_RVA)) m5;
          m7 = poke RELOC_RVA (base_reloc_block_bytes mk_block) m6
      in poke (RELOC_RVA + 8) (le_bytes 2 mk_entry) m7)"

section \<open>The program\<close>

record mkexe_result =
  status :: int
  out_file :: "byte list option" \<comment> \<open>what the output file holds, if it was opened\<close>
  stdout :: string

text \<open>
  \<open>opened\<close>: \<^verbatim>\<open>fopen\<close> succeeded; \<open>wrote\<close>: the result of \<^verbatim>\<open>fwrite\<close>. What
  goes to the standard error is left out.
\<close>

definition mkexe :: "string list \<Rightarrow> bool \<Rightarrow> nat \<Rightarrow> mkexe_result" where
  "mkexe argv opened wrote =
     (let code_val = (if 2 < length argv then ucast (strtoul (argv ! 2)) else 42 :: u32);
          image = peek (pe_image code_val) 0 IMAGE_SIZE
      in if length argv < 2 then \<lparr>status = 2, out_file = None, stdout = []\<rparr>
         else if \<not> opened then \<lparr>status = 1, out_file = None, stdout = []\<rparr>
         else if wrote \<noteq> IMAGE_SIZE then \<lparr>status = 1, out_file = Some (take wrote image), stdout = []\<rparr>
         else \<lparr>status = 0, out_file = Some image,
                stdout = ''wrote '' @ argv ! 1 @ '' ('' @ dec IMAGE_SIZE @ '' bytes), entry returns '' @
                  dec (unat code_val) @ [CHR 0x0A]\<rparr>)"

section \<open>The loader\<close>

text \<open>An access outside the mapping or the file is a fault, \<open>None\<close>.\<close>

definition copy_in :: "nat \<Rightarrow> byte list \<Rightarrow> nat \<Rightarrow> nat \<Rightarrow> nat \<Rightarrow> mem \<Rightarrow> mem option" where
  "copy_in msize file dst src n m =
     (if n = 0 then Some m
      else if src + n \<le> length file \<and> dst + n \<le> msize then Some (poke dst (take n (drop src file)) m)
      else None)"

fun copy_sections :: "nat \<Rightarrow> byte list \<Rightarrow> section_header list \<Rightarrow> mem \<Rightarrow> mem option" where
  "copy_sections msize file [] m = Some m"
| "copy_sections msize file (s # ss) m =
     (case copy_in msize file (unat (sec_VirtualAddress s)) (unat (PointerToRawData s)) (unat (VirtualSize s)) m of
        None \<Rightarrow> None | Some m1 \<Rightarrow> copy_sections msize file ss m1)"

text \<open>
  The entries of the block at \<open>blk\<close>, \<open>k\<close> of them from number \<open>i\<close> on. The block's page address
  and the entries are read again in each turn.
\<close>

fun reloc_entries :: "nat \<Rightarrow> nat \<Rightarrow> u64 \<Rightarrow> nat \<Rightarrow> nat \<Rightarrow> mem \<Rightarrow> mem option" where
  "reloc_entries msize blk delta i 0 m = Some m"
| "reloc_entries msize blk delta i (Suc k) m =
     (let a = blk + 8 + 2 * i in
      if msize < a + 2 then None
      else
        let ent = word_at m a 2 :: u16; type = unat (drop_bit 12 ent); ofs = unat (ent AND 0xfff);
            target = unat (blk_VirtualAddress (read_base_reloc_block m blk)) + ofs
        in if type = REL_BASED_DIR64 then
             (if msize < target + 8 then None
              else reloc_entries msize blk delta (i + 1) k
                     (poke target (le_bytes 8 (word_at m target 8 + delta)) m))
           else reloc_entries msize blk delta (i + 1) k m)"

text \<open>
  The walk over the blocks; \<open>off\<close> is 32 bits wide. The outer \<open>None\<close> is a walk that does not
  end, the inner one a fault.
\<close>

partial_function (option) reloc_walk :: "nat \<Rightarrow> nat \<Rightarrow> nat \<Rightarrow> u64 \<Rightarrow> nat \<Rightarrow> mem \<Rightarrow> mem option option" where
  "reloc_walk msize reloc_rva reloc_sz delta off m =
     (if reloc_sz \<le> off then Some (Some m)
      else
        let blk = reloc_rva + off; bsz = unat (SizeOfBlock (read_base_reloc_block m blk))
        in if msize < blk + 8 then Some None
           else if bsz < 8 then Some (Some m)
           else (case reloc_entries msize blk delta 0 ((bsz - 8) div 2) m of
                   None \<Rightarrow> Some None
                 | Some m1 \<Rightarrow>
                     reloc_walk msize reloc_rva reloc_sz delta
                       ((off + unat (SizeOfBlock (read_base_reloc_block m1 blk))) mod 2 ^ 32) m1))"

datatype loaded = Returns_NULL | Faults | Image mem

text \<open>
  \<open>mapped\<close>: the address \<^verbatim>\<open>mmap\<close> gave, if it did not fail; \<open>protected\<close>: what
  \<^verbatim>\<open>mprotect\<close> answered.
\<close>

definition load_pe :: "byte list \<Rightarrow> u64 option \<Rightarrow> bool \<Rightarrow> loaded option" where
  "load_pe file mapped protected =
     (let f = poke 0 file (\<lambda>_. 0); pe = unat (e_lfanew (read_dos_header f 0));
          fh = read_file_header f (pe + 4); oh = read_opt_header64 f (pe + 24);
          sec = pe + 24 + unat (SizeOfOptionalHeader fh); n = unat (NumberOfSections fh);
          msize = unat (SizeOfImage oh)
      in if length file < 64 \<or> length file < pe + 24 + 240 \<or> length file < sec + 40 * n then Some Faults
         else (case mapped of
             None \<Rightarrow> Some Returns_NULL
           | Some base \<Rightarrow>
               (case copy_in msize file 0 0 (unat (SizeOfHeaders oh)) (\<lambda>_. 0) of
                  None \<Rightarrow> Some Faults
                | Some m1 \<Rightarrow>
                    (case copy_sections msize file (map (\<lambda>i. read_section_header f (sec + 40 * i)) [0..<n]) m1 of
                       None \<Rightarrow> Some Faults
                     | Some m2 \<Rightarrow>
                         let dir = DataDirectory oh ! DIR_BASERELOC in
                         (case reloc_walk msize (unat (dd_VirtualAddress dir)) (unat (dd_Size dir))
                                 (base - ImageBase oh) 0 m2 of
                            None \<Rightarrow> None
                          | Some None \<Rightarrow> Some Faults
                          | Some (Some m3) \<Rightarrow> Some (if protected then Image m3 else Returns_NULL))))))"

end
