(* ===== verification/MkexeProps.thy ===== *)
theory MkexeProps
  imports Mkexe
begin

text \<open>
  What \<^verbatim>\<open>mkexe\<close> emits: the layout of the image, the loading of it at any base, and
  the code its entry point returns.
\<close>

section \<open>The regions of the image\<close>

lemma mk_lengths [simp]:
  "length (opt_header64_bytes mk_opt_header) = 240"
  "length (concat (map section_header_bytes mk_sections)) = 120"
  "length (entry_code c) = 6"
  by (simp_all add: mk_opt_header_def mk_sections_def mk_section_def entry_code_def)

lemma pe_image_eq:
  "pe_image c = poke 0x3008 (le_bytes 2 mk_entry) (poke 0x3000 (base_reloc_block_bytes mk_block)
     (poke 0x2000 (le_bytes 8 (PREFERRED_BASE + 0x2000)) (poke 0x1000 (entry_code c)
       (poke 0x148 (concat (map section_header_bytes mk_sections))
         (poke 0x58 (opt_header64_bytes mk_opt_header) (poke 0x44 (file_header_bytes mk_file_header)
           (poke 0x40 (le_bytes 4 (0x4550 :: u32)) (poke 0 (dos_header_bytes mk_dos) (\<lambda>_. 0)))))))))"
  by (simp add: pe_image_def mk_dos_def Let_def del: le_bytes.simps)

lemma pe_image_stored:
  "stored (pe_image c) 0 (dos_header_bytes mk_dos)"
  "stored (pe_image c) 0x40 (le_bytes 4 (0x4550 :: u32))"
  "stored (pe_image c) 0x44 (file_header_bytes mk_file_header)"
  "stored (pe_image c) 0x58 (opt_header64_bytes mk_opt_header)"
  "stored (pe_image c) 0x148 (concat (map section_header_bytes mk_sections))"
  "stored (pe_image c) 0x1000 (entry_code c)"
  "stored (pe_image c) 0x2000 (le_bytes 8 (PREFERRED_BASE + 0x2000))"
  "stored (pe_image c) 0x3000 (base_reloc_block_bytes mk_block)"
  "stored (pe_image c) 0x3008 (le_bytes 2 mk_entry)"
  unfolding pe_image_eq
  by (simp_all add: stored_poke stored_poke_other del: le_bytes.simps)

text \<open>Everything else is zero.\<close>

lemma pe_image_zero:
  "0x1C0 \<le> i \<and> i < 0x1000 \<or> 0x1006 \<le> i \<and> i < 0x2000 \<or> 0x2008 \<le> i \<and> i < 0x3000 \<or> 0x300A \<le> i \<Longrightarrow>
     pe_image c i = 0"
  unfolding pe_image_eq by (elim disjE; simp add: poke_outside del: le_bytes.simps)

section \<open>Loading it\<close>

abbreviation exe_file :: "u32 \<Rightarrow> byte list" where
  "exe_file c \<equiv> peek (pe_image c) 0 IMAGE_SIZE"

lemma exe_file_mem: "poke 0 (exe_file c) (\<lambda>_. 0) = pe_image c"
  by (auto simp: fun_eq_iff poke_def pe_image_zero)

lemma poke_slice:
  "a + n \<le> N \<Longrightarrow> poke a (take n (drop a (peek m 0 N))) m' =
     (\<lambda>i. if a \<le> i \<and> i < a + n then m i else m' i)"
  by (auto simp: fun_eq_iff poke_def)

lemma exe_headers:
  "read_dos_header (pe_image c) 0 = mk_dos" "read_file_header (pe_image c) 0x44 = mk_file_header"
  "read_opt_header64 (pe_image c) 0x58 = mk_opt_header"
  "read_base_reloc_block (pe_image c) 0x3000 = mk_block"
  "word_at (pe_image c) 0x2000 8 = PREFERRED_BASE + 0x2000" "word_at (pe_image c) 0x3008 2 = mk_entry"
  "word_at (pe_image c) 0x40 4 = (0x4550 :: u32)"
  using pe_image_stored [of c]
  by (simp_all add: read_dos_header_stored read_file_header_stored read_opt_header64_stored
      read_base_reloc_block_stored layout mk_opt_header_def del: le_bytes.simps)

lemma exe_sections:
  "map (\<lambda>i. read_section_header (pe_image c) (0x148 + 40 * i)) [0..<3] = mk_sections"
proof -
  have "stored (pe_image c) 0x148 (concat (map section_header_bytes mk_sections))"
    by (rule pe_image_stored)
  then have "read_section_header (pe_image c) 0x148 = mk_sections ! 0"
    "read_section_header (pe_image c) 0x170 = mk_sections ! 1"
    "read_section_header (pe_image c) 0x198 = mk_sections ! 2"
    by (simp_all add: mk_sections_def layout read_section_header_stored mk_section_def)
  then show ?thesis
    by (simp add: upt_rec mk_sections_def)
qed

lemma mk_entry_fields: "unat (drop_bit 12 mk_entry) = 10" "unat (mk_entry AND 0xfff) = 0"
  by (simp_all add: mk_entry_def)

lemma copied_image:
  "copy_sections 0x4000 (exe_file c) mk_sections (poke 0 (take 0x200 (exe_file c)) (\<lambda>_. 0)) =
     Some (pe_image c)"
proof -
  have "poke 0x3000 (take 0x10 (drop 0x3000 (exe_file c))) (poke 0x2000 (take 8 (drop 0x2000 (exe_file c)))
      (poke 0x1000 (take 0x20 (drop 0x1000 (exe_file c))) (poke 0 (take 0x200 (drop 0 (exe_file c))) (\<lambda>_. 0)))) =
      pe_image c"
    using poke_slice [of 0 "0x200" "0x4000" "pe_image c" "\<lambda>_. 0"]
    by (auto simp: poke_slice fun_eq_iff pe_image_zero)
  then show ?thesis by (simp add: mk_sections_def mk_section_def copy_in_def)
qed

lemma walk_image:
  "reloc_walk 0x4000 0x3000 10 delta 0 (pe_image c) =
     Some (Some (poke 0x2000 (le_bytes 8 (PREFERRED_BASE + 0x2000 + delta)) (pe_image c)))"
proof -
  let ?m = "poke 0x2000 (le_bytes 8 (PREFERRED_BASE + 0x2000 + delta)) (pe_image c)"
  have "reloc_entries 0x4000 0x3000 delta 0 1 (pe_image c) = Some ?m"
    by (simp add: Let_def exe_headers mk_entry_fields mk_block_def del: le_bytes.simps)
  moreover have "read_base_reloc_block ?m 0x3000 = mk_block"
    using pe_image_stored(8) [of c]
    by (intro read_base_reloc_block_stored) (simp add: stored_poke_other del: le_bytes.simps)
  ultimately show ?thesis
    by (subst reloc_walk.simps; simp add: exe_headers mk_block_def Let_def del: le_bytes.simps reloc_entries.simps)
       (subst reloc_walk.simps; simp)
qed

lemma load_image:
  "load_pe (exe_file c) (Some base) True =
     Some (Image (poke 0x2000 (le_bytes 8 (base + 0x2000)) (pe_image c)))"
proof -
  have "copy_in 0x4000 (exe_file c) 0 0 0x200 (\<lambda>_. 0) = Some (poke 0 (take 0x200 (exe_file c)) (\<lambda>_. 0))"
    by (simp add: copy_in_def)
  then show ?thesis
    unfolding load_pe_def exe_file_mem Let_def
    by (simp add: exe_headers mk_dos_def mk_file_header_def mk_opt_header_def exe_sections copied_image
        walk_image del: le_bytes.simps) (simp add: add.commute)
qed

section \<open>The entry point\<close>

text \<open>What \<^verbatim>\<open>mov eax, imm32; ret\<close> at \<open>a\<close> returns; \<open>None\<close> for other code.\<close>

definition entry_returns :: "mem \<Rightarrow> nat \<Rightarrow> u32 option" where
  "entry_returns m a = (if m a = 0xB8 \<and> m (a + 5) = 0xC3 then Some (word_at m (a + 1) 4) else None)"

lemma entry_code_bytes: "entry_code c = [0xB8] @ le_bytes 4 c @ [0xC3]"
proof -
  have "ucast (w AND mask 8) = (ucast w :: byte)" for w :: u32
    by (intro bit_word_eqI) (simp add: bit_simps)
  then have cut: "ucast (w AND 0xff) = (ucast w :: byte)" for w :: u32
    by (simp add: mask_eq_exp_minus_1)
  have "le_bytes 4 c = [ucast c, ucast (drop_bit 8 c), ucast (drop_bit 16 c), ucast (drop_bit 24 c)]"
    by (simp add: numeral_Bit0 numeral_Bit1)
  then show ?thesis by (simp add: entry_code_def cut)
qed

lemma entry_image:
  assumes "stored m 0x1000 (entry_code c)"
  shows "entry_returns m 0x1000 = Some c"
proof -
  have "stored m 0x1000 [0xB8]" "stored m 0x1001 (le_bytes 4 c)" "stored m 0x1005 [0xC3]"
    using assms unfolding entry_code_bytes by (simp_all only: layout) simp_all
  then show ?thesis by (simp add: entry_returns_def layout) (simp add: stored_def peek_def)
qed

section \<open>The properties\<close>

text \<open>C17: from the command line to the exit code: for every 32-bit code, \<^verbatim>\<open>mkexe\<close>
  given its decimal text writes an image that the loader accepts at every base address; in
  memory it is the file with the data pointer moved to the new base, so that it points to
  itself, and the code at the entry point returns the code, which is also what the program
  prints.\<close>
theorem mkexe_runs_anywhere:
  fixes code :: u32 and base :: u64
  assumes "r = mkexe [prog, out, dec (unat code)] True IMAGE_SIZE" "out_file r = Some file"
  shows "status r = 0 \<and> length file = IMAGE_SIZE \<and>
    stdout r = ''wrote '' @ out @ '' (16384 bytes), entry returns '' @ dec (unat code) @ [CHR 0x0A] \<and>
    (\<exists>m. load_pe file (Some base) True = Some (Image m) \<and>
       word_at m DATA_RVA 8 = base + of_nat DATA_RVA \<and>
       (\<forall>i. i < IMAGE_SIZE \<and> (i < DATA_RVA \<or> DATA_RVA + 8 \<le> i) \<longrightarrow> m i = file ! i) \<and>
       entry_returns m (unat (AddressOfEntryPoint (read_opt_header64 m 0x58))) = Some code)"
proof -
  have "unat code < 2 ^ 32" using unsigned_less [of code, where 'a = nat] by simp
  then have "unat code < 2 ^ 64" by simp
  then have code: "ucast (strtoul (dec (unat code))) = code"
    by (intro bit_word_eqI) (auto simp: strtoul_dec bit_simps)
  have exe: "file = exe_file code" using assms code by (simp add: mkexe_def)
  define m where "m = poke 0x2000 (le_bytes 8 (base + 0x2000)) (pe_image code)"
  have s: "stored m 0x58 (opt_header64_bytes mk_opt_header)" "stored m 0x1000 (entry_code code)"
    "stored m 0x2000 (le_bytes 8 (base + 0x2000))"
    using pe_image_stored(4,6) [of code]
    by (simp_all add: m_def stored_poke stored_poke_other del: le_bytes.simps)
  have "read_opt_header64 m 0x58 = mk_opt_header"
    by (rule read_opt_header64_stored [OF _ s(1)]) (simp add: mk_opt_header_def)
  moreover have "word_at m 0x2000 8 = base + 0x2000" using s(3) by (simp add: layout)
  moreover have "m i = file ! i" if "i < IMAGE_SIZE \<and> (i < DATA_RVA \<or> DATA_RVA + 8 \<le> i)" for i
    using that by (auto simp: m_def exe poke_def)
  moreover have "load_pe file (Some base) True = Some (Image m)"
    unfolding exe m_def by (rule load_image)
  moreover have "entry_returns m 0x1000 = Some code" by (rule entry_image [OF s(2)])
  ultimately have "load_pe file (Some base) True = Some (Image m) \<and> word_at m DATA_RVA 8 = base + of_nat DATA_RVA \<and>
      (\<forall>i. i < IMAGE_SIZE \<and> (i < DATA_RVA \<or> DATA_RVA + 8 \<le> i) \<longrightarrow> m i = file ! i) \<and>
      entry_returns m (unat (AddressOfEntryPoint (read_opt_header64 m 0x58))) = Some code"
    by (simp add: mk_opt_header_def)
  moreover have "dec 16384 = ''16384''"
    by (simp add: dec.simps [of 16384] dec.simps [of 1638] dec.simps [of 163] dec.simps [of 16]
        dec.simps [of "Suc 0"] char_of_def bit_0)
  then have "status r = 0 \<and> length file = IMAGE_SIZE \<and>
      stdout r = ''wrote '' @ out @ '' (16384 bytes), entry returns '' @ dec (unat code) @ [CHR 0x0A]"
    using assms(1) code by (simp add: mkexe_def exe)
  ultimately show ?thesis by blast
qed

theorem mkexe_runs_anywhere_witness:
  "\<exists>file m. out_file (mkexe [''mkexe'', ''o'', ''7''] True IMAGE_SIZE) = Some file \<and>
     load_pe file (Some 0x210000000) True = Some (Image m) \<and> word_at m DATA_RVA 8 = (0x210002000 :: u64) \<and>
     entry_returns m TEXT_RVA = Some 7"
proof -
  have dec7: "dec 7 = ''7''" by (simp add: dec.simps char_of_def bit_0)
  define r where "r = mkexe [''mkexe'', ''o'', dec (unat (7 :: u32))] True IMAGE_SIZE"
  obtain out where f: "out_file r = Some out" by (simp add: r_def mkexe_def Let_def)
  from mkexe_runs_anywhere [OF r_def f, of "0x210000000"] obtain m where
    m: "load_pe out (Some 0x210000000) True = Some (Image m)"
       "word_at m DATA_RVA 8 = (0x210000000 :: u64) + of_nat DATA_RVA"
       "entry_returns m (unat (AddressOfEntryPoint (read_opt_header64 m 0x58))) = Some 7" by blast
  have "out = exe_file (ucast (strtoul ''7''))" using f by (simp add: r_def mkexe_def dec7 Let_def)
  with m(1) have "m = poke 0x2000 (le_bytes 8 (0x210002000 :: u64)) (pe_image (ucast (strtoul ''7'')))"
    by (simp add: load_image del: le_bytes.simps)
  then have "stored m 0x58 (opt_header64_bytes mk_opt_header)"
    using pe_image_stored(4) by (simp add: stored_poke_other del: le_bytes.simps)
  then have "read_opt_header64 m 0x58 = mk_opt_header"
    by (intro read_opt_header64_stored) (simp_all add: mk_opt_header_def)
  with m f show ?thesis by (auto simp: r_def dec7 mk_opt_header_def)
qed

text \<open>C31: the file is a well-formed image whatever the arguments: the signatures are in
  place, the headers and the section table end within the headers' size, the sections lie in
  the file and in the image, on page boundaries, one after the other, the entry point is in
  the code section, and the one relocation of the table names the pointer in the data
  section.\<close>
theorem mkexe_image_wellformed:
  assumes "r = mkexe argv True IMAGE_SIZE" "out_file r = Some file" "f = poke 0 file (\<lambda>_. 0)"
    and "pe = unat (e_lfanew (read_dos_header f 0))" "fh = read_file_header f (pe + 4)"
    and "oh = read_opt_header64 f (pe + 24)"
    and "sec = (\<lambda>i. read_section_header f (pe + 24 + unat (SizeOfOptionalHeader fh) + 40 * i))"
  shows "length file = unat (SizeOfImage oh) \<and> e_magic (read_dos_header f 0) = 0x5A4D \<and>
    word_at f pe 4 = (0x4550 :: u32) \<and> NumberOfSections fh = 3 \<and>
    pe + 24 + unat (SizeOfOptionalHeader fh) + 40 * 3 \<le> unat (SizeOfHeaders oh) \<and>
    (\<forall>i<3. unat (PointerToRawData (sec i)) + unat (SizeOfRawData (sec i)) \<le> length file \<and>
       unat (sec_VirtualAddress (sec i)) mod unat (SectionAlignment oh) = 0 \<and>
       unat (SizeOfHeaders oh) \<le> unat (sec_VirtualAddress (sec i)) \<and>
       unat (VirtualSize (sec i)) \<le> unat (SizeOfRawData (sec i)) \<and>
       (if i < 2 then unat (sec_VirtualAddress (sec i)) + unat (VirtualSize (sec i)) \<le> unat (sec_VirtualAddress (sec (i + 1)))
        else unat (sec_VirtualAddress (sec i)) + unat (VirtualSize (sec i)) \<le> unat (SizeOfImage oh))) \<and>
    AddressOfEntryPoint oh = sec_VirtualAddress (sec 0) \<and>
    dd_VirtualAddress (DataDirectory oh ! DIR_BASERELOC) = sec_VirtualAddress (sec 2) \<and>
    blk_VirtualAddress (read_base_reloc_block f (unat (sec_VirtualAddress (sec 2)))) = sec_VirtualAddress (sec 1)"
proof -
  obtain c where exe: "file = exe_file c" using assms(1,2) by (auto simp: mkexe_def Let_def split: if_splits)
  then have f: "f = pe_image c" using assms(3) exe_file_mem by simp
  have pe: "pe = 0x40" using assms(4) by (simp add: f exe_headers mk_dos_def)
  have fh: "fh = mk_file_header" and oh: "oh = mk_opt_header"
    using assms(5,6) by (simp_all add: f pe exe_headers)
  have sec: "sec 0 = mk_sections ! 0" "sec (Suc 0) = mk_sections ! 1" "sec 2 = mk_sections ! 2"
    using exe_sections [of c] assms(7)
    by (simp_all add: f pe fh mk_file_header_def upt_rec mk_sections_def)
  have all: "(\<forall>i<3. P i) \<longleftrightarrow> P 0 \<and> P (Suc 0) \<and> P 2" for P :: "nat \<Rightarrow> bool"
    by (auto simp: numeral_3_eq_3 numeral_2_eq_2 less_Suc_eq)
  show ?thesis
    by (simp add: all exe f pe fh oh sec exe_headers mk_file_header_def mk_opt_header_def mk_dos_def
        mk_sections_def mk_section_def mk_block_def numeral_2_eq_2 [symmetric])
qed

theorem mkexe_image_wellformed_witness:
  "\<exists>out. out_file (mkexe [''mkexe'', ''o''] True IMAGE_SIZE) = Some out \<and> length out = 0x4000 \<and>
     e_magic (read_dos_header (poke 0 out (\<lambda>_. 0)) 0) = 0x5A4D"
proof -
  define r where "r = mkexe [''mkexe'', ''o''] True IMAGE_SIZE"
  obtain out where out: "out_file r = Some out" by (simp add: r_def mkexe_def Let_def)
  have "length out = 0x4000" using out by (auto simp: r_def mkexe_def Let_def)
  with mkexe_image_wellformed [OF r_def out refl refl refl refl refl] out show ?thesis
    unfolding r_def by blast
qed

end
