(* ===== verification/Substrate.thy ===== *)
theory Substrate
  imports PprocHistory PsrvHandles
begin

text \<open>
  The pseudo-process layer and the handle server together, as the runtime uses them: threads
  of pseudo-processes run and take requests to the server, each request carrying the pid
  that \<^verbatim>\<open>pproc_getpid\<close> gives its thread.
\<close>

datatype sub_act =
    Proc "tid \<times> act"
  | Request tid u32 u64 psrv_reply \<comment> \<open>thread, operation, argument and the reply it gets\<close>

text \<open>The 64-bit handle counter does not wrap.\<close>

fun sub_step :: "sys \<times> htab \<Rightarrow> sub_act \<Rightarrow> sys \<times> htab \<Rightarrow> bool" where
  "sub_step (s, h) (Proc l) (s', h') = (pfair s l s' \<and> h' = h)"
| "sub_step (s, h) (Request t opr arg r) (s', h') =
     (s' = s \<and> t < length (threads s) \<and> alive (thr_of s t) \<and> current (thr_of s t) \<noteq> None \<and>
      next_handle h + 1 \<noteq> 0 \<and>
      handle_request \<lparr>rq_op = opr, rq_pid = pproc_getpid s t, rq_arg = arg\<rparr> h = (r, h'))"

definition sub_inv :: "sys \<times> htab \<Rightarrow> bool" where
  "sub_inv u \<longleftrightarrow> pproc_inv (fst u) \<and> htab_inv (snd u)"

lemma sub_step_inv:
  assumes "sub_inv u" "sub_step u l v"
  shows "sub_inv v"
proof -
  obtain s h s' h' where uv: "u = (s, h)" "v = (s', h')" by (cases u; cases v)
  show ?thesis
  proof (cases l)
    case (Proc p)
    with assms uv show ?thesis using pp.inv_step [of s p s'] by (auto simp: sub_inv_def)
  next
    case (Request t opr arg r)
    with assms uv
      handle_request_inv [of h "\<lparr>rq_op = opr, rq_pid = pproc_getpid s t, rq_arg = arg\<rparr>"]
    show ?thesis by (auto simp: sub_inv_def counter_ok_def)
  qed
qed

interpretation sub: machine "\<lambda>u. \<exists>n. u = (start_sys n, fresh_htab)" sub_step sub_inv
proof unfold_locales
  fix u v :: "sys \<times> htab" and l :: sub_act
  show "sub_inv u" if "\<exists>n. u = (start_sys n, fresh_htab)"
    using that reach_pproc_inv [OF execution.stop] by (auto simp: sub_inv_def fresh_htab_inv)
  show "sub_inv v" if "sub_inv u" "sub_step u l v" using that by (rule sub_step_inv)
qed

text \<open>The threads' part of a joint run is a run of the pseudo-process layer.\<close>

lemma sub_threads: "execution sub_step u tr v \<Longrightarrow> \<exists>ks. execution pfair (fst u) ks (fst v)"
proof (induction rule: execution.induct)
  case (move u l v ls w)
  then obtain ks where ks: "execution pfair (fst v) ks (fst w)" by blast
  show ?case
  proof (cases l)
    case (Proc p)
    with move.hyps(1) have "pfair (fst u) p (fst v)" by (cases u; cases v) auto
    with ks show ?thesis by (blast intro: execution.move)
  next
    case (Request t opr arg r)
    with move.hyps(1) have "fst v = fst u" by (cases u; cases v) auto
    with ks show ?thesis by auto
  qed
qed (blast intro: execution.stop)

text \<open>An entry that was granted keeps its owner.\<close>

definition holds_entry :: "u64 \<Rightarrow> u32 \<Rightarrow> htab \<Rightarrow> bool" where
  "holds_entry v p h \<longleftrightarrow> 0 < unat v \<and> unat v < MAX_HANDLES \<and> unat v < unat (next_handle h) \<and>
     length (handle_owner h) = MAX_HANDLES \<and> owner h v = p"

lemma grant_holds:
  assumes "htab_inv h" "next_handle h + 1 \<noteq> 0"
  shows "holds_entry v p h \<Longrightarrow> holds_entry v p (snd (grant q h))"
    and "rp_status (fst (grant q h)) = 0 \<Longrightarrow> holds_entry (rp_value (fst (grant q h))) q (snd (grant q h))"
  using assms unat_word_Suc [OF assms(2)]
  by (auto simp: grant_def Let_def holds_entry_def set_owner_def owner_def htab_inv_def zero_reply_def
      unat_gt_0 split: if_splits)

lemma request_holds:
  assumes "htab_inv h" "next_handle h + 1 \<noteq> 0" "holds_entry v p h"
  shows "holds_entry v p (snd (handle_request q h))"
  using assms grant_holds(1) by (auto simp: handle_request_def)

lemma sub_holds:
  assumes "execution sub_step u tr v" "sub_inv u" "holds_entry w p (snd u)"
  shows "holds_entry w p (snd v)"
proof (rule sub.execution_stable [where P = "\<lambda>u. holds_entry w p (snd u)", OF _ assms])
  fix a b l
  assume inv: "sub_inv a" and P: "holds_entry w p (snd a)" and st: "sub_step a l b"
  show "holds_entry w p (snd b)"
  proof (cases l)
    case (Proc p')
    with P st show ?thesis by (cases a; cases b) auto
  next
    case (Request t opr arg r)
    obtain s h s' h' where ab: "a = (s, h)" "b = (s', h')" by (cases a; cases b)
    let ?q = "\<lparr>rq_op = opr, rq_pid = pproc_getpid s t, rq_arg = arg\<rparr>"
    have "next_handle h + 1 \<noteq> 0" "h' = snd (handle_request ?q h)"
      using st Request ab by auto
    with request_holds [of h w p ?q] P inv ab show ?thesis by (simp add: sub_inv_def)
  qed
qed

text \<open>A request that is granted and what it leaves.\<close>

lemma request_grants:
  assumes "sub_inv (s, h)" "sub_step (s, h) (Request t opr arg r) (s', h')"
    and "opr = PSRV_NEW_HANDLE \<or> opr = PSRV_DUP_HANDLE" "rp_status r = 0"
  shows "holds_entry (rp_value r) (pproc_getpid s t) h'"
proof -
  let ?q = "\<lparr>rq_op = opr, rq_pid = pproc_getpid s t, rq_arg = arg\<rparr>"
  have "(r, h') = grant (pproc_getpid s t) h" "next_handle h + 1 \<noteq> 0"
    using assms(2-4) by (auto simp: handle_request_def split: if_splits)
  with grant_holds(2) [of h "pproc_getpid s t"] assms(1,4) show ?thesis
    by (simp add: sub_inv_def prod_eq_iff)
qed

lemma holds_duplicable:
  assumes "holds_entry v p h" "p \<noteq> 0" "unat (next_handle h) < MAX_HANDLES"
  shows "rp_status (fst (handle_request \<lparr>rq_op = PSRV_DUP_HANDLE, rq_pid = p', rq_arg = v\<rparr> h)) = 0"
  using assms by (simp add: holds_entry_def handle_request_def grant_def Let_def zero_reply_def)

text \<open>Joint runs can be computed: the threads' part by \<open>prun\<close>, a request by the dispatcher.\<close>

lemma sub_proc_run:
  "execution pfair s ks s' \<Longrightarrow> execution sub_step (s, h) (map Proc ks) (s', h)"
  by (induction rule: execution.induct) (auto intro: execution.intros simp: execution_Cons)

end
