(* ===== verification/SlotTables.thy ===== *)
theory SlotTables
  imports IdMaps
begin

text \<open>
  The tables of the in-process spawn that give each pseudo-process its own server connection,
  image information and handle cache: fixed arrays of slots keyed by the address of a PEB, in
  \<^verbatim>\<open>native/patches/0003-inproc-spawn-and-peb.patch\<close> (\<^verbatim>\<open>proc_server_fds\<close> and
  \<^verbatim>\<open>proc_fd_caches\<close> of \<^verbatim>\<open>server.c\<close>, \<^verbatim>\<open>proc_image_infos\<close> of
  \<^verbatim>\<open>loader.c\<close>). A slot is free when its PEB is NULL.
\<close>

abbreviation MAX_PROC_FDS :: nat where "MAX_PROC_FDS \<equiv> 64"
abbreviation MAX_PROC_IMAGES :: nat where "MAX_PROC_IMAGES \<equiv> 64"

type_synonym 'v slot_table = "(ptr \<times> 'v) list"

section \<open>The operations\<close>

text \<open>
  The loop the writers share: \<open>Inl\<close> the slot of the owner, where it breaks, or \<open>Inr\<close> the first
  free slot it passed.
\<close>

fun table_scan :: "'v slot_table \<Rightarrow> ptr \<Rightarrow> nat \<Rightarrow> nat option \<Rightarrow> nat + nat option" where
  "table_scan [] owner i free_slot = Inr free_slot"
| "table_scan ((peb, v) # T) owner i free_slot =
     (if peb = owner then Inl i
      else table_scan T owner (Suc i) (if free_slot = None \<and> peb = 0 then Some i else free_slot))"

definition set_process_server_fd :: "ptr \<Rightarrow> int \<Rightarrow> int slot_table \<Rightarrow> int slot_table" where
  "set_process_server_fd owner fd T =
     (case table_scan T owner 0 None of
        Inl i \<Rightarrow> T[i := (if fd = -1 then 0 else owner, fd)]
      | Inr (Some i) \<Rightarrow> if fd \<noteq> -1 then T[i := (owner, fd)] else T
      | Inr None \<Rightarrow> T)"

definition set_process_image_info :: "ptr \<Rightarrow> ptr \<Rightarrow> ptr slot_table \<Rightarrow> ptr slot_table" where
  "set_process_image_info owner info T =
     (case table_scan T owner 0 None of
        Inl i \<Rightarrow> T[i := (if info \<noteq> 0 then owner else 0, info)]
      | Inr (Some i) \<Rightarrow> if info \<noteq> 0 then T[i := (owner, info)] else T
      | Inr None \<Rightarrow> T)"

text \<open>
  The registration of a cache: \<open>None\<close> when the caller has to unmap it, with the status the
  function then returns: the owner has one, or there is no slot.
\<close>

definition register_cache :: "ptr \<Rightarrow> ptr \<Rightarrow> ptr slot_table \<Rightarrow> bool + ptr slot_table" where
  "register_cache owner cache T =
     (case table_scan T owner 0 None of
        Inl i \<Rightarrow> Inl True
      | Inr None \<Rightarrow> Inl False
      | Inr (Some i) \<Rightarrow> Inr (T[i := (owner, cache)]))"

definition unregister_cache :: "ptr \<Rightarrow> ptr slot_table \<Rightarrow> ptr option \<times> ptr slot_table" where
  "unregister_cache owner T =
     (case table_scan T owner 0 None of
        Inl i \<Rightarrow> (Some (snd (T ! i)), T[i := (0, 0)])
      | Inr _ \<Rightarrow> (None, T))"

text \<open>The readers scan for the current PEB and fall back on the primary process's own.\<close>

definition table_find :: "'v slot_table \<Rightarrow> ptr \<Rightarrow> 'v option" where
  "table_find T cur = map_option snd (find (\<lambda>e. fst e = cur) T)"

definition current_server_fd :: "int \<Rightarrow> int slot_table \<Rightarrow> ptr \<Rightarrow> int" where
  "current_server_fd fd_socket T cur = (case table_find T cur of None \<Rightarrow> fd_socket | Some fd \<Rightarrow> fd)"

definition current_image_info :: "ptr \<Rightarrow> ptr slot_table \<Rightarrow> ptr \<Rightarrow> ptr" where
  "current_image_info main_image_info T cur =
     (case table_find T cur of None \<Rightarrow> main_image_info | Some info \<Rightarrow> info)"

definition empty_table :: "nat \<Rightarrow> 'v \<Rightarrow> 'v slot_table" where
  "empty_table n v = replicate n (0, v)"

section \<open>A table as a finite map\<close>

text \<open>What is common to the writers: bind, replace or unbind the owner.\<close>

definition table_set :: "ptr \<Rightarrow> bool \<Rightarrow> 'v \<Rightarrow> 'v slot_table \<Rightarrow> 'v slot_table" where
  "table_set owner keep v T =
     (case table_scan T owner 0 None of
        Inl i \<Rightarrow> T[i := (if keep then owner else 0, v)]
      | Inr (Some i) \<Rightarrow> if keep then T[i := (owner, v)] else T
      | Inr None \<Rightarrow> T)"

lemma set_is_table_set:
  "set_process_server_fd owner fd = table_set owner (fd \<noteq> -1) fd"
  "set_process_image_info owner info = table_set owner (info \<noteq> 0) info"
  by (auto simp: fun_eq_iff set_process_server_fd_def set_process_image_info_def table_set_def
      split: sum.split option.split)

definition bound_at :: "'v slot_table \<Rightarrow> ptr \<Rightarrow> 'v option" where
  "bound_at T k = (if k = 0 then None else table_find T k)"

definition table_room :: "'v slot_table \<Rightarrow> bool" where
  "table_room T \<longleftrightarrow> 0 \<in> fst ` set T"

text \<open>No PEB has two slots.\<close>

definition table_wf :: "nat \<Rightarrow> 'v slot_table \<Rightarrow> bool" where
  "table_wf n T \<longleftrightarrow> length T = n \<and>
     (\<forall>i<n. \<forall>j<n. fst (T ! i) = fst (T ! j) \<longrightarrow> fst (T ! i) \<noteq> 0 \<longrightarrow> i = j)"

lemma table_find_iff:
  assumes "table_wf n T" "k \<noteq> 0"
  shows "table_find T k = Some v \<longleftrightarrow> (k, v) \<in> set T"
proof
  assume "table_find T k = Some v"
  then obtain e where "find (\<lambda>e. fst e = k) T = Some e" "snd e = v" by (auto simp: table_find_def)
  then have "e \<in> set T" "fst e = k" by (auto simp: find_Some_iff)
  with \<open>snd e = v\<close> show "(k, v) \<in> set T" by (metis prod.collapse)
next
  assume kv: "(k, v) \<in> set T"
  then obtain e where e: "find (\<lambda>e. fst e = k) T = Some e"
    by (cases "find (\<lambda>e. fst e = k) T") (auto simp: find_None_iff)
  then obtain i j where "i < n" "T ! i = e" "fst e = k" "j < n" "T ! j = (k, v)"
    using kv assms(1) by (auto simp: find_Some_iff in_set_conv_nth table_wf_def)
  with assms have "i = j" unfolding table_wf_def by (metis fst_conv)
  with \<open>T ! i = e\<close> \<open>T ! j = (k, v)\<close> have "e = (k, v)" by simp
  with e show "table_find T k = Some v" by (simp add: table_find_def)
qed

lemma bound_at_iff: "table_wf n T \<Longrightarrow> bound_at T k = Some v \<longleftrightarrow> k \<noteq> 0 \<and> (k, v) \<in> set T"
  by (simp add: bound_at_def table_find_iff)

lemma bound_at_zero [simp]: "bound_at T 0 = None"
  by (simp add: bound_at_def)

lemma table_scan_gen:
  "table_scan T owner i fr = Inl j \<Longrightarrow> i \<le> j \<and> j < i + length T \<and> fst (T ! (j - i)) = owner"
  "table_scan T owner i fr = Inr r \<Longrightarrow> owner \<notin> fst ` set T \<and>
     (case r of None \<Rightarrow> fr = None \<and> 0 \<notin> fst ` set T
      | Some j \<Rightarrow> fr = Some j \<or> i \<le> j \<and> j < i + length T \<and> fst (T ! (j - i)) = 0)"
proof (induction T owner i fr rule: table_scan.induct)
  case (2 peb v T owner i fr)
  {
    case 1
    with 2 show ?case
      by (cases "peb = owner") (force simp: nth_Cons' Suc_le_eq)+
  next
    case 2
    with "2.IH"(2) show ?case
      by (cases "peb = owner"; cases r) (force simp: nth_Cons' Suc_le_eq split: if_splits)+
  }
qed (auto split: option.split)

lemma table_scan_found: "table_scan T owner 0 None = Inl i \<Longrightarrow> i < length T \<and> fst (T ! i) = owner"
  using table_scan_gen(1) [of T owner 0 None i] by simp

lemma table_scan_free:
  "table_scan T owner 0 None = Inr (Some i) \<Longrightarrow> i < length T \<and> fst (T ! i) = 0 \<and> owner \<notin> fst ` set T"
  using table_scan_gen(2) [of T owner 0 None "Some i"] by simp

lemma table_scan_full:
  "table_scan T owner 0 None = Inr None \<Longrightarrow> owner \<notin> fst ` set T \<and> \<not> table_room T"
  using table_scan_gen(2) [of T owner 0 None None] by (simp add: table_room_def)

lemma table_update:
  assumes wf: "table_wf n T" and i: "i < n" and p: "p = 0 \<or> p = fst (T ! i) \<or> p \<notin> fst ` set T"
  shows "table_wf n (T[i := (p, w)])"
    "bound_at (T[i := (p, w)]) = (bound_at T)(fst (T ! i) := None, p := if p = 0 then None else Some w)"
proof -
  have len: "length T = n" using wf by (simp add: table_wf_def)
  have fresh: "p \<noteq> 0 \<Longrightarrow> j < n \<Longrightarrow> j \<noteq> i \<Longrightarrow> fst (T ! j) \<noteq> p" for j
    using p i wf len unfolding table_wf_def by (metis image_eqI nth_mem)
  show wf': "table_wf n (T[i := (p, w)])"
    using wf i len fresh by (auto simp: table_wf_def nth_list_update)
  show "bound_at (T[i := (p, w)]) = (bound_at T)(fst (T ! i) := None, p := if p = 0 then None else Some w)"
  proof (rule ext, rule option_eqI)
    fix k v
    have new: "bound_at (T[i := (p, w)]) k = Some v \<longleftrightarrow>
        k \<noteq> 0 \<and> (\<exists>j<n. T[i := (p, w)] ! j = (k, v))"
      using bound_at_iff [OF wf'] len by (auto simp: in_set_conv_nth)
    have old: "bound_at T k = Some v \<longleftrightarrow> k \<noteq> 0 \<and> (\<exists>j<n. T ! j = (k, v))"
      using bound_at_iff [OF wf] len by (auto simp: in_set_conv_nth)
    have uniq: "j = i" if "j < n" "T ! j = (k, v)" "k = fst (T ! i)" "k \<noteq> 0" for j
      using wf that i unfolding table_wf_def by (metis fst_conv)
    show "bound_at (T[i := (p, w)]) k = Some v \<longleftrightarrow>
        ((bound_at T)(fst (T ! i) := None, p := if p = 0 then None else Some w)) k = Some v"
    proof (cases "k = p")
      case True
      have "j = i" if "j < n" "T[i := (p, w)] ! j = (p, v)" "p \<noteq> 0" for j
        using fresh [of j] that len by (cases "j = i") auto
      then have "(\<exists>j<n. T[i := (p, w)] ! j = (p, v)) \<longleftrightarrow> v = w" if "p \<noteq> 0"
        using that i len by (metis nth_list_update_eq prod.inject)
      with new True show ?thesis by auto
    next
      case ne: False
      show ?thesis
      proof (cases "k = fst (T ! i)")
        case True
        with ne new uniq i len show ?thesis by (auto simp: nth_list_update split: if_splits)
      next
        case False
        then have "T[i := (p, w)] ! j = (k, v) \<longleftrightarrow> T ! j = (k, v)" if "j < n" for j
          using ne that len by (cases "j = i") auto
        with ne False new old show ?thesis by auto
      qed
    qed
  qed
qed

lemma bound_at_None: "table_wf n T \<Longrightarrow> k \<notin> fst ` set T \<Longrightarrow> bound_at T k = None"
  using bound_at_iff [of n T k] by (cases "bound_at T k") force+

lemma table_set_map:
  assumes wf: "table_wf n T" and k: "k \<noteq> 0 \<or> \<not> keep"
  shows "table_wf n (table_set k keep v T)"
    "bound_at (table_set k keep v T) =
      (if \<not> keep then (bound_at T)(k := None)
       else if bound_at T k \<noteq> None \<or> table_room T then (bound_at T)(k := Some v) else bound_at T)"
proof -
  have len: "length T = n" using wf by (simp add: table_wf_def)
  have "table_wf n (table_set k keep v T) \<and> bound_at (table_set k keep v T) =
      (if \<not> keep then (bound_at T)(k := None)
       else if bound_at T k \<noteq> None \<or> table_room T then (bound_at T)(k := Some v) else bound_at T)"
  proof (cases "table_scan T k 0 None")
    case (Inl i)
    with len have i: "i < n" "fst (T ! i) = k" by (auto dest: table_scan_found)
    have "k \<noteq> 0 \<Longrightarrow> bound_at T k \<noteq> None"
      using bound_at_iff [OF wf, of k "snd (T ! i)"] i len by (metis nth_mem option.distinct(1) prod.collapse)
    with table_update [OF wf i(1), of "if keep then k else 0" v] i k Inl show ?thesis
      by (auto simp: table_set_def fun_eq_iff)
  next
    case (Inr r)
    show ?thesis
    proof (cases r)
      case None
      with Inr have f: "k \<notin> fst ` set T" "\<not> table_room T" by (auto dest: table_scan_full)
      with bound_at_None [OF wf f(1)] Inr None wf show ?thesis
        by (simp add: table_set_def fun_upd_idem)
    next
      case (Some i)
      with Inr len have i: "i < n" "fst (T ! i) = 0" "k \<notin> fst ` set T" by (auto dest: table_scan_free)
      have "table_room T" unfolding table_room_def using i len by (metis image_eqI nth_mem)
      with bound_at_None [OF wf i(3)] table_update [OF wf i(1), of k v] i k Inr Some wf show ?thesis
        by (simp add: table_set_def fun_upd_idem)
    qed
  qed
  then show "table_wf n (table_set k keep v T)" "bound_at (table_set k keep v T) =
      (if \<not> keep then (bound_at T)(k := None)
       else if bound_at T k \<noteq> None \<or> table_room T then (bound_at T)(k := Some v) else bound_at T)"
    by simp_all
qed

lemma register_cache_cases:
  assumes wf: "table_wf n T" and k: "k \<noteq> 0"
  obtains (bound) v where "bound_at T k = Some v" "register_cache k c T = Inl True"
    | (full) "bound_at T k = None" "\<not> table_room T" "register_cache k c T = Inl False"
    | (added) T' where "bound_at T k = None" "table_room T" "register_cache k c T = Inr T'"
        "table_wf n T'" "bound_at T' = (bound_at T)(k := Some c)"
proof (cases "table_scan T k 0 None")
  case (Inl i)
  then have i: "i < length T" "fst (T ! i) = k" by (auto dest: table_scan_found)
  then have "(k, snd (T ! i)) \<in> set T" by (metis nth_mem prod.collapse)
  with bound_at_iff [OF wf] k have "bound_at T k = Some (snd (T ! i))" by simp
  with Inl bound show ?thesis by (simp add: register_cache_def)
next
  case (Inr r)
  show ?thesis
  proof (cases r)
    case None
    with Inr have "k \<notin> fst ` set T" "\<not> table_room T" by (auto dest: table_scan_full)
    with bound_at_None [OF wf] Inr None full show ?thesis by (simp add: register_cache_def)
  next
    case (Some i)
    with Inr have i: "i < length T" "fst (T ! i) = 0" "k \<notin> fst ` set T" by (auto dest: table_scan_free)
    have len: "length T = n" using wf by (simp add: table_wf_def)
    have "table_room T" unfolding table_room_def using i by (metis image_eqI nth_mem)
    with added [of "T[i := (k, c)]"] bound_at_None [OF wf i(3)] table_update [OF wf, of i k c] i k len Inr Some
    show ?thesis by (simp add: register_cache_def fun_upd_idem)
  qed
qed

lemma unregister_cache_map:
  assumes wf: "table_wf n T" and k: "k \<noteq> 0"
  shows "fst (unregister_cache k T) = bound_at T k" "table_wf n (snd (unregister_cache k T))"
    "bound_at (snd (unregister_cache k T)) = (bound_at T)(k := None)"
proof -
  have len: "length T = n" using wf by (simp add: table_wf_def)
  have "fst (unregister_cache k T) = bound_at T k \<and> table_wf n (snd (unregister_cache k T)) \<and>
    bound_at (snd (unregister_cache k T)) = (bound_at T)(k := None)"
  proof (cases "table_scan T k 0 None")
    case (Inl i)
    then have i: "i < n" "fst (T ! i) = k" using len by (auto dest: table_scan_found)
    then have "(k, snd (T ! i)) \<in> set T" using len by (metis nth_mem prod.collapse)
    with bound_at_iff [OF wf] k have "bound_at T k = Some (snd (T ! i))" by simp
    with Inl table_update [OF wf i(1), of 0 0] i(2) show ?thesis
      by (simp add: unregister_cache_def fun_eq_iff)
  next
    case (Inr r)
    then have "k \<notin> fst ` set T" by (cases r) (auto dest: table_scan_full table_scan_free)
    with bound_at_None [OF wf] Inr wf show ?thesis by (simp add: unregister_cache_def fun_upd_idem)
  qed
  then show "fst (unregister_cache k T) = bound_at T k" "table_wf n (snd (unregister_cache k T))"
    "bound_at (snd (unregister_cache k T)) = (bound_at T)(k := None)" by simp_all
qed

section \<open>The three tables\<close>

interpretation server_fds: key_map bound_at set_process_server_fd "\<lambda>k. set_process_server_fd k (-1)"
  table_room "table_wf MAX_PROC_FDS" "\<lambda>k fd. k \<noteq> 0 \<and> fd \<noteq> -1"
  by unfold_locales (simp_all add: set_is_table_set table_set_map)

interpretation image_infos: key_map bound_at set_process_image_info "\<lambda>k. set_process_image_info k 0"
  table_room "table_wf MAX_PROC_IMAGES" "\<lambda>k info. k \<noteq> 0 \<and> info \<noteq> 0"
  by unfold_locales (simp_all add: set_is_table_set table_set_map)

text \<open>A registration that finds no room leaves the table alone.\<close>

definition add_cache :: "ptr \<Rightarrow> ptr \<Rightarrow> ptr slot_table \<Rightarrow> ptr slot_table" where
  "add_cache k c T = (case register_cache k c T of Inl _ \<Rightarrow> T | Inr T' \<Rightarrow> T')"

definition drop_cache :: "ptr \<Rightarrow> ptr slot_table \<Rightarrow> ptr slot_table" where
  "drop_cache k T = (if k = 0 then T else snd (unregister_cache k T))"

interpretation fd_caches: key_map bound_at add_cache drop_cache table_room "table_wf MAX_PROC_FDS"
  "\<lambda>k c. k \<noteq> 0"
proof unfold_locales
  fix T :: "ptr slot_table" and k c :: ptr
  assume wf: "table_wf MAX_PROC_FDS T"
  show "table_wf MAX_PROC_FDS (add_cache k c T)" if "k \<noteq> 0"
    by (rule register_cache_cases [OF wf that, of c]) (simp_all add: add_cache_def wf)
  show "bound_at (add_cache k c T) = (if table_room T then (bound_at T)(k := Some c) else bound_at T)"
    if "k \<noteq> 0" "bound_at T k = None"
    by (rule register_cache_cases [OF wf that(1), of c]) (simp_all add: add_cache_def that(2))
  show "table_wf MAX_PROC_FDS (drop_cache k T)" "bound_at (drop_cache k T) = (bound_at T)(k := None)"
    using unregister_cache_map [OF wf, of k] wf by (auto simp: drop_cache_def)
qed

lemma empty_table_map [simp]:
  "table_wf n (empty_table n v)" "bound_at (empty_table n v) = (\<lambda>_. None)"
  by (auto simp: table_wf_def empty_table_def bound_at_def table_find_def fun_eq_iff find_None_iff)

lemma table_room_card:
  assumes "table_wf n T"
  shows "table_room T \<longleftrightarrow> card (dom (bound_at T)) < n"
proof -
  let ?U = "{i. i < n \<and> fst (T ! i) \<noteq> 0}"
  have len: "length T = n" using assms by (simp add: table_wf_def)
  have "dom (bound_at T) = (\<lambda>i. fst (T ! i)) ` ?U"
  proof
    show "dom (bound_at T) \<subseteq> (\<lambda>i. fst (T ! i)) ` ?U"
      using bound_at_iff [OF assms] len by (force simp: in_set_conv_nth)
    show "(\<lambda>i. fst (T ! i)) ` ?U \<subseteq> dom (bound_at T)"
    proof
      fix k assume "k \<in> (\<lambda>i. fst (T ! i)) ` ?U"
      then obtain i where i: "i < n" "k = fst (T ! i)" "k \<noteq> 0" by auto
      then have "(k, snd (T ! i)) \<in> set T" using len by (metis nth_mem prod.collapse)
      with bound_at_iff [OF assms] i(3) show "k \<in> dom (bound_at T)" by auto
    qed
  qed
  moreover have "inj_on (\<lambda>i. fst (T ! i)) ?U" using assms by (auto simp: table_wf_def inj_on_def)
  ultimately have c: "card (dom (bound_at T)) = card ?U" by (simp add: card_image)
  have "table_room T \<longleftrightarrow> ?U \<noteq> {..<n}"
  proof -
    have "table_room T \<longleftrightarrow> (\<exists>i<n. fst (T ! i) = 0)"
    proof
      assume "table_room T"
      then obtain e where "e \<in> set T" "fst e = 0" by (auto simp: table_room_def)
      then show "\<exists>i<n. fst (T ! i) = 0" using len by (metis in_set_conv_nth)
    next
      assume "\<exists>i<n. fst (T ! i) = 0"
      then show "table_room T" unfolding table_room_def using len by (metis image_eqI nth_mem)
    qed
    then show ?thesis by blast
  qed
  also have "\<dots> \<longleftrightarrow> card ?U < n"
  proof -
    have "?U \<subseteq> {..<n}" by blast
    then have "card ?U < card {..<n} \<longleftrightarrow> ?U \<noteq> {..<n}"
      by (metis (no_types, lifting) finite_lessThan less_irrefl psubsetI psubset_card_mono)
    then show ?thesis by (simp only: card_lessThan)
  qed
  finally show ?thesis using c by simp
qed

end
