(* ===== verification/InprocSpawn.thy ===== *)
theory InprocSpawn
  imports SlotTables Machines GuestExit
begin

text \<open>
  Windows processes inside one host process, as
  \<^verbatim>\<open>native/patches/0003-inproc-spawn-and-peb.patch\<close> and
  \<^verbatim>\<open>0005-forkless-build.patch\<close> start them: \<^verbatim>\<open>spawn_process\<close>,
  \<^verbatim>\<open>spawn_process_inproc\<close> and \<^verbatim>\<open>inproc_process_thread\<close> of
  \<^verbatim>\<open>process.c\<close>, the handshake and the handle cache of \<^verbatim>\<open>server.c\<close>, and the
  exit of \<^verbatim>\<open>0006-ios-src.patch\<close>.

  What the system and the server answer is an argument of each definition. Descriptors,
  mappings and thread blocks are allocated at fresh numbers and addresses.
\<close>

section \<open>Data\<close>

datatype ntstatus =
    STATUS_SUCCESS | STATUS_NO_MEMORY | STATUS_TOO_MANY_OPENED_FILES | STATUS_INTERNAL_ERROR
  | STATUS_INVALID_HANDLE | STATUS_INVALID_PARAMETER | STATUS_NOT_SUPPORTED | Status u32

text \<open>The other codes by their value, whose sign tells a success.\<close>

definition nt_success :: "ntstatus \<Rightarrow> bool" where
  "nt_success st = (case st of STATUS_SUCCESS \<Rightarrow> True | Status w \<Rightarrow> \<not> bit w 31 | _ \<Rightarrow> False)"

text \<open>A handle cache: blocks that are allocated when first needed, of entries that may be empty.\<close>

abbreviation FD_CACHE_ENTRIES :: nat where "FD_CACHE_ENTRIES \<equiv> 128"
abbreviation FD_CACHE_BLOCK_SIZE :: nat where "FD_CACHE_BLOCK_SIZE \<equiv> 8192"

datatype fd_type = FD_TYPE_INVALID | Fd_type u32

record fd_cache_entry =
  ce_fd :: int
  ce_type :: fd_type
  ce_access :: u32
  ce_options :: u32

type_synonym fd_cache_proc = "nat \<Rightarrow> (nat \<Rightarrow> fd_cache_entry option) option"

text \<open>The fields of a PEB and of the image information that the code reads or writes here.\<close>

record peb =
  pb_ProcessParameters :: ptr
  pb_LdrData :: ptr
  pb_ImageBaseAddress :: ptr
  pb_SessionId :: u32

record image_info =
  ii_TransferAddress :: ptr

text \<open>
  How far a child's first thread is. \<open>Running\<close>: it has entered its program, which does not
  come back; \<open>Gone\<close>: it has detached; \<open>Exited\<close>: its program ended the process.
\<close>

datatype child_pc = Starting | Attached u64 | Built | Entering | Running | Detaching | Gone | Exited

record child =
  c_peb :: ptr
  c_request_fd :: int
  c_reply_fd :: int
  c_wait_fd :: "int \<times> int"
  c_ids :: "u32 \<times> u32"
  c_pc :: child_pc
  c_conn :: int \<comment> \<open>not in the code: the duplicate made for it\<close>
  c_rode :: "int option" \<comment> \<open>not in the code: the connection its handshake used\<close>

text \<open>For each open descriptor what holds it; the code has no such record.\<close>

datatype holder = Conn ptr | Pipe ptr nat | Cached ptr nat nat

fun held_by :: "holder \<Rightarrow> ptr" where
  "held_by (Conn p) = p"
| "held_by (Pipe p _) = p"
| "held_by (Cached p _ _) = p"

record host_proc =
  primary :: ptr
  fd_socket :: int
  main_image_info :: ptr
  proc_server_fds :: "int slot_table"
  proc_image_infos :: "ptr slot_table"
  proc_fd_caches :: "ptr slot_table"
  primary_fd_cache :: fd_cache_proc
  pebs :: "ptr \<Rightarrow> peb option"
  infos :: "ptr \<Rightarrow> image_info option"
  caches :: "ptr \<Rightarrow> fd_cache_proc option"
  children :: "ptr \<Rightarrow> child option" \<comment> \<open>by TEB\<close>
  opened :: "int \<Rightarrow> holder option"

definition open_fd :: "int \<Rightarrow> holder \<Rightarrow> host_proc \<Rightarrow> host_proc" where
  "open_fd fd h s = s\<lparr>opened := (opened s)(fd := Some h)\<rparr>"

definition shut_fd :: "int \<Rightarrow> host_proc \<Rightarrow> host_proc" where
  "shut_fd fd s = s\<lparr>opened := (opened s)(fd := None)\<rparr>"

section \<open>The handle cache\<close>

text \<open>
  \<open>k\<close> is what \<^verbatim>\<open>handle_to_index\<close> makes of a handle, block and index; \<open>mem\<close>: the mapping
  of a new block succeeded; \<open>is_primary\<close>: the cache is the primary process's, whose first block is
  static. The result is \<open>None\<close> when the assertion that the entry was empty fails.
\<close>

definition cache_block :: "bool \<Rightarrow> bool \<Rightarrow> nat \<Rightarrow> fd_cache_proc \<Rightarrow> fd_cache_proc option" where
  "cache_block mem is_primary e c =
     (case c e of
        Some _ \<Rightarrow> Some c
      | None \<Rightarrow> if e = 0 \<and> is_primary \<or> mem then Some (c(e := Some (\<lambda>_. None))) else None)"

definition add_fd_to_cache ::
  "bool \<Rightarrow> bool \<Rightarrow> nat \<times> nat \<Rightarrow> fd_cache_entry \<Rightarrow> fd_cache_proc \<Rightarrow> (bool \<times> fd_cache_proc) option" where
  "add_fd_to_cache mem is_primary k ent c =
     (if fst k \<ge> FD_CACHE_ENTRIES then Some (False, c)
      else case cache_block mem is_primary (fst k) c of
             None \<Rightarrow> Some (False, c)
           | Some c' \<Rightarrow>
               let b = the (c' (fst k))
               in if b (snd k) \<noteq> None then None
                  else Some (True, c'(fst k := Some (b(snd k := Some ent)))))"

definition get_cached_fd :: "nat \<times> nat \<Rightarrow> fd_cache_proc \<Rightarrow> ntstatus + fd_cache_entry" where
  "get_cached_fd k c =
     (if fst k \<ge> FD_CACHE_ENTRIES then Inl STATUS_INVALID_HANDLE
      else case c (fst k) of
             None \<Rightarrow> Inl STATUS_INVALID_HANDLE
           | Some b \<Rightarrow> (case b (snd k) of None \<Rightarrow> Inl STATUS_INVALID_HANDLE | Some ent \<Rightarrow> Inr ent))"

text \<open>The result is the descriptor for the caller to close, or -1.\<close>

definition remove_fd_from_cache :: "nat \<times> nat \<Rightarrow> fd_cache_proc \<Rightarrow> int \<times> fd_cache_proc" where
  "remove_fd_from_cache k c =
     (if fst k < FD_CACHE_ENTRIES then
        case c (fst k) of
          None \<Rightarrow> (-1, c)
        | Some b \<Rightarrow>
            (case b (snd k) of
               None \<Rightarrow> -1
             | Some ent \<Rightarrow> if ce_type ent \<noteq> FD_TYPE_INVALID then ce_fd ent else -1,
             c(fst k := Some (b(snd k := None))))
      else (-1, c))"

text \<open>The cache of the calling process, and its replacement in the host's memory.\<close>

definition current_fd_cache :: "ptr \<Rightarrow> host_proc \<Rightarrow> fd_cache_proc" where
  "current_fd_cache cur s =
     (case table_find (proc_fd_caches s) cur of
        None \<Rightarrow> primary_fd_cache s
      | Some c \<Rightarrow> the (caches s c))"

definition put_fd_cache :: "ptr \<Rightarrow> fd_cache_proc \<Rightarrow> host_proc \<Rightarrow> host_proc" where
  "put_fd_cache cur d s =
     (case table_find (proc_fd_caches s) cur of
        None \<Rightarrow> s\<lparr>primary_fd_cache := d\<rparr>
      | Some c \<Rightarrow> s\<lparr>caches := (caches s)(c := Some d)\<rparr>)"

text \<open>\<open>c = 0\<close>: the mapping of the cache failed.\<close>

definition alloc_process_fd_cache :: "ptr \<Rightarrow> ptr \<Rightarrow> host_proc \<Rightarrow> ntstatus \<times> host_proc" where
  "alloc_process_fd_cache c own s =
     (if c = 0 then (STATUS_NO_MEMORY, s)
      else case register_cache own c (proc_fd_caches s) of
             Inl present \<Rightarrow> (if present then STATUS_SUCCESS else STATUS_TOO_MANY_OPENED_FILES, s)
           | Inr T \<Rightarrow> (STATUS_SUCCESS,
               s\<lparr>proc_fd_caches := T, caches := (caches s)(c := Some (\<lambda>_. None))\<rparr>))"

definition close_entry :: "fd_cache_proc \<Rightarrow> nat \<times> nat \<Rightarrow> (int \<Rightarrow> holder option) \<Rightarrow> int \<Rightarrow> holder option" where
  "close_entry c k op =
     (case c (fst k) of
        None \<Rightarrow> op
      | Some b \<Rightarrow>
          (case b (snd k) of
             None \<Rightarrow> op
           | Some ent \<Rightarrow> if ce_type ent \<noteq> FD_TYPE_INVALID then op(ce_fd ent := None) else op))"

definition release_process_fd_cache :: "ptr \<Rightarrow> host_proc \<Rightarrow> host_proc" where
  "release_process_fd_cache own s =
     (case unregister_cache own (proc_fd_caches s) of
        (None, _) \<Rightarrow> s
      | (Some c, T) \<Rightarrow>
          s\<lparr>proc_fd_caches := T, caches := (caches s)(c := None),
            opened := fold (close_entry (the (caches s c)))
              (List.product [0..<FD_CACHE_ENTRIES] [0..<FD_CACHE_BLOCK_SIZE]) (opened s)\<rparr>)"

section \<open>Spawning\<close>

text \<open>What the calls of \<^verbatim>\<open>spawn_process_inproc\<close> return; a mapping that failed is 0.\<close>

record spawn_answers =
  a_dup :: int
  a_peb :: ptr
  a_info :: ptr
  a_cache :: ptr
  a_teb :: "ntstatus + ptr"
  a_stack :: ntstatus
  a_created :: bool

definition register_child :: "ptr \<Rightarrow> int \<Rightarrow> ptr \<Rightarrow> host_proc \<Rightarrow> host_proc" where
  "register_child p fd info s =
     s\<lparr>proc_server_fds := set_process_server_fd p fd (proc_server_fds s),
       proc_image_infos := set_process_image_info p info (proc_image_infos s)\<rparr>"

definition unmap_child :: "ptr \<Rightarrow> ptr \<Rightarrow> host_proc \<Rightarrow> host_proc" where
  "unmap_child p info s = s\<lparr>infos := (infos s)(info := None), pebs := (pebs s)(p := None)\<rparr>"

definition spawn_failed :: "spawn_answers \<Rightarrow> ntstatus \<Rightarrow> host_proc \<Rightarrow> ntstatus \<times> host_proc" where
  "spawn_failed a st s =
     (st, shut_fd (a_dup a) (unmap_child (a_peb a) (a_info a)
            (release_process_fd_cache (a_peb a) (register_child (a_peb a) (-1) 0 s))))"

definition new_child :: "spawn_answers \<Rightarrow> child" where
  "new_child a = \<lparr>c_peb = a_peb a, c_request_fd = -1, c_reply_fd = -1, c_wait_fd = (-1, -1),
     c_ids = (0, 0), c_pc = Starting, c_conn = a_dup a, c_rode = None\<rparr>"

text \<open>Up to the registration: \<open>Inl\<close> the return of a failure, \<open>Inr\<close> the state to go on in.\<close>

definition spawn_prepare :: "spawn_answers \<Rightarrow> ptr \<Rightarrow> host_proc \<Rightarrow> ntstatus \<times> host_proc + host_proc" where
  "spawn_prepare a parent s =
     (if a_dup a = -1 then Inl (STATUS_TOO_MANY_OPENED_FILES, s)
      else let s1 = open_fd (a_dup a) (Conn (a_peb a)) s
      in if a_peb a = 0 then Inl (STATUS_NO_MEMORY, shut_fd (a_dup a) s1)
      else let s2 = s1\<lparr>pebs := (pebs s1)(a_peb a :=
                 Some ((the (pebs s1 parent))\<lparr>pb_ProcessParameters := 0, pb_LdrData := 0\<rparr>))\<rparr>
      in if a_info a = 0
         then Inl (STATUS_NO_MEMORY, shut_fd (a_dup a) (s2\<lparr>pebs := (pebs s2)(a_peb a := None)\<rparr>))
      else let s3 = register_child (a_peb a) (a_dup a) (a_info a)
                      (s2\<lparr>infos := (infos s2)(a_info a := Some \<lparr>ii_TransferAddress = 0\<rparr>)\<rparr>);
               (st, s4) = alloc_process_fd_cache (a_cache a) (a_peb a) s3
      in if st \<noteq> STATUS_SUCCESS
         then Inl (st, shut_fd (a_dup a) (unmap_child (a_peb a) (a_info a)
                     (register_child (a_peb a) (-1) 0 s4)))
         else Inr s4)"

definition spawn_process_inproc :: "spawn_answers \<Rightarrow> ptr \<Rightarrow> host_proc \<Rightarrow> ntstatus \<times> host_proc" where
  "spawn_process_inproc a parent s =
     (case spawn_prepare a parent s of
        Inl r \<Rightarrow> r
      | Inr s4 \<Rightarrow>
          (case a_teb a of
             Inl st \<Rightarrow> spawn_failed a st s4
           | Inr teb \<Rightarrow>
               let s5 = s4\<lparr>children := (children s4)(teb := Some (new_child a))\<rparr>;
                   freed = s5\<lparr>children := (children s5)(teb := None)\<rparr>
               in if a_stack a \<noteq> STATUS_SUCCESS then spawn_failed a (a_stack a) freed
                  else if \<not> a_created a then spawn_failed a STATUS_NO_MEMORY freed
                  else (STATUS_SUCCESS, s5)))"

text \<open>
  \<^verbatim>\<open>spawn_process\<close>, with and without \<^verbatim>\<open>WINE_FORKLESS\<close>: which backend serves a
  spawn. \<open>pe_side\<close>: the PE side of ntdll is initialized; \<open>bootstrap\<close>: the prefix is being
  created; \<open>has_dlls\<close>: it has its system DLLs; \<open>requested\<close>: \<^verbatim>\<open>WINE_INPROC_SPAWN\<close> is set.
\<close>

datatype backend = Inproc | Fork | Refused ntstatus

definition spawn_backend :: "bool \<Rightarrow> bool \<Rightarrow> bool \<Rightarrow> bool \<Rightarrow> bool \<Rightarrow> backend" where
  "spawn_backend forkless requested pe_side bootstrap has_dlls =
     (if forkless then
        if \<not> pe_side then Refused STATUS_NOT_SUPPORTED
        else if bootstrap \<and> \<not> has_dlls then Refused STATUS_NOT_SUPPORTED
        else Inproc
      else if requested then
        if \<not> pe_side then Fork
        else if bootstrap \<and> \<not> has_dlls then Fork
        else Inproc
      else Fork)"

text \<open>\<open>forked\<close>: what \<^verbatim>\<open>spawn_process_fork\<close> would do.\<close>

definition spawn_process ::
  "backend \<Rightarrow> (host_proc \<Rightarrow> ntstatus \<times> host_proc) \<Rightarrow> spawn_answers \<Rightarrow> ptr \<Rightarrow> host_proc \<Rightarrow> ntstatus \<times> host_proc" where
  "spawn_process b forked a parent s =
     (case b of
        Inproc \<Rightarrow> spawn_process_inproc a parent s
      | Fork \<Rightarrow> forked s
      | Refused st \<Rightarrow> (st, s))"

section \<open>The child's first thread\<close>

text \<open>What the server sends in the handshake; \<open>r_fd = -1\<close>: nothing was received.\<close>

record attach_answers =
  r_fd :: int
  r_version_ok :: bool
  r_reply_fd :: int
  r_wait_fd :: "int \<times> int"
  r_status :: ntstatus
  r_ids :: "u32 \<times> u32"
  r_session :: u32
  r_info_size :: u64

definition upd_child :: "ptr \<Rightarrow> (child \<Rightarrow> child) \<Rightarrow> host_proc \<Rightarrow> host_proc" where
  "upd_child teb f s = s\<lparr>children := (children s)(teb := map_option f (children s teb))\<rparr>"

text \<open>
  \<^verbatim>\<open>server_init_process_inproc\<close>. The other end of the reply pipe and the device of the
  process are descriptors that are opened and closed again within it.
\<close>

definition server_init_process_inproc ::
  "attach_answers \<Rightarrow> ptr \<Rightarrow> child \<Rightarrow> host_proc \<Rightarrow> ntstatus \<times> host_proc" where
  "server_init_process_inproc r teb c s =
     (let p = c_peb c;
          conn = current_server_fd (fd_socket s) (proc_server_fds s) p;
          s1 = upd_child teb (\<lambda>c. c\<lparr>c_request_fd := r_fd r, c_rode := Some conn\<rparr>) s;
          s2 = (if r_fd r = -1 then s1 else open_fd (r_fd r) (Pipe p 0) s1)
      in if r_fd r = -1 \<or> \<not> r_version_ok r then (STATUS_INTERNAL_ERROR, s2)
      else let s3 = open_fd (snd (r_wait_fd r)) (Pipe p 3) (open_fd (fst (r_wait_fd r)) (Pipe p 2)
                 (open_fd (r_reply_fd r) (Pipe p 1)
                   (upd_child teb (\<lambda>c. c\<lparr>c_reply_fd := r_reply_fd r, c_wait_fd := r_wait_fd r\<rparr>) s2)))
      in if r_status r \<noteq> STATUS_SUCCESS then (r_status r, s3)
      else (STATUS_SUCCESS,
            upd_child teb (\<lambda>c. c\<lparr>c_ids := r_ids r\<rparr>)
              (s3\<lparr>pebs := (pebs s3)(p := map_option (\<lambda>b. b\<lparr>pb_SessionId := r_session r\<rparr>) (pebs s3 p))\<rparr>)))"

definition child_attach :: "attach_answers \<Rightarrow> ptr \<Rightarrow> child \<Rightarrow> host_proc \<Rightarrow> host_proc" where
  "child_attach r teb c s =
     (let (st, t) = server_init_process_inproc r teb c s
      in upd_child teb (\<lambda>c. c\<lparr>c_pc := if st = STATUS_SUCCESS then Attached (r_info_size r) else Detaching\<rparr>) t)"

text \<open>
  \<^verbatim>\<open>init_startup_info_inproc\<close>: what the server returned for the startup information, and
  what became of loading the image. A child without startup information takes the parameters the
  host was started with.
\<close>

record startup_answers =
  su_status :: ntstatus
  su_info_size :: u64
  su_env_size :: u64
  su_load :: ntstatus
  su_params :: ptr
  su_base :: ptr
  su_entry :: ptr

definition build_startup_info :: "u64 \<Rightarrow> startup_answers \<Rightarrow> ntstatus" where
  "build_startup_info info_size su =
     (if info_size = 0 then STATUS_SUCCESS
      else if su_status su \<noteq> STATUS_SUCCESS \<or> su_info_size su = 0 \<or> su_env_size su = 0
      then if su_status su \<noteq> STATUS_SUCCESS then su_status su else STATUS_INVALID_PARAMETER
      else if \<not> nt_success (su_load su) then su_load su
      else STATUS_SUCCESS)"

text \<open>
  It ended with status \<open>st\<close>, and if it succeeded it made these parameters and mapped the image
  at this base with this entry point.
\<close>

definition child_build :: "ntstatus \<Rightarrow> ptr \<Rightarrow> ptr \<Rightarrow> ptr \<Rightarrow> ptr \<Rightarrow> child \<Rightarrow> host_proc \<Rightarrow> host_proc" where
  "child_build st params base entry teb c s =
     (if st \<noteq> STATUS_SUCCESS then upd_child teb (\<lambda>c. c\<lparr>c_pc := Detaching\<rparr>) s
      else let p = c_peb c; i = current_image_info (main_image_info s) (proc_image_infos s) p
      in upd_child teb (\<lambda>c. c\<lparr>c_pc := Built\<rparr>)
           (s\<lparr>pebs := (pebs s)(p := map_option
                 (\<lambda>b. b\<lparr>pb_ImageBaseAddress := base, pb_ProcessParameters := params\<rparr>) (pebs s p)),
              infos := (infos s)(i := map_option (\<lambda>b. b\<lparr>ii_TransferAddress := entry\<rparr>) (infos s i))\<rparr>))"

definition child_done :: "ntstatus \<Rightarrow> ptr \<Rightarrow> host_proc \<Rightarrow> host_proc" where
  "child_done st teb s =
     upd_child teb (\<lambda>c. c\<lparr>c_pc := if st = STATUS_SUCCESS then Entering else Detaching\<rparr>) s"

text \<open>\<open>enters\<close>: the build is forkless or \<^verbatim>\<open>WINE_INPROC_RUN\<close> is set.\<close>

definition child_enter :: "bool \<Rightarrow> ptr \<Rightarrow> host_proc \<Rightarrow> host_proc" where
  "child_enter enters teb s = upd_child teb (\<lambda>c. c\<lparr>c_pc := if enters then Running else Detaching\<rparr>) s"

definition close_unless_none :: "int \<Rightarrow> host_proc \<Rightarrow> host_proc" where
  "close_unless_none fd s = (if fd \<noteq> -1 then shut_fd fd s else s)"

definition child_detach :: "ptr \<Rightarrow> child \<Rightarrow> host_proc \<Rightarrow> host_proc" where
  "child_detach teb c s =
     (let p = c_peb c;
          socketfd = current_server_fd (fd_socket s) (proc_server_fds s) p;
          s1 = close_unless_none (snd (c_wait_fd c)) (close_unless_none (fst (c_wait_fd c))
                 (close_unless_none (c_reply_fd c) (close_unless_none (c_request_fd c) s)));
          s2 = release_process_fd_cache p (register_child p (-1) 0 s1)
      in upd_child teb (\<lambda>c. c\<lparr>c_pc := Gone\<rparr>) (close_unless_none socketfd s2))"

text \<open>
  The exit of a program in the in-process model, where \<^verbatim>\<open>WINE_INPROCESS\<close> is set and
  \<^verbatim>\<open>process_exit_wrapper\<close> ends the thread.
\<close>

definition child_exit :: "environment \<Rightarrow> int \<Rightarrow> ptr \<Rightarrow> host_proc \<Rightarrow> host_proc option" where
  "child_exit e status teb s =
     (case process_exit_wrapper True e (fd_socket s) status of
        (fd, Ends_thread _) \<Rightarrow> Some (upd_child teb (\<lambda>c. c\<lparr>c_pc := Exited\<rparr>) (shut_fd fd s))
      | (fd, Ends_process _) \<Rightarrow> None)"

end
