(* ===== verification/InprocHost.thy ===== *)
theory InprocHost
  imports InprocSpawn
begin

text \<open>
  The host process as a machine: the spawns, the steps of the children's first threads, and
  the handle caches used by all of them, interleaved; and the invariant of its tables.

  A spawn is one step: until the thread it creates runs, nothing else refers to the PEB it
  allocated, and what it does to the tables for that PEB does not depend on what others do
  there for theirs, but for the room that is left.
\<close>

section \<open>Steps\<close>

definition unmapped :: "host_proc \<Rightarrow> ptr \<Rightarrow> bool" where
  "unmapped s a \<longleftrightarrow> a \<noteq> 0 \<and> pebs s a = None \<and> infos s a = None \<and> caches s a = None \<and> children s a = None"

definition fresh_fd :: "host_proc \<Rightarrow> int \<Rightarrow> bool" where
  "fresh_fd s fd \<longleftrightarrow> fd \<noteq> -1 \<and> opened s fd = None"

definition unused_answers :: "spawn_answers \<Rightarrow> host_proc \<Rightarrow> bool" where
  "unused_answers a s \<longleftrightarrow> (a_dup a = -1 \<or> fresh_fd s (a_dup a)) \<and>
     (\<forall>x \<in> {a_peb a, a_info a, a_cache a}. x = 0 \<or> unmapped s x) \<and>
     (a_peb a = 0 \<or> a_peb a \<noteq> a_info a) \<and>
     (case a_teb a of Inl st \<Rightarrow> st \<noteq> STATUS_SUCCESS | Inr teb \<Rightarrow> unmapped s teb)"

text \<open>The process of a thread: the primary one, or the one of the child with this TEB.\<close>

fun caller :: "ptr option \<Rightarrow> host_proc \<Rightarrow> ptr option" where
  "caller None s = Some (primary s)"
| "caller (Some teb) s =
     (case children s teb of
        None \<Rightarrow> None
      | Some c \<Rightarrow> if c_pc c \<in> {Gone, Exited} then None else Some (c_peb c))"

definition at_pc :: "ptr \<Rightarrow> (child_pc \<Rightarrow> bool) \<Rightarrow> host_proc \<Rightarrow> child option" where
  "at_pc teb P s =
     (case children s teb of None \<Rightarrow> None | Some c \<Rightarrow> if P (c_pc c) then Some c else None)"

datatype spawn_act =
    Spawns "ptr option" spawn_answers
  | Attaches ptr attach_answers
  | Builds ptr startup_answers
  | Finishes ptr ntstatus
  | Enters ptr bool
  | Detaches ptr
  | Exits ptr environment int
  | Caches "ptr option" bool "nat \<times> nat" fd_cache_entry
  | Looks_up "ptr option" "nat \<times> nat" "ntstatus + fd_cache_entry"
  | Uncaches "ptr option" "nat \<times> nat"

definition cache_add :: "ptr \<Rightarrow> bool \<Rightarrow> nat \<times> nat \<Rightarrow> fd_cache_entry \<Rightarrow> host_proc \<Rightarrow> (bool \<times> host_proc) option" where
  "cache_add p mem k ent s =
     (case add_fd_to_cache mem (table_find (proc_fd_caches s) p = None) k ent (current_fd_cache p s) of
        None \<Rightarrow> None
      | Some (False, _) \<Rightarrow> Some (False, s)
      | Some (True, d) \<Rightarrow>
          Some (True, put_fd_cache p d
            (if ce_type ent = FD_TYPE_INVALID then s
             else open_fd (ce_fd ent) (Cached p (fst k) (snd k)) s)))"

definition cache_remove :: "ptr \<Rightarrow> nat \<times> nat \<Rightarrow> host_proc \<Rightarrow> host_proc" where
  "cache_remove p k s =
     (let (fd, d) = remove_fd_from_cache k (current_fd_cache p s)
      in close_unless_none fd (put_fd_cache p d s))"

fun spawn_step :: "host_proc \<Rightarrow> spawn_act \<Rightarrow> host_proc \<Rightarrow> bool" where
  "spawn_step s (Spawns who a) t =
     (\<exists>p. caller who s = Some p \<and> unused_answers a s \<and> t = snd (spawn_process_inproc a p s))"
| "spawn_step s (Attaches teb r) t =
     (\<exists>c. at_pc teb ((=) Starting) s = Some c \<and>
        (r_fd r = -1 \<or> distinct [r_fd r, r_reply_fd r, fst (r_wait_fd r), snd (r_wait_fd r)] \<and>
           (\<forall>fd \<in> {r_fd r, r_reply_fd r, fst (r_wait_fd r), snd (r_wait_fd r)}. fresh_fd s fd)) \<and>
        t = child_attach r teb c s)"
| "spawn_step s (Builds teb su) t =
     (\<exists>c n. at_pc teb ((=) (Attached n)) s = Some c \<and>
        t = child_build (build_startup_info n su) (su_params su) (su_base su) (su_entry su) teb c s)"
| "spawn_step s (Finishes teb st) t = (at_pc teb ((=) Built) s \<noteq> None \<and> t = child_done st teb s)"
| "spawn_step s (Enters teb en) t = (at_pc teb ((=) Entering) s \<noteq> None \<and> t = child_enter en teb s)"
| "spawn_step s (Detaches teb) t = (\<exists>c. at_pc teb ((=) Detaching) s = Some c \<and> t = child_detach teb c s)"
| "spawn_step s (Exits teb e status) t = (at_pc teb ((=) Running) s \<noteq> None \<and> child_exit e status teb s = Some t)"
| "spawn_step s (Caches who mem k ent) t =
     (\<exists>p ok. caller who s = Some p \<and> snd k < FD_CACHE_BLOCK_SIZE \<and>
        (ce_type ent = FD_TYPE_INVALID \<or> fresh_fd s (ce_fd ent)) \<and> cache_add p mem k ent s = Some (ok, t))"
| "spawn_step s (Looks_up who k r) t =
     (\<exists>p. caller who s = Some p \<and> r = get_cached_fd k (current_fd_cache p s) \<and> t = s)"
| "spawn_step s (Uncaches who k) t =
     (\<exists>p. caller who s = Some p \<and> snd k < FD_CACHE_BLOCK_SIZE \<and> t = cache_remove p k s)"

definition first_process :: "ptr \<Rightarrow> int \<Rightarrow> ptr \<Rightarrow> host_proc" where
  "first_process p fd main =
     \<lparr>primary = p, fd_socket = fd, main_image_info = main,
      proc_server_fds = set_process_server_fd p fd (empty_table MAX_PROC_FDS 0),
      proc_image_infos = empty_table MAX_PROC_IMAGES 0, proc_fd_caches = empty_table MAX_PROC_FDS 0,
      primary_fd_cache = (\<lambda>_. None),
      pebs = (\<lambda>_. None)(p := Some \<lparr>pb_ProcessParameters = 0, pb_LdrData = 0, pb_ImageBaseAddress = 0,
                pb_SessionId = 0\<rparr>),
      infos = (\<lambda>_. None)(main := Some \<lparr>ii_TransferAddress = 0\<rparr>), caches = (\<lambda>_. None),
      children = (\<lambda>_. None), opened = (\<lambda>_. None)(fd := Some (Conn p))\<rparr>"

definition spawn_start :: "host_proc \<Rightarrow> bool" where
  "spawn_start s \<longleftrightarrow> (\<exists>p fd main. p \<noteq> 0 \<and> fd \<noteq> -1 \<and> main \<noteq> 0 \<and> s = first_process p fd main)"

section \<open>The invariant\<close>

abbreviation srv :: "host_proc \<Rightarrow> ptr \<Rightarrow> int option" where "srv s \<equiv> bound_at (proc_server_fds s)"
abbreviation img :: "host_proc \<Rightarrow> ptr \<Rightarrow> ptr option" where "img s \<equiv> bound_at (proc_image_infos s)"
abbreviation cch :: "host_proc \<Rightarrow> ptr \<Rightarrow> ptr option" where "cch s \<equiv> bound_at (proc_fd_caches s)"

definition tables_ok :: "host_proc \<Rightarrow> bool" where
  "tables_ok s \<longleftrightarrow> table_wf MAX_PROC_FDS (proc_server_fds s) \<and> table_wf MAX_PROC_IMAGES (proc_image_infos s) \<and>
     table_wf MAX_PROC_FDS (proc_fd_caches s)"

definition primary_ok :: "host_proc \<Rightarrow> bool" where
  "primary_ok s \<longleftrightarrow> fd_socket s \<noteq> -1 \<and> pebs s (primary s) \<noteq> None \<and> infos s (main_image_info s) \<noteq> None \<and>
     srv s (primary s) = Some (fd_socket s) \<and> cch s (primary s) = None \<and> pebs s 0 = None"

text \<open>Only allocated PEBs are registered, each with its own information and cache.\<close>

definition entries_ok :: "host_proc \<Rightarrow> bool" where
  "entries_ok s \<longleftrightarrow> dom (img s) = dom (cch s) \<and> dom (srv s) \<subseteq> insert (primary s) (dom (cch s)) \<and>
     dom (cch s) \<subseteq> dom (pebs s) \<and>
     (\<forall>k i. img s k = Some i \<longrightarrow> infos s i \<noteq> None \<and> i \<noteq> main_image_info s) \<and>
     (\<forall>k c. cch s k = Some c \<longrightarrow> caches s c \<noteq> None) \<and>
     (\<forall>k l i. img s k = Some i \<longrightarrow> img s l = Some i \<longrightarrow> k = l) \<and>
     (\<forall>k l c. cch s k = Some c \<longrightarrow> cch s l = Some c \<longrightarrow> k = l)"

definition child_ok :: "host_proc \<Rightarrow> child \<Rightarrow> bool" where
  "child_ok s c \<longleftrightarrow> c_peb c \<noteq> primary s \<and> pebs s (c_peb c) \<noteq> None \<and> c_conn c \<noteq> -1 \<and>
     (c_pc c = Gone \<longleftrightarrow> cch s (c_peb c) = None) \<and>
     (c_pc c \<noteq> Gone \<longrightarrow> srv s (c_peb c) = None \<or> srv s (c_peb c) = Some (c_conn c))"

definition children_ok :: "host_proc \<Rightarrow> bool" where
  "children_ok s \<longleftrightarrow> (\<forall>t c. children s t = Some c \<longrightarrow> child_ok s c) \<and>
     (\<forall>t u c d. children s t = Some c \<longrightarrow> children s u = Some d \<longrightarrow> c_peb c = c_peb d \<longrightarrow> t = u)"

definition spawn_inv :: "host_proc \<Rightarrow> bool" where
  "spawn_inv s \<longleftrightarrow> tables_ok s \<and> primary_ok s \<and> entries_ok s \<and> children_ok s"

lemma spawn_invD:
  assumes "spawn_inv s"
  shows "tables_ok s" "primary_ok s" "entries_ok s" "children_ok s"
  using assms by (simp_all add: spawn_inv_def)

text \<open>What the invariant sees of a state.\<close>

definition same_view :: "host_proc \<Rightarrow> host_proc \<Rightarrow> bool" where
  "same_view s t \<longleftrightarrow> tables_ok t \<and> srv t = srv s \<and> img t = img s \<and> cch t = cch s \<and>
     primary t = primary s \<and> fd_socket t = fd_socket s \<and> main_image_info t = main_image_info s \<and>
     dom (pebs t) = dom (pebs s) \<and> dom (infos t) = dom (infos s) \<and> dom (caches t) = dom (caches s)"

lemma dom_None: "dom f = dom g \<Longrightarrow> f a = None \<longleftrightarrow> g a = None"
  by (metis domIff)

lemma same_view_inv:
  assumes "spawn_inv s" "same_view s t" "children t = children s"
  shows "spawn_inv t"
proof -
  note V = assms(2) [unfolded same_view_def]
  have "pebs t a = None \<longleftrightarrow> pebs s a = None" "infos t a = None \<longleftrightarrow> infos s a = None"
    "caches t a = None \<longleftrightarrow> caches s a = None" for a
    using V dom_None by metis+
  with V assms(1,3) show ?thesis
    by (simp add: spawn_inv_def primary_ok_def entries_ok_def children_ok_def child_ok_def)
qed

text \<open>A child moves on.\<close>

lemma child_move:
  assumes "spawn_inv s" "same_view s t" "children s teb = Some c"
    and "children t = (children s)(teb := Some c')" "c_peb c' = c_peb c" "c_conn c' = c_conn c"
    and "c_pc c \<noteq> Gone" "c_pc c' \<noteq> Gone"
  shows "spawn_inv t"
proof -
  let ?u = "t\<lparr>children := children s\<rparr>"
  have "same_view s ?u" using assms(2) by (simp add: same_view_def tables_ok_def)
  from same_view_inv [OF assms(1) this] have u: "spawn_inv ?u" by simp
  then have ok: "children_ok ?u" by (simp add: spawn_inv_def)
  have "child_ok t d" if "children t q = Some d" for q d
  proof (cases "q = teb")
    case True
    with ok assms(3) have "child_ok ?u c" by (simp add: children_ok_def)
    with True that assms(4-8) show ?thesis by (simp add: child_ok_def)
  next
    case False
    with ok that assms(4) have "child_ok ?u d" by (simp add: children_ok_def)
    then show ?thesis by (simp add: child_ok_def)
  qed
  moreover have "q = r" if "children t q = Some d" "children t r = Some e" "c_peb d = c_peb e" for q r d e
  proof -
    have old: "\<exists>d'. children s a = Some d' \<and> c_peb d' = c_peb d" if "children t a = Some d" for a d
      using that assms(3-5) by (cases "a = teb") auto
    from old [OF that(1)] old [OF that(2)] that(3) ok show ?thesis
      by (fastforce simp: children_ok_def)
  qed
  ultimately have "children_ok t" by (simp add: children_ok_def)
  with u show ?thesis by (simp add: spawn_inv_def tables_ok_def primary_ok_def entries_ok_def)
qed

end
