(* ===== verification/InprocInv.thy ===== *)
theory InprocInv
  imports InprocHost
begin

text \<open>
  The invariant of \<^verbatim>\<open>InprocHost\<close> holds at the start and is kept by every step.
\<close>

section \<open>What the operations change\<close>

lemma fd_sel [simp]:
  "opened (open_fd fd h s) = (opened s)(fd := Some h)" "opened (shut_fd fd s) = (opened s)(fd := None)"
  by (simp_all add: open_fd_def shut_fd_def)

text \<open>Everything but the descriptors is left alone by opening and closing.\<close>

definition same_but_fds :: "host_proc \<Rightarrow> host_proc \<Rightarrow> bool" where
  "same_but_fds s t \<longleftrightarrow> t = s\<lparr>opened := opened t\<rparr>"

lemma same_but_fds_sel:
  assumes "same_but_fds s t"
  shows "primary t = primary s" "fd_socket t = fd_socket s" "main_image_info t = main_image_info s"
    "proc_server_fds t = proc_server_fds s" "proc_image_infos t = proc_image_infos s"
    "proc_fd_caches t = proc_fd_caches s" "primary_fd_cache t = primary_fd_cache s" "pebs t = pebs s"
    "infos t = infos s" "caches t = caches s" "children t = children s"
  by (subst assms [unfolded same_but_fds_def], simp)+

lemma same_but_fds_simps [simp]:
  "same_but_fds s (open_fd fd h s)" "same_but_fds s (shut_fd fd s)" "same_but_fds s (close_unless_none fd s)"
  by (simp_all add: same_but_fds_def open_fd_def shut_fd_def close_unless_none_def)

lemmas fds_only [simp] = same_but_fds_simps [THEN same_but_fds_sel(1)] same_but_fds_simps [THEN same_but_fds_sel(2)]
  same_but_fds_simps [THEN same_but_fds_sel(3)] same_but_fds_simps [THEN same_but_fds_sel(4)]
  same_but_fds_simps [THEN same_but_fds_sel(5)] same_but_fds_simps [THEN same_but_fds_sel(6)]
  same_but_fds_simps [THEN same_but_fds_sel(7)] same_but_fds_simps [THEN same_but_fds_sel(8)]
  same_but_fds_simps [THEN same_but_fds_sel(9)] same_but_fds_simps [THEN same_but_fds_sel(10)]
  same_but_fds_simps [THEN same_but_fds_sel(11)]

lemma upd_child_sel [simp]:
  "primary (upd_child teb f s) = primary s" "fd_socket (upd_child teb f s) = fd_socket s"
  "main_image_info (upd_child teb f s) = main_image_info s"
  "proc_server_fds (upd_child teb f s) = proc_server_fds s"
  "proc_image_infos (upd_child teb f s) = proc_image_infos s"
  "proc_fd_caches (upd_child teb f s) = proc_fd_caches s"
  "primary_fd_cache (upd_child teb f s) = primary_fd_cache s" "pebs (upd_child teb f s) = pebs s"
  "infos (upd_child teb f s) = infos s" "caches (upd_child teb f s) = caches s"
  "opened (upd_child teb f s) = opened s"
  "children (upd_child teb f s) = (children s)(teb := map_option f (children s teb))"
  by (simp_all add: upd_child_def)

lemma put_fd_cache_sel [simp]:
  "primary (put_fd_cache p d s) = primary s" "fd_socket (put_fd_cache p d s) = fd_socket s"
  "main_image_info (put_fd_cache p d s) = main_image_info s"
  "proc_server_fds (put_fd_cache p d s) = proc_server_fds s"
  "proc_image_infos (put_fd_cache p d s) = proc_image_infos s"
  "proc_fd_caches (put_fd_cache p d s) = proc_fd_caches s" "pebs (put_fd_cache p d s) = pebs s"
  "infos (put_fd_cache p d s) = infos s" "children (put_fd_cache p d s) = children s"
  "opened (put_fd_cache p d s) = opened s"
  by (simp_all add: put_fd_cache_def split: option.split)

text \<open>The descriptors a cache holds, and their closing with it.\<close>

definition cache_holds :: "fd_cache_proc \<Rightarrow> nat \<times> nat \<Rightarrow> int \<Rightarrow> bool" where
  "cache_holds c k fd \<longleftrightarrow> (\<exists>b ent. c (fst k) = Some b \<and> b (snd k) = Some ent \<and>
     ce_type ent \<noteq> FD_TYPE_INVALID \<and> ce_fd ent = fd)"

lemma close_entry_eq: "close_entry c k op fd = (if cache_holds c k fd then None else op fd)"
  by (auto simp: close_entry_def cache_holds_def split: option.split)

lemma close_entries_eq:
  "fold (close_entry c) ks op fd = (if \<exists>k \<in> set ks. cache_holds c k fd then None else op fd)"
  by (induction ks arbitrary: op) (auto simp: close_entry_eq)

lemma close_entries_empty: "fold (close_entry (\<lambda>_. None)) ks op = op"
  by (rule ext) (simp add: close_entries_eq cache_holds_def)

section \<open>A spawn\<close>

text \<open>A failure leaves everything as it was; the tables may hold other remains of free slots.\<close>

definition restored :: "host_proc \<Rightarrow> host_proc \<Rightarrow> bool" where
  "restored s t \<longleftrightarrow> tables_ok t \<and> srv t = srv s \<and> img t = img s \<and> cch t = cch s \<and>
     t = s\<lparr>proc_server_fds := proc_server_fds t, proc_image_infos := proc_image_infos t,
       proc_fd_caches := proc_fd_caches t\<rparr>"

lemma restored_refl: "tables_ok s \<Longrightarrow> restored s s"
  by (simp add: restored_def)

lemma restored_sel:
  assumes "restored s t"
  shows "pebs t = pebs s" "infos t = infos s" "caches t = caches s" "children t = children s"
    "opened t = opened s" "primary_fd_cache t = primary_fd_cache s" "primary t = primary s"
    "fd_socket t = fd_socket s" "main_image_info t = main_image_info s"
proof -
  have t: "t = s\<lparr>proc_server_fds := proc_server_fds t, proc_image_infos := proc_image_infos t,
       proc_fd_caches := proc_fd_caches t\<rparr>" using assms by (simp add: restored_def)
  show "pebs t = pebs s" "infos t = infos s" "caches t = caches s" "children t = children s"
    "opened t = opened s" "primary_fd_cache t = primary_fd_cache s" "primary t = primary s"
    "fd_socket t = fd_socket s" "main_image_info t = main_image_info s"
    by (subst t, simp)+
qed

lemma restored_inv: "spawn_inv s \<Longrightarrow> restored s t \<Longrightarrow> spawn_inv t"
  by (rule same_view_inv) (auto simp: same_view_def restored_sel, simp_all add: restored_def)

lemma room_of: "spawn_inv s \<Longrightarrow> table_room (proc_image_infos s) \<longleftrightarrow> table_room (proc_fd_caches s)"
  using table_room_card [of MAX_PROC_IMAGES "proc_image_infos s"] table_room_card [of MAX_PROC_FDS "proc_fd_caches s"]
  by (simp add: spawn_inv_def tables_ok_def entries_ok_def)

definition spawned :: "spawn_answers \<Rightarrow> ptr \<Rightarrow> host_proc \<Rightarrow> host_proc \<Rightarrow> bool" where
  "spawned a parent s t \<longleftrightarrow> tables_ok t \<and> fresh_fd s (a_dup a) \<and> unmapped s (a_peb a) \<and>
     unmapped s (a_info a) \<and> unmapped s (a_cache a) \<and> a_peb a \<noteq> a_info a \<and>
     table_room (proc_fd_caches s) \<and>
     srv t = (if table_room (proc_server_fds s) then (srv s)(a_peb a := Some (a_dup a)) else srv s) \<and>
     img t = (img s)(a_peb a := Some (a_info a)) \<and> cch t = (cch s)(a_peb a := Some (a_cache a)) \<and>
     t = s\<lparr>proc_server_fds := proc_server_fds t, proc_image_infos := proc_image_infos t,
        proc_fd_caches := proc_fd_caches t, pebs := (pebs s)(a_peb a := Some ((the (pebs s parent))\<lparr>pb_ProcessParameters := 0, pb_LdrData := 0\<rparr>)),
        infos := (infos s)(a_info a := Some \<lparr>ii_TransferAddress = 0\<rparr>),
        caches := (caches s)(a_cache a := Some (\<lambda>_. None)),
        opened := (opened s)(a_dup a := Some (Conn (a_peb a)))\<rparr>"

lemma spawned_sel:
  assumes "spawned a parent s t"
  shows "infos t = (infos s)(a_info a := Some \<lparr>ii_TransferAddress = 0\<rparr>)" "children t = children s"
    "pebs t = (pebs s)(a_peb a := Some ((the (pebs s parent))\<lparr>pb_ProcessParameters := 0, pb_LdrData := 0\<rparr>))"
    "caches t = (caches s)(a_cache a := Some (\<lambda>_. None))" "primary_fd_cache t = primary_fd_cache s"
    "opened t = (opened s)(a_dup a := Some (Conn (a_peb a)))" "primary t = primary s"
    "fd_socket t = fd_socket s" "main_image_info t = main_image_info s"
proof -
  have t: "t = s\<lparr>proc_server_fds := proc_server_fds t, proc_image_infos := proc_image_infos t,
        proc_fd_caches := proc_fd_caches t,
        pebs := (pebs s)(a_peb a := Some ((the (pebs s parent))\<lparr>pb_ProcessParameters := 0, pb_LdrData := 0\<rparr>)),
        infos := (infos s)(a_info a := Some \<lparr>ii_TransferAddress = 0\<rparr>),
        caches := (caches s)(a_cache a := Some (\<lambda>_. None)),
        opened := (opened s)(a_dup a := Some (Conn (a_peb a)))\<rparr>"
    using assms by (simp add: spawned_def)
  show "infos t = (infos s)(a_info a := Some \<lparr>ii_TransferAddress = 0\<rparr>)" "children t = children s"
    "pebs t = (pebs s)(a_peb a := Some ((the (pebs s parent))\<lparr>pb_ProcessParameters := 0, pb_LdrData := 0\<rparr>))"
    "caches t = (caches s)(a_cache a := Some (\<lambda>_. None))" "primary_fd_cache t = primary_fd_cache s"
    "opened t = (opened s)(a_dup a := Some (Conn (a_peb a)))" "primary t = primary s"
    "fd_socket t = fd_socket s" "main_image_info t = main_image_info s"
    by (subst t, simp)+
qed

lemma unmapped_unbound:
  assumes "spawn_inv s" "unmapped s p"
  shows "srv s p = None" "img s p = None" "cch s p = None" "p \<noteq> 0" "p \<noteq> primary s"
proof -
  from spawn_invD [OF assms(1)] assms(2) have
    d: "dom (img s) = dom (cch s)" "dom (srv s) \<subseteq> insert (primary s) (dom (cch s))"
      "dom (cch s) \<subseteq> dom (pebs s)" and pr: "pebs s (primary s) \<noteq> None" and p: "pebs s p = None" "p \<noteq> 0"
    by (simp_all add: unmapped_def primary_ok_def entries_ok_def)
  from pr p show "p \<noteq> primary s" "p \<noteq> 0" by auto
  have "p \<notin> dom (cch s)" using d(3) p(1) by auto
  with d \<open>p \<noteq> primary s\<close> show "srv s p = None" "img s p = None" "cch s p = None" by blast+
qed

lemma fun_upd_fresh: "f x = None \<Longrightarrow> (f(x := v))(x := None) = f"
  by auto

lemma register_child_sel [simp]:
  "proc_server_fds (register_child p fd i s) = set_process_server_fd p fd (proc_server_fds s)"
  "proc_image_infos (register_child p fd i s) = set_process_image_info p i (proc_image_infos s)"
  "primary (register_child p fd i s) = primary s" "fd_socket (register_child p fd i s) = fd_socket s"
  "main_image_info (register_child p fd i s) = main_image_info s"
  "proc_fd_caches (register_child p fd i s) = proc_fd_caches s"
  "primary_fd_cache (register_child p fd i s) = primary_fd_cache s" "pebs (register_child p fd i s) = pebs s"
  "infos (register_child p fd i s) = infos s" "caches (register_child p fd i s) = caches s"
  "children (register_child p fd i s) = children s" "opened (register_child p fd i s) = opened s"
  by (simp_all add: register_child_def)

lemma unmap_child_sel [simp]:
  "proc_server_fds (unmap_child p i s) = proc_server_fds s"
  "proc_image_infos (unmap_child p i s) = proc_image_infos s"
  "primary (unmap_child p i s) = primary s" "fd_socket (unmap_child p i s) = fd_socket s"
  "main_image_info (unmap_child p i s) = main_image_info s"
  "proc_fd_caches (unmap_child p i s) = proc_fd_caches s"
  "primary_fd_cache (unmap_child p i s) = primary_fd_cache s" "pebs (unmap_child p i s) = (pebs s)(p := None)"
  "infos (unmap_child p i s) = (infos s)(i := None)" "caches (unmap_child p i s) = caches s"
  "children (unmap_child p i s) = children s" "opened (unmap_child p i s) = opened s"
  by (simp_all add: unmap_child_def)

text \<open>Registering a new PEB, and taking it back.\<close>

lemma register_new:
  assumes "tables_ok s" "srv s p = None" "img s p = None" "p \<noteq> 0" "fd \<noteq> -1" "i \<noteq> 0"
  shows "tables_ok (register_child p fd i s)"
    "srv (register_child p fd i s) = (if table_room (proc_server_fds s) then (srv s)(p := Some fd) else srv s)"
    "img (register_child p fd i s) = (if table_room (proc_image_infos s) then (img s)(p := Some i) else img s)"
  using assms by (simp_all add: tables_ok_def server_fds.add_wf image_infos.add_wf server_fds.lookup_add
      image_infos.lookup_add)

lemma register_out:
  assumes "tables_ok s"
  shows "tables_ok (register_child p (-1) 0 s)"
    "srv (register_child p (-1) 0 s) = (srv s)(p := None)" "img (register_child p (-1) 0 s) = (img s)(p := None)"
  using assms by (simp_all add: tables_ok_def server_fds.rem_wf image_infos.rem_wf server_fds.lookup_rem
      image_infos.lookup_rem)

lemma release_cases:
  assumes "tables_ok s" "p \<noteq> 0"
  obtains (none) "cch s p = None" "release_process_fd_cache p s = s"
    | (some) c T where "cch s p = Some c" "table_wf MAX_PROC_FDS T" "bound_at T = (cch s)(p := None)"
        "release_process_fd_cache p s = s\<lparr>proc_fd_caches := T, caches := (caches s)(c := None),
            opened := fold (close_entry (the (caches s c)))
              (List.product [0..<FD_CACHE_ENTRIES] [0..<FD_CACHE_BLOCK_SIZE]) (opened s)\<rparr>"
proof -
  from assms have wf: "table_wf MAX_PROC_FDS (proc_fd_caches s)" by (simp add: tables_ok_def)
  obtain r T where r: "unregister_cache p (proc_fd_caches s) = (r, T)" by fastforce
  with unregister_cache_map [OF wf assms(2)] have
    "cch s p = r" "table_wf MAX_PROC_FDS T" "bound_at T = (cch s)(p := None)" by simp_all
  with r none some show ?thesis
    by (cases r) (simp_all add: release_process_fd_cache_def del: upt_Suc upt_rec_numeral)
qed

lemma spawn_prepare_cases:
  assumes inv: "spawn_inv s" and fresh: "unused_answers a s"
  obtains (failed) st t where "spawn_prepare a parent s = Inl (st, t)" "st \<noteq> STATUS_SUCCESS" "restored s t"
    | (ok) t where "spawn_prepare a parent s = Inr t" "spawned a parent s t"
proof (cases "a_dup a = -1 \<or> a_peb a = 0 \<or> a_info a = 0")
  case True
  have "opened s (a_dup a) = None" if "a_dup a \<noteq> -1" using fresh that by (simp add: unused_answers_def fresh_fd_def)
  moreover have "pebs s (a_peb a) = None" if "a_peb a \<noteq> 0" using fresh that by (simp add: unused_answers_def unmapped_def)
  ultimately have "\<exists>st. spawn_prepare a parent s = Inl (st, s) \<and> st \<noteq> STATUS_SUCCESS"
    using True by (auto simp: spawn_prepare_def Let_def open_fd_def shut_fd_def fun_upd_idem)
  with failed restored_refl spawn_invD(1) [OF inv] show ?thesis by blast
next
  case False
  with fresh have p: "a_dup a \<noteq> -1" "fresh_fd s (a_dup a)" "unmapped s (a_peb a)" "unmapped s (a_info a)"
    "a_peb a \<noteq> a_info a" "a_info a \<noteq> 0" "a_peb a \<noteq> 0"
    by (simp_all add: unused_answers_def)
  note un = unmapped_unbound [OF inv p(3)]
  let ?pebs = "(pebs s)(a_peb a := Some ((the (pebs s parent))\<lparr>pb_ProcessParameters := 0, pb_LdrData := 0\<rparr>))"
  let ?infos = "(infos s)(a_info a := Some \<lparr>ii_TransferAddress = 0\<rparr>)"
  define s2 where "s2 = s\<lparr>opened := (opened s)(a_dup a := Some (Conn (a_peb a))),
      pebs := ?pebs, infos := ?infos\<rparr>"
  define s3 where "s3 = register_child (a_peb a) (a_dup a) (a_info a) s2"
  obtain st s4 where al: "alloc_process_fd_cache (a_cache a) (a_peb a) s3 = (st, s4)" by fastforce
  have prep: "spawn_prepare a parent s = (if st \<noteq> STATUS_SUCCESS
         then Inl (st, shut_fd (a_dup a) (unmap_child (a_peb a) (a_info a) (register_child (a_peb a) (-1) 0 s4)))
         else Inr s4)"
    using False al by (simp add: spawn_prepare_def Let_def open_fd_def s3_def s2_def)
  have t2: "tables_ok s2" "srv s2 = srv s" "img s2 = img s" "cch s2 = cch s"
    using spawn_invD(1) [OF inv] by (simp_all add: tables_ok_def s2_def)
  note reg = register_new [OF t2(1), of "a_peb a" "a_dup a" "a_info a", folded s3_def]
  have s3: "tables_ok s3" "cch s3 = cch s"
    "srv s3 = (if table_room (proc_server_fds s) then (srv s)(a_peb a := Some (a_dup a)) else srv s)"
    "img s3 = (if table_room (proc_image_infos s) then (img s)(a_peb a := Some (a_info a)) else img s)"
    using reg un p t2 by (simp_all add: s2_def) (simp add: s3_def s2_def)
  have undo: "restored s (shut_fd (a_dup a) (unmap_child (a_peb a) (a_info a) (register_child (a_peb a) (-1) 0 s3)))"
    (is "restored s ?u")
  proof -
    note out = register_out [OF s3(1), of "a_peb a"]
    have "tables_ok ?u" using out(1) by (simp add: tables_ok_def)
    moreover have "srv ?u = srv s" "img ?u = img s" "cch ?u = cch s"
      using out(2,3) s3 un by (simp_all add: fun_upd_fresh fun_upd_idem)
    moreover have same: "?u = s\<lparr>proc_server_fds := proc_server_fds ?u, proc_image_infos := proc_image_infos ?u,
        proc_fd_caches := proc_fd_caches ?u\<rparr>"
      using p by (simp add: s3_def s2_def register_child_def unmap_child_def shut_fd_def unmapped_def
          fresh_fd_def fun_upd_idem)
    ultimately show ?thesis unfolding restored_def by blast
  qed
  show ?thesis
  proof (cases "a_cache a = 0")
    case True
    with al have "st = STATUS_NO_MEMORY" "s4 = s3" by (simp_all add: alloc_process_fd_cache_def)
    with prep undo failed show ?thesis by simp
  next
    case c: False
    have wf: "table_wf MAX_PROC_FDS (proc_fd_caches s3)" using s3(1) by (simp add: tables_ok_def)
    show ?thesis
    proof (rule register_cache_cases [OF wf un(4), of "a_cache a"])
      fix v
      assume "cch s3 (a_peb a) = Some v"
      with s3(2) un(3) show ?thesis by simp
    next
      assume "register_cache (a_peb a) (a_cache a) (proc_fd_caches s3) = Inl False"
      with al c have "st = STATUS_TOO_MANY_OPENED_FILES" "s4 = s3" by (simp_all add: alloc_process_fd_cache_def)
      with prep undo failed show ?thesis by simp
    next
      fix T'
      assume added: "cch s3 (a_peb a) = None" "table_room (proc_fd_caches s3)"
        "register_cache (a_peb a) (a_cache a) (proc_fd_caches s3) = Inr T'"
        "table_wf MAX_PROC_FDS T'" "bound_at T' = (cch s3)(a_peb a := Some (a_cache a))"
      with al c have s4: "st = STATUS_SUCCESS"
        "s4 = s3\<lparr>proc_fd_caches := T', caches := (caches s3)(a_cache a := Some (\<lambda>_. None))\<rparr>"
        by (simp_all add: alloc_process_fd_cache_def)
      have room: "table_room (proc_fd_caches s)" using added(2) by (simp add: s3_def s2_def)
      then have "table_room (proc_image_infos s)" using room_of [OF inv] by simp
      with s3 s4 added room p c fresh have "spawned a parent s s4"
        by (auto simp: spawned_def tables_ok_def unused_answers_def s3_def s2_def register_child_def)
      with prep s4(1) ok show ?thesis by simp
    qed
  qed
qed


lemma spawn_failed_restores:
  assumes inv: "spawn_inv s" and sp: "spawned a parent s t"
  shows "\<exists>u. spawn_failed a st t = (st, u) \<and> restored s u"
proof -
  note S = sp [unfolded spawned_def] and sel = spawned_sel [OF sp]
  have un: "srv s (a_peb a) = None" "img s (a_peb a) = None" "cch s (a_peb a) = None" "a_peb a \<noteq> 0"
    using unmapped_unbound [OF inv] S by blast+
  let ?r = "register_child (a_peb a) (-1) 0 t"
  have r: "tables_ok ?r" "srv ?r = srv s" "img ?r = img s" "cch ?r = (cch s)(a_peb a := Some (a_cache a))"
    using register_out [of t "a_peb a"] S un by (simp_all add: fun_upd_fresh fun_upd_idem)
  show ?thesis
  proof (rule release_cases [OF r(1) un(4)])
    assume "cch ?r (a_peb a) = None"
    with r(4) show ?thesis by simp
  next
    fix c T
    assume c: "cch ?r (a_peb a) = Some c" "table_wf MAX_PROC_FDS T" "bound_at T = (cch ?r)(a_peb a := None)"
      "release_process_fd_cache (a_peb a) ?r = ?r\<lparr>proc_fd_caches := T, caches := (caches ?r)(c := None),
            opened := fold (close_entry (the (caches ?r c)))
              (List.product [0..<FD_CACHE_ENTRIES] [0..<FD_CACHE_BLOCK_SIZE]) (opened ?r)\<rparr>"
    from c(1) r(4) have ca: "c = a_cache a" by simp
    have rel: "release_process_fd_cache (a_peb a) ?r =
        ?r\<lparr>proc_fd_caches := T, caches := (caches s)(a_cache a := None), opened := opened t\<rparr>"
      unfolding c(4) ca by (simp add: sel close_entries_empty del: upt_Suc upt_rec_numeral)
    let ?u = "shut_fd (a_dup a) (unmap_child (a_peb a) (a_info a) (release_process_fd_cache (a_peb a) ?r))"
    have "tables_ok ?u" using r(1) c(2) by (simp add: rel tables_ok_def)
    moreover have "srv ?u = srv s" "img ?u = img s" "cch ?u = cch s"
      using r c(3) un by (simp_all add: rel fun_upd_fresh fun_upd_idem)
    moreover have "?u = s\<lparr>proc_server_fds := proc_server_fds ?u, proc_image_infos := proc_image_infos ?u,
        proc_fd_caches := proc_fd_caches ?u\<rparr>"
      using S by (intro host_proc.equality)
        (simp_all add: rel sel unmapped_def fresh_fd_def fun_upd_idem)
    ultimately have "restored s ?u" unfolding restored_def by blast
    then show ?thesis by (auto simp: spawn_failed_def)
  qed
qed

text \<open>A spawn starts a child on its own connection, or fails and has changed nothing.\<close>

lemma spawn_cases:
  assumes inv: "spawn_inv s" and fresh: "unused_answers a s"
  obtains (failed) st t where "spawn_process_inproc a parent s = (st, t)" "st \<noteq> STATUS_SUCCESS" "restored s t"
    | (ok) t teb where "spawn_process_inproc a parent s =
          (STATUS_SUCCESS, t\<lparr>children := (children s)(teb := Some (new_child a))\<rparr>)"
        "spawned a parent s t" "children s teb = None" "a_teb a = Inr teb"
proof (rule spawn_prepare_cases [OF assms, of parent])
  fix st t
  assume "spawn_prepare a parent s = Inl (st, t)" "st \<noteq> STATUS_SUCCESS" "restored s t"
  then show ?thesis by (intro failed [of st t]) (simp_all add: spawn_process_inproc_def)
next
  fix t
  assume t: "spawn_prepare a parent s = Inr t" and sp: "spawned a parent s t"
  show ?thesis
  proof (cases "a_teb a")
    case (Inl st)
    with fresh have "st \<noteq> STATUS_SUCCESS" by (simp add: unused_answers_def)
    with spawn_failed_restores [OF inv sp, of st] t Inl failed show ?thesis
      by (auto simp: spawn_process_inproc_def)
  next
    case (Inr teb)
    with fresh have teb: "children s teb = None" by (simp add: unused_answers_def unmapped_def)
    then have same: "t\<lparr>children := (children t)(teb := None)\<rparr> = t"
      using spawned_sel(2) [OF sp] by (simp add: fun_upd_idem)
    consider "a_stack a \<noteq> STATUS_SUCCESS" | "a_stack a = STATUS_SUCCESS" "\<not> a_created a"
      | "a_stack a = STATUS_SUCCESS" "a_created a" by blast
    then show ?thesis
    proof cases
      case 1
      with spawn_failed_restores [OF inv sp, of "a_stack a"] t Inr same failed show ?thesis
        by (auto simp: spawn_process_inproc_def Let_def)
    next
      case 2
      with spawn_failed_restores [OF inv sp, of STATUS_NO_MEMORY] t Inr same failed show ?thesis
        by (auto simp: spawn_process_inproc_def Let_def)
    next
      case 3
      with t Inr have "spawn_process_inproc a parent s =
          (STATUS_SUCCESS, t\<lparr>children := (children s)(teb := Some (new_child a))\<rparr>)"
        using spawned_sel(2) [OF sp] by (simp add: spawn_process_inproc_def Let_def)
      with ok sp teb Inr show ?thesis by blast
    qed
  qed
qed


lemma spawned_inv:
  assumes inv: "spawn_inv s" and sp: "spawned a parent s t" and teb: "children s teb = None"
  shows "spawn_inv (t\<lparr>children := (children s)(teb := Some (new_child a))\<rparr>)" (is "spawn_inv ?t")
proof -
  note S = sp [unfolded spawned_def] and sel = spawned_sel [OF sp]
  have p: "unmapped s (a_peb a)" "unmapped s (a_info a)" "unmapped s (a_cache a)" "a_dup a \<noteq> -1"
    using S by (auto simp: fresh_fd_def)
  note un = unmapped_unbound [OF inv p(1)]
  note I = spawn_invD [OF inv]
  have cd: "child_ok s c" if "children s u = Some c" for u c
    using I(4) that by (auto simp: children_ok_def)
  have other: "c_peb c \<noteq> a_peb a" if "children s u = Some c" for u c
    using cd [OF that] p(1) by (auto simp: child_ok_def unmapped_def)
  have main: "a_info a \<noteq> main_image_info s" using I(2) p(2) by (auto simp: primary_ok_def unmapped_def)
  have tab: "tables_ok ?t" using S by (simp add: tables_ok_def)
  have v: "srv ?t = (if table_room (proc_server_fds s) then (srv s)(a_peb a := Some (a_dup a)) else srv s)"
    "img ?t = (img s)(a_peb a := Some (a_info a))" "cch ?t = (cch s)(a_peb a := Some (a_cache a))"
    using S by simp_all
  have prim: "primary_ok ?t"
    using I(2) v un p(1) sel by (auto simp: primary_ok_def unmapped_def)
  have ne: "i \<noteq> a_info a" if "img s k = Some i" for k i
    using I(3) p(2) that unfolding entries_ok_def unmapped_def by metis
  have nc: "c \<noteq> a_cache a" if "cch s k = Some c" for k c
    using I(3) p(3) that unfolding entries_ok_def unmapped_def by metis
  have entries: "entries_ok ?t"
    unfolding entries_ok_def
  proof (intro conjI)
    show "dom (img ?t) = dom (cch ?t)" "dom (srv ?t) \<subseteq> insert (primary ?t) (dom (cch ?t))"
      "dom (cch ?t) \<subseteq> dom (pebs ?t)"
      using I(3) unfolding v by (auto simp: entries_ok_def sel split: if_splits)
    show "\<forall>k i. img ?t k = Some i \<longrightarrow> infos ?t i \<noteq> None \<and> i \<noteq> main_image_info ?t"
      using I(3) main unfolding v by (auto simp: entries_ok_def sel)
    show "\<forall>k c. cch ?t k = Some c \<longrightarrow> caches ?t c \<noteq> None"
      using I(3) unfolding v by (auto simp: entries_ok_def sel)
    show "\<forall>k l i. img ?t k = Some i \<longrightarrow> img ?t l = Some i \<longrightarrow> k = l"
      using I(3) ne unfolding v by (auto simp: entries_ok_def)
    show "\<forall>k l c. cch ?t k = Some c \<longrightarrow> cch ?t l = Some c \<longrightarrow> k = l"
      using I(3) nc unfolding v by (auto simp: entries_ok_def)
  qed
  have "child_ok ?t (new_child a)"
    using un p(4) unfolding child_ok_def v by (simp add: new_child_def sel)
  moreover have "child_ok ?t c" if "children s u = Some c" for u c
    using cd [OF that] other [OF that] unfolding child_ok_def v by (simp add: sel)
  moreover have "c_peb (new_child a) = a_peb a" by (simp add: new_child_def)
  ultimately have "children_ok ?t"
    using I(4) other other [symmetric] unfolding children_ok_def
    by (auto split: if_splits)
  with tab prim entries show ?thesis by (simp add: spawn_inv_def)
qed

section \<open>The other steps\<close>

lemma at_pcD: "at_pc teb P s = Some c \<Longrightarrow> children s teb = Some c \<and> P (c_pc c)"
  by (auto simp: at_pc_def split: option.splits if_splits)

lemma at_pcD': "at_pc teb P s \<noteq> None \<Longrightarrow> \<exists>c. children s teb = Some c \<and> P (c_pc c)"
  using at_pcD by blast

lemma builds_cases:
  assumes "spawn_step s (Builds teb su) t"
  obtains c st params base entry n where "children s teb = Some c" "c_pc c = Attached n"
    "t = child_build st params base entry teb c s"
proof -
  from assms obtain c n where c: "at_pc teb ((=) (Attached n)) s = Some c"
    and t: "t = child_build (build_startup_info n su) (su_params su) (su_base su) (su_entry su) teb c s" by auto
  from at_pcD [OF c] have "children s teb = Some c" "c_pc c = Attached n" by simp_all
  with t that show ?thesis by blast
qed

lemma caller_ok:
  assumes inv: "spawn_inv s" and c: "caller who s = Some p"
  shows "p \<noteq> 0" "pebs s p \<noteq> None" "cch s p = None \<longleftrightarrow> p = primary s"
proof -
  note I = spawn_invD [OF inv]
  have "pebs s p \<noteq> None \<and> (cch s p = None \<longleftrightarrow> p = primary s)"
  proof (cases who)
    case None
    with c I(2) show ?thesis by (simp add: primary_ok_def)
  next
    case (Some teb)
    with c obtain d where "children s teb = Some d" "c_pc d \<noteq> Gone" "p = c_peb d"
      by (auto split: option.splits if_splits)
    with I(4) show ?thesis by (fastforce simp: children_ok_def child_ok_def)
  qed
  then show "pebs s p \<noteq> None" "cch s p = None \<longleftrightarrow> p = primary s" by simp_all
  then show "p \<noteq> 0" using I(2) by (auto simp: primary_ok_def)
qed

lemma table_find_bound: "p \<noteq> 0 \<Longrightarrow> table_find T p = bound_at T p"
  by (simp add: bound_at_def)

lemma put_cache_view:
  assumes inv: "spawn_inv s" and c: "caller who s = Some p"
  shows "same_view s (put_fd_cache p d s)"
proof -
  note I = spawn_invD [OF inv] and p = caller_ok [OF assms]
  have "dom (caches (put_fd_cache p d s)) = dom (caches s)"
    using I(3) p(1) by (force simp: put_fd_cache_def table_find_bound entries_ok_def split: option.split)
  with I(1) show ?thesis by (simp add: same_view_def tables_ok_def)
qed


definition pipe_fds :: "child \<Rightarrow> int list" where
  "pipe_fds c = filter ((\<noteq>) (-1)) [c_request_fd c, c_reply_fd c, fst (c_wait_fd c), snd (c_wait_fd c)]"

lemma detach_view:
  assumes inv: "spawn_inv s" and c: "children s teb = Some c" "c_pc c = Detaching"
  obtains b where "c_peb c \<noteq> primary s" "c_peb c \<noteq> 0" "cch s (c_peb c) = Some b" "tables_ok (child_detach teb c s)"
    "srv (child_detach teb c s) = (srv s)(c_peb c := None)" "img (child_detach teb c s) = (img s)(c_peb c := None)"
    "cch (child_detach teb c s) = (cch s)(c_peb c := None)"
    "caches (child_detach teb c s) = (caches s)(b := None)" "pebs (child_detach teb c s) = pebs s"
    "infos (child_detach teb c s) = infos s" "primary (child_detach teb c s) = primary s"
    "fd_socket (child_detach teb c s) = fd_socket s" "main_image_info (child_detach teb c s) = main_image_info s"
    "primary_fd_cache (child_detach teb c s) = primary_fd_cache s"
    "children (child_detach teb c s) = (children s)(teb := Some (c\<lparr>c_pc := Gone\<rparr>))"
    "\<And>fd. opened (child_detach teb c s) fd =
       (if fd \<noteq> -1 \<and> fd = current_server_fd (fd_socket s) (proc_server_fds s) (c_peb c) \<or>
          (\<exists>k \<in> set (List.product [0..<FD_CACHE_ENTRIES] [0..<FD_CACHE_BLOCK_SIZE]).
             cache_holds (the (caches s b)) k fd) \<or> fd \<in> set (pipe_fds c) then None else opened s fd)"
proof -
  note I = spawn_invD [OF inv]
  let ?p = "c_peb c" and ?t = "child_detach teb c s"
  let ?ks = "List.product [0..<FD_CACHE_ENTRIES] [0..<FD_CACHE_BLOCK_SIZE]"
  have ok: "child_ok s c" using I(4) c by (auto simp: children_ok_def)
  with c(2) have p: "?p \<noteq> primary s" "pebs s ?p \<noteq> None" "cch s ?p \<noteq> None" by (auto simp: child_ok_def)
  with I(2) have p0: "?p \<noteq> 0" by (auto simp: primary_ok_def)
  define s1 where "s1 = close_unless_none (snd (c_wait_fd c)) (close_unless_none (fst (c_wait_fd c))
      (close_unless_none (c_reply_fd c) (close_unless_none (c_request_fd c) s)))"
  define s2 where "s2 = register_child ?p (-1) 0 s1"
  have s1: "tables_ok s1" "srv s1 = srv s" "img s1 = img s"
    using I(1) by (simp_all add: s1_def tables_ok_def)
  have op1: "opened s1 fd = (if fd \<in> set (pipe_fds c) then None else opened s fd)" for fd
    by (auto simp: s1_def pipe_fds_def close_unless_none_def)
  note out = register_out [OF s1(1), of ?p, folded s2_def]
  have s2: "srv s2 = (srv s)(?p := None)" "img s2 = (img s)(?p := None)" "proc_fd_caches s2 = proc_fd_caches s"
    "caches s2 = caches s" "opened s2 = opened s1" "children s2 = children s" "pebs s2 = pebs s"
    "infos s2 = infos s" "primary s2 = primary s" "fd_socket s2 = fd_socket s"
    "main_image_info s2 = main_image_info s" "primary_fd_cache s2 = primary_fd_cache s"
    using out s1 by (simp_all add: s2_def) (simp_all add: s1_def)
  obtain b T where b: "cch s ?p = Some b" "table_wf MAX_PROC_FDS T" "bound_at T = (cch s)(?p := None)"
      "release_process_fd_cache ?p s2 = s2\<lparr>proc_fd_caches := T, caches := (caches s2)(b := None),
            opened := fold (close_entry (the (caches s2 b))) ?ks (opened s2)\<rparr>"
    by (rule release_cases [OF out(1) p0]) (use p(3) s2(3) in auto)
  have tdef: "?t = upd_child teb (\<lambda>c. c\<lparr>c_pc := Gone\<rparr>)
      (close_unless_none (current_server_fd (fd_socket s) (proc_server_fds s) ?p)
        (s2\<lparr>proc_fd_caches := T, caches := (caches s2)(b := None),
            opened := fold (close_entry (the (caches s2 b))) ?ks (opened s2)\<rparr>))"
    using b(4) by (simp add: child_detach_def Let_def s2_def s1_def del: upt_Suc upt_rec_numeral)
  show ?thesis
  proof (rule that [OF p(1) p0 b(1)])
    show "tables_ok ?t" using out(1) b(2) unfolding tdef by (simp add: tables_ok_def)
    show "opened ?t fd = (if fd \<noteq> -1 \<and> fd = current_server_fd (fd_socket s) (proc_server_fds s) ?p \<or>
          (\<exists>k \<in> set ?ks. cache_holds (the (caches s b)) k fd) \<or> fd \<in> set (pipe_fds c) then None else opened s fd)" for fd
      unfolding tdef
      by (simp add: close_unless_none_def close_entries_eq s2 op1 del: upt_Suc upt_rec_numeral set_product)
  qed (use s2 b c(1) in \<open>simp_all add: tdef del: upt_Suc upt_rec_numeral\<close>)
qed

lemma detach_inv:
  assumes inv: "spawn_inv s" and c: "children s teb = Some c" "c_pc c = Detaching"
  shows "spawn_inv (child_detach teb c s)" (is "spawn_inv ?t")
proof (rule detach_view [OF assms])
  let ?p = "c_peb c"
  note I = spawn_invD [OF inv]
  have ok: "child_ok s c" using I(4) c by (auto simp: children_ok_def)
  fix b
  assume p: "?p \<noteq> primary s" "cch s ?p = Some b" and tab: "tables_ok ?t"
    and v: "srv ?t = (srv s)(?p := None)" "img ?t = (img s)(?p := None)" "cch ?t = (cch s)(?p := None)"
      "caches ?t = (caches s)(b := None)" "pebs ?t = pebs s" "infos ?t = infos s" "primary ?t = primary s"
      "fd_socket ?t = fd_socket s" "main_image_info ?t = main_image_info s"
      "children ?t = (children s)(teb := Some (c\<lparr>c_pc := Gone\<rparr>))"
  have prim: "primary_ok ?t" using I(2) p(1) by (simp add: primary_ok_def v)
  have keep: "d \<noteq> b" if "cch s k = Some d" "k \<noteq> ?p" for k d
    using I(3) p(2) that unfolding entries_ok_def by metis
  have entries: "entries_ok ?t"
    unfolding entries_ok_def
  proof (intro conjI)
    show "dom (img ?t) = dom (cch ?t)" "dom (srv ?t) \<subseteq> insert (primary ?t) (dom (cch ?t))"
      "dom (cch ?t) \<subseteq> dom (pebs ?t)"
      using I(3) unfolding v entries_ok_def by auto
    show "\<forall>k i. img ?t k = Some i \<longrightarrow> infos ?t i \<noteq> None \<and> i \<noteq> main_image_info ?t"
      "\<forall>k l i. img ?t k = Some i \<longrightarrow> img ?t l = Some i \<longrightarrow> k = l"
      "\<forall>k l c. cch ?t k = Some c \<longrightarrow> cch ?t l = Some c \<longrightarrow> k = l"
      using I(3) unfolding v entries_ok_def by simp_all
    show "\<forall>k c. cch ?t k = Some c \<longrightarrow> caches ?t c \<noteq> None"
      using I(3) keep unfolding v entries_ok_def by simp
  qed
  have "child_ok ?t (c\<lparr>c_pc := Gone\<rparr>)" using ok unfolding child_ok_def v by simp
  moreover have "child_ok ?t d" if "children s u = Some d" "u \<noteq> teb" for u d
  proof -
    have "child_ok s d" "c_peb d \<noteq> ?p" using I(4) c(1) that by (auto simp: children_ok_def)
    then show ?thesis unfolding child_ok_def v by simp
  qed
  ultimately have "children_ok ?t"
    using I(4) c(1) unfolding children_ok_def v by (auto split: if_splits)
  with tab prim entries show ?thesis by (simp add: spawn_inv_def)
qed

text \<open>The handshake of a child.\<close>

lemma attach_view:
  assumes tab: "tables_ok s" and c: "children s teb = Some c"
  obtains c' where "same_view s (child_attach r teb c s)"
    "children (child_attach r teb c s) = (children s)(teb := Some c')" "c_peb c' = c_peb c" "c_conn c' = c_conn c"
    "c_rode c' = Some (current_server_fd (fd_socket s) (proc_server_fds s) (c_peb c))"
    "c_pc c' = Detaching \<or> c_pc c' = Attached (r_info_size r)"
    "c_pc c' \<noteq> Detaching \<Longrightarrow> r_fd r \<noteq> -1 \<and> r_version_ok r \<and> r_status r = STATUS_SUCCESS \<and> c_ids c' = r_ids r"
    "c_request_fd c' = r_fd r"
    "r_fd r \<noteq> -1 \<and> r_version_ok r \<Longrightarrow> c_reply_fd c' = r_reply_fd r \<and> c_wait_fd c' = r_wait_fd r"
    "\<not> (r_fd r \<noteq> -1 \<and> r_version_ok r) \<Longrightarrow> c_reply_fd c' = c_reply_fd c \<and> c_wait_fd c' = c_wait_fd c"
    "opened (child_attach r teb c s) = (if r_fd r = -1 then opened s
      else if \<not> r_version_ok r then (opened s)(r_fd r := Some (Pipe (c_peb c) 0))
      else (opened s)(r_fd r := Some (Pipe (c_peb c) 0), r_reply_fd r := Some (Pipe (c_peb c) 1),
        fst (r_wait_fd r) := Some (Pipe (c_peb c) 2), snd (r_wait_fd r) := Some (Pipe (c_peb c) 3)))"
    "proc_fd_caches (child_attach r teb c s) = proc_fd_caches s" "caches (child_attach r teb c s) = caches s"
    "primary_fd_cache (child_attach r teb c s) = primary_fd_cache s"
    "proc_server_fds (child_attach r teb c s) = proc_server_fds s"
proof -
  let ?conn = "current_server_fd (fd_socket s) (proc_server_fds s) (c_peb c)"
  let ?got = "r_fd r \<noteq> -1 \<and> r_version_ok r"
  let ?good = "?got \<and> r_status r = STATUS_SUCCESS"
  let ?t = "child_attach r teb c s"
  define d where "d = c\<lparr>c_request_fd := r_fd r, c_rode := Some ?conn,
      c_reply_fd := if ?got then r_reply_fd r else c_reply_fd c,
      c_wait_fd := if ?got then r_wait_fd r else c_wait_fd c,
      c_ids := if ?good then r_ids r else c_ids c,
      c_pc := if ?good then Attached (r_info_size r) else Detaching\<rparr>"
  note defs = child_attach_def server_init_process_inproc_def Let_def
  have ch: "children ?t = (children s)(teb := Some d)" using c by (auto simp: defs d_def)
  have rest: "proc_fd_caches ?t = proc_fd_caches s" "caches ?t = caches s" "primary_fd_cache ?t = primary_fd_cache s"
    "proc_server_fds ?t = proc_server_fds s" "proc_image_infos ?t = proc_image_infos s"
    "primary ?t = primary s" "fd_socket ?t = fd_socket s" "main_image_info ?t = main_image_info s"
    "infos ?t = infos s" "dom (pebs ?t) = dom (pebs s)"
    by (auto simp: defs split: if_splits)
  have op: "opened ?t = (if r_fd r = -1 then opened s
      else if \<not> r_version_ok r then (opened s)(r_fd r := Some (Pipe (c_peb c) 0))
      else (opened s)(r_fd r := Some (Pipe (c_peb c) 0), r_reply_fd r := Some (Pipe (c_peb c) 1),
        fst (r_wait_fd r) := Some (Pipe (c_peb c) 2), snd (r_wait_fd r) := Some (Pipe (c_peb c) 3)))"
    by (auto simp: defs)
  show ?thesis
  proof (rule that [OF _ ch])
    show "same_view s ?t" using tab by (simp add: same_view_def tables_ok_def rest)
    show "c_pc d = Detaching \<or> c_pc d = Attached (r_info_size r)" by (simp add: d_def)
    show "opened ?t = (if r_fd r = -1 then opened s
      else if \<not> r_version_ok r then (opened s)(r_fd r := Some (Pipe (c_peb c) 0))
      else (opened s)(r_fd r := Some (Pipe (c_peb c) 0), r_reply_fd r := Some (Pipe (c_peb c) 1),
        fst (r_wait_fd r) := Some (Pipe (c_peb c) 2), snd (r_wait_fd r) := Some (Pipe (c_peb c) 3)))"
      by (rule op)
  qed (auto simp: d_def rest split: if_splits)
qed

lemma cache_add_cases:
  assumes "cache_add p mem k ent s = Some (ok, t)"
  obtains (not_added) "\<not> ok" "t = s"
    | (added) d where "ok" "add_fd_to_cache mem (table_find (proc_fd_caches s) p = None) k ent (current_fd_cache p s) = Some (True, d)"
      "t = put_fd_cache p d (if ce_type ent = FD_TYPE_INVALID then s else open_fd (ce_fd ent) (Cached p (fst k) (snd k)) s)"
  using assms by (auto simp: cache_add_def split: option.splits prod.splits bool.splits)

lemma put_close_view:
  assumes "same_view s u" "same_but_fds u t"
  shows "same_view s t"
proof -
  note e = same_but_fds_sel [OF assms(2)]
  show ?thesis using assms(1) unfolding same_view_def tables_ok_def e .
qed

lemma caller_open [simp]: "caller who (open_fd fd h s) = caller who s"
  by (cases who) simp_all

lemma same_view_open: "tables_ok s \<Longrightarrow> same_view s (open_fd fd h s)"
  by (simp add: same_view_def tables_ok_def)

lemma cache_step_view:
  assumes inv: "spawn_inv s" and c: "caller who s = Some p"
  shows "cache_add p mem k ent s = Some (ok, t) \<Longrightarrow> same_view s t \<and> children t = children s"
    "same_view s (cache_remove p k s) \<and> children (cache_remove p k s) = children s"
proof -
  assume "cache_add p mem k ent s = Some (ok, t)"
  then show "same_view s t \<and> children t = children s"
  proof (rule cache_add_cases)
    show "t = s \<Longrightarrow> ?thesis" using spawn_invD(1) [OF inv] by (simp add: same_view_def)
  next
    fix d
    let ?u = "if ce_type ent = FD_TYPE_INVALID then s else open_fd (ce_fd ent) (Cached p (fst k) (snd k)) s"
    assume t: "t = put_fd_cache p d ?u"
    have "same_but_fds (put_fd_cache p d s) (put_fd_cache p d ?u)"
      by (simp add: same_but_fds_def put_fd_cache_def open_fd_def split: option.split)
    with put_close_view [OF put_cache_view [OF assms]] t show ?thesis by simp
  qed
next
  obtain fd d where "remove_fd_from_cache k (current_fd_cache p s) = (fd, d)" by fastforce
  then show "same_view s (cache_remove p k s) \<and> children (cache_remove p k s) = children s"
    using put_close_view [OF put_cache_view [OF assms, of d] same_but_fds_simps(3)] by (simp add: cache_remove_def)
qed

lemma same_view_refl: "tables_ok s \<Longrightarrow> same_view s s"
  by (simp add: same_view_def)

lemma pc_move:
  assumes "spawn_inv s" "children s teb = Some c" "c_pc c \<noteq> Gone" "n \<noteq> Gone"
  shows "spawn_inv (upd_child teb (\<lambda>c. c\<lparr>c_pc := n\<rparr>) s)"
  using assms by (intro child_move [OF assms(1) _ assms(2), of _ "c\<lparr>c_pc := n\<rparr>"])
    (simp_all add: same_view_def spawn_inv_def tables_ok_def)

lemma exit_inv:
  assumes "spawn_inv s" "children s teb = Some c" "c_pc c \<noteq> Gone"
  shows "child_exit e status teb s = Some t \<Longrightarrow> spawn_inv t"
  using assms by (intro child_move [OF assms(1) _ assms(2), of _ "c\<lparr>c_pc := Exited\<rparr>"])
    (auto simp: same_view_def spawn_inv_def tables_ok_def child_exit_def process_exit_wrapper_def split: if_splits)

lemma build_inv:
  assumes inv: "spawn_inv s" and c: "children s teb = Some c" "c_pc c \<noteq> Gone"
  shows "spawn_inv (child_build st params base entry teb c s)"
proof (cases "st = STATUS_SUCCESS")
  case False
  with pc_move [OF assms, of Detaching] show ?thesis by (simp add: child_build_def)
next
  case True
  with c show ?thesis
    by (intro child_move [OF inv _ c(1), of _ "c\<lparr>c_pc := Built\<rparr>"])
      (use spawn_invD(1) [OF inv] in \<open>auto simp: same_view_def tables_ok_def child_build_def Let_def split: if_splits\<close>)
qed

lemma spawn_step_inv: "spawn_step s a t \<Longrightarrow> spawn_inv s \<Longrightarrow> spawn_inv t"
proof (cases a)
  case (Spawns who b)
  assume st: "spawn_step s a t" and inv: "spawn_inv s"
  with Spawns obtain p where f: "unused_answers b s" "t = snd (spawn_process_inproc b p s)" by auto
  show ?thesis
    by (rule spawn_cases [OF inv f(1), of p])
      (use f(2) restored_inv [OF inv] spawned_inv [OF inv] in auto)
next
  case (Attaches teb r)
  assume st: "spawn_step s a t" and inv: "spawn_inv s"
  with Attaches obtain c where c: "children s teb = Some c" "c_pc c = Starting" "t = child_attach r teb c s"
    by (auto dest: at_pcD)
  show ?thesis
    by (rule attach_view [OF spawn_invD(1) [OF inv] c(1), of r])
      (use c child_move [OF inv _ c(1)] in auto)
next
  case (Builds teb su)
  assume "spawn_step s a t" "spawn_inv s"
  with Builds have "spawn_step s (Builds teb su) t" by simp
  then show ?thesis by (rule builds_cases) (use build_inv [OF \<open>spawn_inv s\<close>] in simp)
next
  case (Finishes teb st')
  assume "spawn_step s a t" "spawn_inv s"
  with Finishes pc_move show ?thesis by (auto simp: child_done_def dest!: at_pcD)
next
  case (Enters teb en)
  assume "spawn_step s a t" "spawn_inv s"
  with Enters pc_move show ?thesis by (auto simp: child_enter_def dest!: at_pcD)
next
  case (Detaches teb)
  assume "spawn_step s a t" "spawn_inv s"
  with Detaches detach_inv show ?thesis by (auto dest!: at_pcD)
next
  case (Exits teb e status)
  assume "spawn_step s a t" "spawn_inv s"
  with Exits exit_inv show ?thesis by (auto dest!: at_pcD)
next
  case (Caches who mem k ent)
  assume "spawn_step s a t" "spawn_inv s"
  with Caches obtain p ok where "spawn_inv s" "caller who s = Some p" "cache_add p mem k ent s = Some (ok, t)"
    by auto
  with cache_step_view(1) [OF this(1,2)] same_view_inv show ?thesis by blast
next
  case (Looks_up who k r)
  assume "spawn_step s a t" "spawn_inv s"
  with Looks_up show ?thesis by auto
next
  case (Uncaches who k)
  assume "spawn_step s a t" "spawn_inv s"
  with Uncaches obtain p where "spawn_inv s" "caller who s = Some p" "t = cache_remove p k s" by auto
  with cache_step_view(2) [OF this(1,2)] same_view_inv show ?thesis by blast
qed

lemma start_spawn_inv: "spawn_start s \<Longrightarrow> spawn_inv s"
proof -
  assume "spawn_start s"
  then obtain p fd main where s: "p \<noteq> 0" "fd \<noteq> -1" "main \<noteq> 0" "s = first_process p fd main"
    by (auto simp: spawn_start_def)
  have room: "table_room (empty_table MAX_PROC_FDS (0::int))" by (simp add: table_room_def empty_table_def)
  with s have "srv s = (\<lambda>_. None)(p := Some fd)" "table_wf MAX_PROC_FDS (proc_server_fds s)"
    by (simp_all add: first_process_def server_fds.lookup_add server_fds.add_wf)
  with s show ?thesis
    by (simp add: spawn_inv_def tables_ok_def primary_ok_def entries_ok_def children_ok_def first_process_def)
qed

interpretation spawns: machine spawn_start spawn_step spawn_inv
  by unfold_locales (use start_spawn_inv spawn_step_inv in blast)+

end
