(* ===== verification/InprocFds.thy ===== *)
theory InprocFds
  imports InprocInv
begin

text \<open>
  The descriptors of the host process, in the runs the tables are made for: a spawn finds room
  in \<^verbatim>\<open>proc_server_fds\<close>, and no program ends its process. Every open descriptor is
  held by one process, in one place.
\<close>

definition roomy_step :: "host_proc \<Rightarrow> spawn_act \<Rightarrow> host_proc \<Rightarrow> bool" where
  "roomy_step s a t \<longleftrightarrow> spawn_step s a t \<and>
     (case a of Spawns _ _ \<Rightarrow> table_room (proc_server_fds s) | Exits _ _ _ \<Rightarrow> False | _ \<Rightarrow> True)"

lemma roomy_run: "execution roomy_step s ls t \<Longrightarrow> execution spawn_step s ls t"
  by (induction rule: execution.induct) (auto simp: roomy_step_def intro: execution.intros)

section \<open>Who holds what\<close>

definition cache_of :: "host_proc \<Rightarrow> ptr \<Rightarrow> fd_cache_proc" where
  "cache_of s p = (if p = primary s then primary_fd_cache s
     else case cch s p of None \<Rightarrow> (\<lambda>_. None) | Some a \<Rightarrow> the (caches s a))"

lemma cache_of_caller:
  assumes "spawn_inv s" "caller who s = Some p"
  shows "current_fd_cache p s = cache_of s p"
  using caller_ok [OF assms] by (auto simp: current_fd_cache_def cache_of_def table_find_bound split: option.split)

definition pipe_end :: "child \<Rightarrow> nat \<Rightarrow> int" where
  "pipe_end c n = (if n = 0 then c_request_fd c else if n = 1 then c_reply_fd c
     else if n = 2 then fst (c_wait_fd c) else if n = 3 then snd (c_wait_fd c) else -1)"

fun holds :: "host_proc \<Rightarrow> holder \<Rightarrow> int \<Rightarrow> bool" where
  "holds s (Conn p) fd \<longleftrightarrow> srv s p = Some fd"
| "holds s (Pipe p n) fd \<longleftrightarrow> fd \<noteq> -1 \<and>
     (\<exists>teb c. children s teb = Some c \<and> c_peb c = p \<and> c_pc c \<noteq> Gone \<and> pipe_end c n = fd)"
| "holds s (Cached p e i) fd \<longleftrightarrow> cache_holds (cache_of s p) (e, i) fd"

definition fds_ok :: "host_proc \<Rightarrow> bool" where
  "fds_ok s \<longleftrightarrow> (\<forall>fd h. opened s fd = Some h \<longleftrightarrow> holds s h fd) \<and> opened s (-1) = None \<and>
     (\<forall>p k fd. cache_holds (cache_of s p) k fd \<longrightarrow> fst k < FD_CACHE_ENTRIES \<and> snd k < FD_CACHE_BLOCK_SIZE)"

definition conn_ok :: "host_proc \<Rightarrow> child \<Rightarrow> bool" where
  "conn_ok s c \<longleftrightarrow> c_pc c \<noteq> Gone \<longrightarrow> srv s (c_peb c) = Some (c_conn c) \<and>
     (if c_pc c = Starting then c_rode c = None \<and> (\<forall>n. pipe_end c n = -1) else c_rode c = Some (c_conn c))"

definition own_inv :: "host_proc \<Rightarrow> bool" where
  "own_inv s \<longleftrightarrow> spawn_inv s \<and> fds_ok s \<and> (\<forall>teb c. children s teb = Some c \<longrightarrow> conn_ok s c)"

lemma own_invD:
  assumes "own_inv s"
  shows "spawn_inv s" "fds_ok s" "children s teb = Some c \<Longrightarrow> conn_ok s c"
  using assms by (simp_all add: own_inv_def)

lemma opened_holds: "fds_ok s \<Longrightarrow> opened s fd = Some h \<longleftrightarrow> holds s h fd"
  by (simp add: fds_ok_def)

lemma held_bounds:
  "fds_ok s \<Longrightarrow> cache_holds (cache_of s p) k fd \<Longrightarrow> fst k < FD_CACHE_ENTRIES \<and> snd k < FD_CACHE_BLOCK_SIZE"
  unfolding fds_ok_def by blast

lemma fresh_unheld: "fds_ok s \<Longrightarrow> fresh_fd s fd \<Longrightarrow> \<not> holds s h fd"
  by (metis fresh_fd_def opened_holds option.distinct(1))

text \<open>A state whose descriptors are those of another, but for some that are opened or closed.\<close>

lemma fds_okI:
  assumes "\<And>fd h. opened t fd = Some h \<longleftrightarrow> holds t h fd" "opened t (-1) = None"
    "\<And>p k fd. cache_holds (cache_of t p) k fd \<Longrightarrow> fst k < FD_CACHE_ENTRIES \<and> snd k < FD_CACHE_BLOCK_SIZE"
  shows "fds_ok t"
  using assms by (simp add: fds_ok_def)

lemma same_holds:
  assumes "srv t = srv s" "\<And>p. cache_of t p = cache_of s p"
    and "\<And>p n fd. holds t (Pipe p n) fd \<longleftrightarrow> holds s (Pipe p n) fd"
  shows "holds t h fd \<longleftrightarrow> holds s h fd"
  using assms by (cases h) simp_all

lemma same_fds_ok:
  assumes "fds_ok s" "opened t = opened s" "srv t = srv s" "\<And>p. cache_of t p = cache_of s p"
    and "\<And>p n fd. holds t (Pipe p n) fd \<longleftrightarrow> holds s (Pipe p n) fd"
  shows "fds_ok t"
  using assms same_holds [OF assms(3-5)] by (simp add: fds_ok_def)

text \<open>A child that moves on without touching a descriptor.\<close>

lemma pipe_move:
  assumes "children s teb = Some c" "children t = (children s)(teb := Some c')"
    and "c_peb c' = c_peb c" "c_pc c' \<noteq> Gone" "c_pc c \<noteq> Gone" "\<And>n. pipe_end c' n = pipe_end c n"
  shows "holds t (Pipe p n) fd \<longleftrightarrow> holds s (Pipe p n) fd"
proof
  assume "holds t (Pipe p n) fd"
  then obtain u d where "fd \<noteq> -1" "children t u = Some d" "c_peb d = p" "c_pc d \<noteq> Gone" "pipe_end d n = fd" by auto
  with assms show "holds s (Pipe p n) fd" by (cases "u = teb") auto
next
  assume "holds s (Pipe p n) fd"
  then obtain u d where d: "fd \<noteq> -1" "children s u = Some d" "c_peb d = p" "c_pc d \<noteq> Gone" "pipe_end d n = fd" by auto
  show "holds t (Pipe p n) fd"
  proof (cases "u = teb")
    case True
    with assms d have "children t teb = Some c'" "c_peb c' = p" "pipe_end c' n = fd" by auto
    with d(1) assms(4) show ?thesis by auto
  next
    case False
    with assms d have "children t u = Some d" by simp
    with d show ?thesis by auto
  qed
qed

lemma conn_move:
  assumes "children s teb = Some c" "children t = (children s)(teb := Some c')" "srv t = srv s"
    and "own_inv s" "conn_ok t c'"
  shows "children t u = Some d \<Longrightarrow> conn_ok t d"
  using assms own_invD(3) [OF assms(4)] by (auto simp: conn_ok_def split: if_splits)

lemma own_pc_move:
  assumes inv: "own_inv s" and t: "spawn_inv t" and c: "children s teb = Some c" "c_pc c \<noteq> Gone" "c_pc c \<noteq> Starting"
    and v: "opened t = opened s" "srv t = srv s" "cch t = cch s" "caches t = caches s"
      "primary t = primary s" "primary_fd_cache t = primary_fd_cache s"
    and n: "children t = (children s)(teb := Some (c\<lparr>c_pc := n\<rparr>))" "n \<noteq> Gone" "n \<noteq> Starting"
  shows "own_inv t"
proof -
  note I = own_invD [OF inv]
  have cf: "cache_of t p = cache_of s p" for p using v by (simp add: cache_of_def cong: option.case_cong)
  have pp: "holds t (Pipe p m) fd \<longleftrightarrow> holds s (Pipe p m) fd" for p m fd
    by (rule pipe_move [OF c(1) n(1)]) (simp_all add: n c pipe_end_def)
  have "conn_ok s c" using I(3) c(1) .
  then have "conn_ok t (c\<lparr>c_pc := n\<rparr>)" using c n v by (simp add: conn_ok_def)
  from conn_move [OF c(1) n(1) v(2) inv this] same_fds_ok [OF I(2) v(1,2) cf pp] t
  show ?thesis unfolding own_inv_def by blast
qed

lemma pipe_fds_end: "fd \<in> set (pipe_fds c) \<longleftrightarrow> fd \<noteq> -1 \<and> (\<exists>n. pipe_end c n = fd)"
proof
  have e: "pipe_end c 0 = c_request_fd c" "pipe_end c 1 = c_reply_fd c" "pipe_end c 2 = fst (c_wait_fd c)"
    "pipe_end c 3 = snd (c_wait_fd c)" by (simp_all add: pipe_end_def)
  assume "fd \<in> set (pipe_fds c)"
  then have "fd \<noteq> -1" "fd \<in> {c_request_fd c, c_reply_fd c, fst (c_wait_fd c), snd (c_wait_fd c)}"
    unfolding pipe_fds_def set_filter by auto
  with e show "fd \<noteq> -1 \<and> (\<exists>n. pipe_end c n = fd)" by (metis empty_iff insert_iff)
next
  assume "fd \<noteq> -1 \<and> (\<exists>n. pipe_end c n = fd)"
  then show "fd \<in> set (pipe_fds c)" by (auto simp: pipe_fds_def pipe_end_def split: if_splits)
qed

section \<open>The steps\<close>

lemma own_restored:
  assumes inv: "own_inv s" and r: "restored s t"
  shows "own_inv t"
proof -
  note I = own_invD [OF inv]
  note e = restored_sel [OF r]
  have v: "srv t = srv s" "cch t = cch s" using r by (simp_all add: restored_def)
  have "fds_ok t"
    by (rule same_fds_ok [OF I(2) e(5) v(1)]) (simp_all add: cache_of_def e v cong: option.case_cong)
  moreover have "conn_ok t c" if "children t u = Some c" for u c
    using I(3) that by (simp add: conn_ok_def e v)
  ultimately show ?thesis using restored_inv [OF I(1) r] by (simp add: own_inv_def)
qed

lemma spawned_cache_of:
  assumes inv: "spawn_inv s" and sp: "spawned a parent s t"
  shows "cache_of (t\<lparr>children := f\<rparr>) q = cache_of s q"
proof -
  note S = sp [unfolded spawned_def] and sel = spawned_sel [OF sp]
  have un: "unmapped s (a_peb a)" "unmapped s (a_cache a)" "cch t = (cch s)(a_peb a := Some (a_cache a))"
    using S by auto
  note p = unmapped_unbound [OF inv un(1)]
  have "c \<noteq> a_cache a" if "cch s k = Some c" for k c
    using spawn_invD(3) [OF inv] un(2) that unfolding entries_ok_def unmapped_def by metis
  with p un(3) show ?thesis
    by (cases "q = a_peb a") (auto simp: cache_of_def sel split: option.split)
qed

lemma own_spawned:
  assumes inv: "own_inv s" and sp: "spawned a parent s t" and teb: "children s teb = None"
    and room: "table_room (proc_server_fds s)"
  shows "own_inv (t\<lparr>children := (children s)(teb := Some (new_child a))\<rparr>)" (is "own_inv ?t")
proof -
  note I = own_invD [OF inv]
  note S = sp [unfolded spawned_def] and sel = spawned_sel [OF sp]
  note H = spawn_invD [OF I(1)]
  have un: "unmapped s (a_peb a)" "unmapped s (a_cache a)" "fresh_fd s (a_dup a)" using S by auto
  note p = unmapped_unbound [OF I(1) un(1)]
  have v: "srv ?t = (srv s)(a_peb a := Some (a_dup a))" "cch ?t = (cch s)(a_peb a := Some (a_cache a))"
    "opened ?t = (opened s)(a_dup a := Some (Conn (a_peb a)))"
    "children ?t = (children s)(teb := Some (new_child a))"
    using S room sel by simp_all
  note cf = spawned_cache_of [OF I(1) sp, of "(children s)(teb := Some (new_child a))"]
  have pp: "holds ?t (Pipe q n) fd \<longleftrightarrow> holds s (Pipe q n) fd" for q n fd
  proof -
    have "pipe_end (new_child a) n = -1" by (simp add: pipe_end_def new_child_def)
    with teb show ?thesis unfolding holds.simps v by (metis fun_upd_apply option.distinct(1) option.inject)
  qed
  have h: "holds ?t h fd \<longleftrightarrow> holds s h fd \<or> h = Conn (a_peb a) \<and> fd = a_dup a" for h fd
  proof (cases h)
    case (Conn q)
    with p(1) show ?thesis using v(1) by auto
  next
    case (Pipe q n)
    with pp [of q n fd] show ?thesis by (simp del: holds.simps)
  next
    case (Cached q e i)
    with cf [of q] show ?thesis by simp
  qed
  have "fds_ok ?t"
  proof (rule fds_okI)
    fix fd hh
    show "opened ?t fd = Some hh \<longleftrightarrow> holds ?t hh fd"
      unfolding h v(3) using opened_holds [OF I(2), of fd hh] fresh_unheld [OF I(2) un(3), of hh] by auto
    show "opened ?t (-1) = None" unfolding v using I(2) un(3) by (simp add: fds_ok_def fresh_fd_def)
    show "\<And>p k fd. cache_holds (cache_of ?t p) k fd \<Longrightarrow> fst k < FD_CACHE_ENTRIES \<and> snd k < FD_CACHE_BLOCK_SIZE"
      unfolding cf using I(2) unfolding fds_ok_def by blast
  qed
  moreover have "conn_ok ?t c" if "children ?t u = Some c" for u c
  proof (cases "u = teb")
    case True
    with that v(4) have "c = new_child a" by simp
    then show ?thesis unfolding conn_ok_def v by (simp add: new_child_def pipe_end_def)
  next
    case False
    with that v(4) have c: "children s u = Some c" by simp
    then have "pebs s (c_peb c) \<noteq> None" using H(4) by (auto simp: children_ok_def child_ok_def)
    then have "c_peb c \<noteq> a_peb a" using un(1) by (auto simp: unmapped_def)
    with I(3) [OF c] show ?thesis unfolding conn_ok_def v by simp
  qed
  ultimately show ?thesis using spawned_inv [OF I(1) sp teb] unfolding own_inv_def by blast
qed


lemma detach_closes:
  assumes inv: "own_inv s" and c: "children s teb = Some c" "c_pc c = Detaching"
  shows "opened (child_detach teb c s) fd =
    (case opened s fd of None \<Rightarrow> None | Some h \<Rightarrow> if held_by h = c_peb c then None else Some h)"
proof (rule detach_view [OF own_invD(1) [OF inv] c])
  let ?p = "c_peb c" and ?t = "child_detach teb c s"
  let ?ks = "List.product [0..<FD_CACHE_ENTRIES] [0..<FD_CACHE_BLOCK_SIZE]"
  note I = own_invD [OF inv]
  note H = spawn_invD [OF I(1)]
  fix b
  assume p: "?p \<noteq> primary s" "?p \<noteq> 0" and b: "cch s ?p = Some b"
    and op: "\<And>fd. opened ?t fd = (if fd \<noteq> -1 \<and> fd = current_server_fd (fd_socket s) (proc_server_fds s) ?p \<or>
        (\<exists>k \<in> set ?ks. cache_holds (the (caches s b)) k fd) \<or> fd \<in> set (pipe_fds c) then None else opened s fd)"
  have "child_ok s c" using H(4) c by (auto simp: children_ok_def)
  then have conn: "srv s ?p = Some (c_conn c)" "c_conn c \<noteq> -1"
    using I(3) [OF c(1)] c(2) by (simp_all add: conn_ok_def child_ok_def)
  then have sock: "current_server_fd (fd_socket s) (proc_server_fds s) ?p = c_conn c"
    using p(2) by (simp add: current_server_fd_def table_find_bound)
  have mine: "cache_of s ?p = the (caches s b)" using p(1) b by (simp add: cache_of_def)
  have cl: "(\<exists>k \<in> set ?ks. cache_holds (the (caches s b)) k fd) \<longleftrightarrow> (\<exists>e i. opened s fd = Some (Cached ?p e i))"
  proof -
    have "cache_holds (the (caches s b)) k fd \<longleftrightarrow> opened s fd = Some (Cached ?p (fst k) (snd k))" for k
      using opened_holds [OF I(2), of fd "Cached ?p (fst k) (snd k)"] mine by simp
    moreover have "(e, i) \<in> set ?ks" if "cache_holds (the (caches s b)) (e, i) fd" for e i
    proof -
      have "fst (e, i) < FD_CACHE_ENTRIES \<and> snd (e, i) < FD_CACHE_BLOCK_SIZE"
        using held_bounds [OF I(2)] that mine by metis
      then show ?thesis by (simp del: upt_Suc upt_rec_numeral)
    qed
    ultimately show ?thesis by (metis fst_conv snd_conv)
  qed
  have pf: "fd \<in> set (pipe_fds c) \<longleftrightarrow> (\<exists>n. opened s fd = Some (Pipe ?p n))"
  proof
    assume "fd \<in> set (pipe_fds c)"
    then obtain n where "pipe_end c n = fd" "fd \<noteq> -1" by (auto simp: pipe_fds_end)
    with c have "holds s (Pipe ?p n) fd" by (auto intro!: exI [of _ teb] exI [of _ c])
    with opened_holds [OF I(2)] show "\<exists>n. opened s fd = Some (Pipe ?p n)" by blast
  next
    assume "\<exists>n. opened s fd = Some (Pipe ?p n)"
    then obtain n where "holds s (Pipe ?p n) fd" using opened_holds [OF I(2)] by blast
    then obtain u d where d: "fd \<noteq> -1" "children s u = Some d" "c_peb d = ?p" "pipe_end d n = fd" by auto
    have "u = teb" using H(4) c(1) d(2,3) unfolding children_ok_def by blast
    with c(1) d(2) have "d = c" by simp
    with d show "fd \<in> set (pipe_fds c)" by (auto simp: pipe_fds_end)
  qed
  have cn: "fd \<noteq> -1 \<and> fd = c_conn c \<longleftrightarrow> opened s fd = Some (Conn ?p)"
    using opened_holds [OF I(2), of fd "Conn ?p"] conn by auto
  show ?thesis
    unfolding op sock cl pf cn by (cases "opened s fd"; cases "the (opened s fd)") auto
qed

lemma detach_cache_of:
  assumes inv: "spawn_inv s" and c: "children s teb = Some c" "c_pc c = Detaching"
  shows "cache_of (child_detach teb c s) k = (if k = c_peb c then (\<lambda>_. None) else cache_of s k)"
proof (rule detach_view [OF assms])
  let ?p = "c_peb c" and ?t = "child_detach teb c s"
  fix b
  assume p: "?p \<noteq> primary s" "cch s ?p = Some b" and v: "cch ?t = (cch s)(?p := None)"
    "caches ?t = (caches s)(b := None)" "primary ?t = primary s" "primary_fd_cache ?t = primary_fd_cache s"
  have "d \<noteq> b" if "cch s j = Some d" "j \<noteq> ?p" for j d
    using spawn_invD(3) [OF inv] p(2) that unfolding entries_ok_def by metis
  then show ?thesis using p by (auto simp: cache_of_def v split: option.split)
qed

lemma own_detach:
  assumes inv: "own_inv s" and c: "children s teb = Some c" "c_pc c = Detaching"
  shows "own_inv (child_detach teb c s)" (is "own_inv ?t")
proof -
  let ?p = "c_peb c"
  note I = own_invD [OF inv] and D = detach_closes [OF assms]
  have D': "srv ?t = (srv s)(?p := None)" "children ?t = (children s)(teb := Some (c\<lparr>c_pc := Gone\<rparr>))"
    by (rule detach_view [OF I(1) c], assumption)+
  have only: "u = teb" if "children s u = Some d" "c_peb d = ?p" for u d
    using spawn_invD(4) [OF I(1)] c(1) that by (auto simp: children_ok_def)
  have h: "holds ?t h fd \<longleftrightarrow> holds s h fd \<and> held_by h \<noteq> ?p" for h fd
  proof (cases h)
    case (Conn q)
    with D'(1) show ?thesis by simp
  next
    case (Pipe q n)
    have "holds ?t (Pipe q n) fd" if "holds s (Pipe q n) fd" "q \<noteq> ?p"
    proof -
      from that obtain u d where d: "fd \<noteq> -1" "children s u = Some d" "c_peb d = q" "c_pc d \<noteq> Gone" "pipe_end d n = fd"
        by auto
      with that(2) c(1) have "u \<noteq> teb" by auto
      with d D'(2) have "children ?t u = Some d" by simp
      with d show ?thesis by auto
    qed
    moreover have "holds s (Pipe q n) fd \<and> q \<noteq> ?p" if "holds ?t (Pipe q n) fd"
    proof -
      from that obtain u d where d: "fd \<noteq> -1" "children ?t u = Some d" "c_peb d = q" "c_pc d \<noteq> Gone" "pipe_end d n = fd"
        by auto
      then have "u \<noteq> teb" using D'(2) by auto
      with d D'(2) only show ?thesis by auto
    qed
    ultimately show ?thesis using Pipe by fastforce
  next
    case (Cached q e i)
    then show ?thesis by (simp add: detach_cache_of [OF I(1) c] cache_holds_def)
  qed
  have "fds_ok ?t"
  proof (rule fds_okI)
    show "opened ?t fd = Some hh \<longleftrightarrow> holds ?t hh fd" for fd hh
      unfolding h D opened_holds [OF I(2), symmetric] by (auto split: option.split)
    show "opened ?t (-1) = None" using D I(2) by (simp add: fds_ok_def)
    show "fst k < FD_CACHE_ENTRIES \<and> snd k < FD_CACHE_BLOCK_SIZE" if "cache_holds (cache_of ?t q) k fd" for q k fd
      using that held_bounds [OF I(2)] by (cases "q = ?p") (simp_all add: detach_cache_of [OF I(1) c] cache_holds_def [of "\<lambda>_. None"])
  qed
  moreover have "conn_ok ?t d" if "children ?t u = Some d" for u d
  proof (cases "u = teb")
    case True
    with that D'(2) show ?thesis by (auto simp: conn_ok_def)
  next
    case False
    with that D'(2) only have d: "children s u = Some d" "c_peb d \<noteq> ?p" by auto
    with I(3) [OF d(1)] show ?thesis unfolding conn_ok_def D'(1) by simp
  qed
  ultimately show ?thesis using detach_inv [OF I(1) c] unfolding own_inv_def by blast
qed

lemma four_opened:
  assumes "distinct [a, b, c, d]" "\<forall>x \<in> {a, b, c, d}. f x = None"
  shows "(f(a := Some p, b := Some q, c := Some r, d := Some s)) x = Some h \<longleftrightarrow>
    f x = Some h \<or> h = p \<and> x = a \<or> h = q \<and> x = b \<or> h = r \<and> x = c \<or> h = s \<and> x = d"
  using assms by auto

text \<open>A child that had no pipes gets its ends: who holds what then.\<close>

lemma attach_holds:
  assumes A: "same_view s t" "children t = (children s)(teb \<mapsto> c')" "c_peb c' = c_peb c" "c_pc c' \<noteq> Gone"
    and c: "children s teb = Some c" and none: "\<And>n. pipe_end c n = -1" and cf: "\<And>q. cache_of t q = cache_of s q"
  shows "holds t hh fd \<longleftrightarrow> holds s hh fd \<or> (\<exists>n. hh = Pipe (c_peb c) n \<and> pipe_end c' n = fd \<and> fd \<noteq> -1)"
proof (cases hh)
  case (Conn q)
  with A(1) show ?thesis by (simp add: same_view_def)
next
  case (Cached q e i)
  with cf show ?thesis by simp
next
  case (Pipe q n)
  have "(\<exists>u d. children t u = Some d \<and> c_peb d = q \<and> c_pc d \<noteq> Gone \<and> pipe_end d n = fd) \<longleftrightarrow>
      (\<exists>u d. children s u = Some d \<and> c_peb d = q \<and> c_pc d \<noteq> Gone \<and> pipe_end d n = fd) \<or>
      q = c_peb c \<and> pipe_end c' n = fd" if "fd \<noteq> -1"
  proof
    assume "\<exists>u d. children t u = Some d \<and> c_peb d = q \<and> c_pc d \<noteq> Gone \<and> pipe_end d n = fd"
    then obtain u d where d: "children t u = Some d" "c_peb d = q" "c_pc d \<noteq> Gone" "pipe_end d n = fd" by auto
    then show "(\<exists>u d. children s u = Some d \<and> c_peb d = q \<and> c_pc d \<noteq> Gone \<and> pipe_end d n = fd) \<or>
      q = c_peb c \<and> pipe_end c' n = fd" using A(2,3) by (cases "u = teb") auto
  next
    assume "(\<exists>u d. children s u = Some d \<and> c_peb d = q \<and> c_pc d \<noteq> Gone \<and> pipe_end d n = fd) \<or>
      q = c_peb c \<and> pipe_end c' n = fd"
    then show "\<exists>u d. children t u = Some d \<and> c_peb d = q \<and> c_pc d \<noteq> Gone \<and> pipe_end d n = fd"
    proof
      assume "q = c_peb c \<and> pipe_end c' n = fd"
      then show ?thesis using A(2-4) by (intro exI [of _ teb] exI [of _ c']) auto
    next
      assume "\<exists>u d. children s u = Some d \<and> c_peb d = q \<and> c_pc d \<noteq> Gone \<and> pipe_end d n = fd"
      then obtain u d where d: "children s u = Some d" "c_peb d = q" "c_pc d \<noteq> Gone" "pipe_end d n = fd" by auto
      with none that c have "u \<noteq> teb" by auto
      with d A(2) show ?thesis by (intro exI [of _ u] exI [of _ d]) simp
    qed
  qed
  with Pipe show ?thesis by auto
qed

text \<open>What the handshake opened are the ends of the child's pipes.\<close>

definition attached_ends :: "attach_answers \<Rightarrow> child \<Rightarrow> bool" where
  "attached_ends r c \<longleftrightarrow> (\<forall>n. pipe_end c n =
     (if r_fd r = -1 then -1 else if \<not> r_version_ok r then (if n = 0 then r_fd r else -1)
      else if n = 0 then r_fd r else if n = 1 then r_reply_fd r else if n = 2 then fst (r_wait_fd r)
      else if n = 3 then snd (r_wait_fd r) else -1))"

lemma attach_opened:
  assumes r: "r_fd r = -1 \<or> distinct [r_fd r, r_reply_fd r, fst (r_wait_fd r), snd (r_wait_fd r)] \<and>
       (\<forall>fd \<in> {r_fd r, r_reply_fd r, fst (r_wait_fd r), snd (r_wait_fd r)}. fresh_fd s fd)"
    and att: "attached_ends r c'"
    and op: "opened t = (if r_fd r = -1 then opened s
      else if \<not> r_version_ok r then (opened s)(r_fd r := Some (Pipe p 0))
      else (opened s)(r_fd r := Some (Pipe p 0), r_reply_fd r := Some (Pipe p 1),
        fst (r_wait_fd r) := Some (Pipe p 2), snd (r_wait_fd r) := Some (Pipe p 3)))"
  shows "opened t fd = Some hh \<longleftrightarrow> opened s fd = Some hh \<or> (\<exists>n. hh = Pipe p n \<and> pipe_end c' n = fd \<and> fd \<noteq> -1)"
proof -
  note ends = att [unfolded attached_ends_def, rule_format]
  show ?thesis
  proof (cases "r_fd r = -1")
    case True
    then show ?thesis unfolding op ends by auto
  next
    case got: False
    with r have fresh: "opened s (r_fd r) = None" "r_fd r \<noteq> -1" by (auto simp: fresh_fd_def)
    show ?thesis
    proof (cases "r_version_ok r")
      case False
      with got fresh show ?thesis unfolding op ends by (auto split: if_splits)
    next
      case True
      have n: "(\<exists>n. hh = Pipe p n \<and> pipe_end c' n = fd \<and> fd \<noteq> -1) \<longleftrightarrow>
          (\<exists>n<4. hh = Pipe p n \<and> pipe_end c' n = fd \<and> fd \<noteq> -1)"
        unfolding ends using got True by (auto split: if_splits)
      have four: "(\<exists>n<4. P n) \<longleftrightarrow> P 0 \<or> P 1 \<or> P 2 \<or> P (3::nat)" for P
        by (auto simp: less_Suc_eq numeral_eq_Suc)
      from got r have f: "\<forall>fd \<in> {r_fd r, r_reply_fd r, fst (r_wait_fd r), snd (r_wait_fd r)}. opened s fd = None"
        and m: "r_fd r \<noteq> -1" "r_reply_fd r \<noteq> -1" "fst (r_wait_fd r) \<noteq> -1" "snd (r_wait_fd r) \<noteq> -1" and d: "distinct [r_fd r, r_reply_fd r, fst (r_wait_fd r), snd (r_wait_fd r)]"
        by (auto simp: fresh_fd_def)
      have "opened t fd = Some hh \<longleftrightarrow> opened s fd = Some hh \<or> hh = Pipe p 0 \<and> fd = r_fd r \<or>
          hh = Pipe p 1 \<and> fd = r_reply_fd r \<or> hh = Pipe p 2 \<and> fd = fst (r_wait_fd r) \<or>
          hh = Pipe p 3 \<and> fd = snd (r_wait_fd r)"
        using got True unfolding op by (simp only: four_opened [OF d f] if_False simp_thms)
      also have "\<dots> \<longleftrightarrow> opened s fd = Some hh \<or> (\<exists>n<4. hh = Pipe p n \<and> pipe_end c' n = fd \<and> fd \<noteq> -1)"
        using got True m unfolding four ends by (simp add: eq_commute [of fd]) blast
      finally show ?thesis unfolding n .
    qed
  qed
qed

lemma own_attach:
  assumes inv: "own_inv s" and c: "children s teb = Some c" "c_pc c = Starting"
    and r: "r_fd r = -1 \<or> distinct [r_fd r, r_reply_fd r, fst (r_wait_fd r), snd (r_wait_fd r)] \<and>
       (\<forall>fd \<in> {r_fd r, r_reply_fd r, fst (r_wait_fd r), snd (r_wait_fd r)}. fresh_fd s fd)"
    and hinv: "spawn_inv (child_attach r teb c s)"
  shows "own_inv (child_attach r teb c s)" (is "own_inv ?t")
proof (rule attach_view [OF spawn_invD(1) [OF own_invD(1) [OF inv]] c(1), of r])
  fix c'
  assume A: "same_view s ?t" "children ?t = (children s)(teb \<mapsto> c')" "c_peb c' = c_peb c" "c_conn c' = c_conn c"
    "c_rode c' = Some (current_server_fd (fd_socket s) (proc_server_fds s) (c_peb c))"
    "c_pc c' = Detaching \<or> c_pc c' = Attached (r_info_size r)"
    "c_request_fd c' = r_fd r"
    "r_fd r \<noteq> -1 \<and> r_version_ok r \<Longrightarrow> c_reply_fd c' = r_reply_fd r \<and> c_wait_fd c' = r_wait_fd r"
    "\<not> (r_fd r \<noteq> -1 \<and> r_version_ok r) \<Longrightarrow> c_reply_fd c' = c_reply_fd c \<and> c_wait_fd c' = c_wait_fd c"
    "opened ?t = (if r_fd r = -1 then opened s
      else if \<not> r_version_ok r then (opened s)(r_fd r := Some (Pipe (c_peb c) 0))
      else (opened s)(r_fd r := Some (Pipe (c_peb c) 0), r_reply_fd r := Some (Pipe (c_peb c) 1),
        fst (r_wait_fd r) := Some (Pipe (c_peb c) 2), snd (r_wait_fd r) := Some (Pipe (c_peb c) 3)))"
    and rest: "proc_fd_caches ?t = proc_fd_caches s" "caches ?t = caches s" "primary_fd_cache ?t = primary_fd_cache s"
    "proc_server_fds ?t = proc_server_fds s"
  let ?p = "c_peb c"
  note I = own_invD [OF inv]
  note H = spawn_invD [OF I(1)]
  have prim: "primary ?t = primary s" using A(1) by (simp add: same_view_def)
  have cf: "cache_of ?t p = cache_of s p" for p
    using rest prim by (simp add: cache_of_def cong: option.case_cong)
  have st: "srv s ?p = Some (c_conn c)" "pipe_end c n = -1" for n
    using I(3) [OF c(1)] c(2) by (simp_all add: conn_ok_def)
  have cc: "c_reply_fd c = -1" "fst (c_wait_fd c) = -1" "snd (c_wait_fd c) = -1"
    using st(2) [of 1] st(2) [of 2] st(2) [of 3] by (simp_all add: pipe_end_def)
  have p0: "?p \<noteq> 0" using st(1) by (metis bound_at_zero option.distinct(1))
  have att: "attached_ends r c'"
    using A(7,8,9) cc by (auto simp: pipe_end_def attached_ends_def)
  note op = attach_opened [OF r att A(10)]
  have h: "holds ?t hh fd \<longleftrightarrow> holds s hh fd \<or> (\<exists>n. hh = Pipe ?p n \<and> pipe_end c' n = fd \<and> fd \<noteq> -1)" for hh fd
    by (rule attach_holds [OF A(1-3) _ c(1) st(2) cf]) (use A(6) in auto)
  have "fds_ok ?t"
  proof (rule fds_okI)
    show "opened ?t fd = Some hh \<longleftrightarrow> holds ?t hh fd" for fd hh
      unfolding h op opened_holds [OF I(2)] ..
    show "opened ?t (-1) = None" using op [of "-1"] I(2) by (cases "opened ?t (-1)") (auto simp: fds_ok_def)
    show "fst k < FD_CACHE_ENTRIES \<and> snd k < FD_CACHE_BLOCK_SIZE" if "cache_holds (cache_of ?t q) k fd" for q k fd
      using that I(2) unfolding cf fds_ok_def by blast
  qed
  moreover have "conn_ok ?t d" if "children ?t u = Some d" for u d
  proof (rule conn_move [OF c(1) A(2) _ inv _ that])
    show sv: "srv ?t = srv s" using A(1) by (simp add: same_view_def)
    have "current_server_fd (fd_socket s) (proc_server_fds s) ?p = c_conn c"
      using st(1) p0 by (simp add: current_server_fd_def table_find_bound)
    then show "conn_ok ?t c'" using A(3-6) st(1) unfolding conn_ok_def sv by auto
  qed
  ultimately show ?thesis using hinv unfolding own_inv_def by blast
qed


section \<open>The handle caches\<close>

text \<open>A cache as a map from positions to entries.\<close>

definition cache_slot :: "fd_cache_proc \<Rightarrow> nat \<times> nat \<Rightarrow> fd_cache_entry option" where
  "cache_slot c k = (case c (fst k) of None \<Rightarrow> None | Some b \<Rightarrow> b (snd k))"

lemma holds_slot:
  "cache_holds c k fd \<longleftrightarrow> (\<exists>ent. cache_slot c k = Some ent \<and> ce_type ent \<noteq> FD_TYPE_INVALID \<and> ce_fd ent = fd)"
  by (auto simp: cache_holds_def cache_slot_def split: option.splits)

lemma get_slot: "get_cached_fd k c = (if fst k < FD_CACHE_ENTRIES then
    case cache_slot c k of None \<Rightarrow> Inl STATUS_INVALID_HANDLE | Some ent \<Rightarrow> Inr ent else Inl STATUS_INVALID_HANDLE)"
  by (auto simp: get_cached_fd_def cache_slot_def split: option.split)

lemma cache_block_slot: "cache_block mem pr e c = Some d \<Longrightarrow> cache_slot d = cache_slot c \<and> d e \<noteq> None"
proof -
  assume a: "cache_block mem pr e c = Some d"
  then have "d = c \<and> c e \<noteq> None \<or> d = c(e := Some (\<lambda>_. None)) \<and> c e = None"
    by (auto simp: cache_block_def split: option.splits if_splits)
  then show ?thesis by (auto simp: cache_slot_def fun_eq_iff)
qed

lemma add_slot:
  assumes "add_fd_to_cache mem pr k ent c = Some (True, d)"
  shows "fst k < FD_CACHE_ENTRIES" "cache_slot c k = None" "cache_slot d = (cache_slot c)(k := Some ent)"
proof -
  show "fst k < FD_CACHE_ENTRIES" using assms by (auto simp: add_fd_to_cache_def split: if_splits)
  with assms obtain b where b: "cache_block mem pr (fst k) c = Some b" "the (b (fst k)) (snd k) = None"
    "d = b(fst k := Some ((the (b (fst k)))(snd k := Some ent)))"
    by (auto simp: add_fd_to_cache_def Let_def split: option.splits if_splits)
  obtain m where m: "b (fst k) = Some m" using cache_block_slot [OF b(1)] by auto
  then show "cache_slot c k = None" using b(2) cache_block_slot [OF b(1)] by (metis option.sel option.simps(5) cache_slot_def)
  have "cache_slot d = (cache_slot b)(k := Some ent)"
    using b(3) m by (auto simp: cache_slot_def fun_eq_iff prod_eq_iff)
  then show "cache_slot d = (cache_slot c)(k := Some ent)" using cache_block_slot [OF b(1)] by simp
qed

lemma remove_slot:
  "remove_fd_from_cache k c = (if fst k < FD_CACHE_ENTRIES then
     (case cache_slot c k of None \<Rightarrow> -1 | Some ent \<Rightarrow> if ce_type ent \<noteq> FD_TYPE_INVALID then ce_fd ent else -1,
      snd (remove_fd_from_cache k c)) else (-1, c))"
  "fst k < FD_CACHE_ENTRIES \<Longrightarrow> cache_slot (snd (remove_fd_from_cache k c)) = (cache_slot c)(k := None)"
  by (auto simp: remove_fd_from_cache_def cache_slot_def fun_eq_iff prod_eq_iff split: option.split)

lemma cache_of_put:
  assumes inv: "spawn_inv s" and c: "caller who s = Some p"
  shows "cache_of (put_fd_cache p d s) q = (if q = p then d else cache_of s q)"
proof (cases "p = primary s")
  case True
  with caller_ok [OF assms] have "table_find (proc_fd_caches s) p = None"
    using table_find_bound by metis
  then show ?thesis using True by (auto simp: put_fd_cache_def cache_of_def cong: option.case_cong)
next
  case False
  with caller_ok [OF assms] obtain a where a: "cch s p = Some a" "table_find (proc_fd_caches s) p = Some a"
    using table_find_bound by (metis option.exhaust)
  have "k = p" if "cch s k = Some a" for k
    using spawn_invD(3) [OF inv] a(1) that unfolding entries_ok_def by blast
  then have ne: "b \<noteq> a" if "cch s q = Some b" "q \<noteq> p" for b using that by blast
  have put: "put_fd_cache p d s = s\<lparr>caches := (caches s)(a := Some d)\<rparr>" using a(2) by (simp add: put_fd_cache_def)
  show ?thesis
  proof (cases "q = p")
    case True
    with False a(1) show ?thesis unfolding put by (simp add: cache_of_def)
  next
    case q: False
    with ne show ?thesis unfolding put by (cases "cch s q") (simp_all add: cache_of_def)
  qed
qed

lemma cache_of_opened [simp]: "cache_of (s\<lparr>opened := f\<rparr>) p = cache_of s p"
  by (simp add: cache_of_def cong: option.case_cong)

lemma cache_of_fd [simp]:
  "cache_of (open_fd fd h s) p = cache_of s p" "cache_of (shut_fd fd s) p = cache_of s p"
  "cache_of (close_unless_none fd s) p = cache_of s p"
  by (simp_all add: open_fd_def shut_fd_def close_unless_none_def)

lemma conn_same:
  assumes "own_inv s" "srv t = srv s" "children t = children s" "children t u = Some c"
  shows "conn_ok t c"
  using own_invD(3) [OF assms(1), of u c] assms(2-4) by (simp add: conn_ok_def)

text \<open>One entry of one cache and its descriptor come or go.\<close>

lemma own_cache_move:
  assumes inv: "own_inv s" and t: "spawn_inv t" "srv t = srv s" "children t = children s"
    and c: "\<And>q. cache_slot (cache_of t q) = (if q = p then (cache_slot (cache_of s p))(k := e) else cache_slot (cache_of s q))"
    and k: "fst k < FD_CACHE_ENTRIES" "snd k < FD_CACHE_BLOCK_SIZE"
    and op: "\<And>fd h. opened t fd = Some h \<longleftrightarrow> (if h = Cached p (fst k) (snd k)
        then \<exists>ent. e = Some ent \<and> ce_type ent \<noteq> FD_TYPE_INVALID \<and> ce_fd ent = fd else opened s fd = Some h)"
      "opened t (-1) = None"
  shows "own_inv t"
proof -
  note I = own_invD [OF inv]
  have h: "holds t h fd \<longleftrightarrow> (if h = Cached p (fst k) (snd k)
      then \<exists>ent. e = Some ent \<and> ce_type ent \<noteq> FD_TYPE_INVALID \<and> ce_fd ent = fd else holds s h fd)" for h fd
    using t(2,3) by (cases h) (simp_all add: holds_slot c prod_eq_iff)
  have "fds_ok t"
  proof (rule fds_okI)
    show "opened t fd = Some hh \<longleftrightarrow> holds t hh fd" for fd hh
      unfolding op(1) h using opened_holds [OF I(2)] by simp
    show "opened t (-1) = None" by (fact op(2))
    show "fst j < FD_CACHE_ENTRIES \<and> snd j < FD_CACHE_BLOCK_SIZE" if "cache_holds (cache_of t q) j fd" for q j fd
    proof (cases "q = p \<and> j = k")
      case True
      with k show ?thesis by simp
    next
      case False
      with that have "cache_holds (cache_of s q) j fd" by (auto simp: holds_slot c split: if_splits)
      with held_bounds [OF I(2)] show ?thesis by blast
    qed
  qed
  with conn_same [OF inv t(2,3)] t(1) show ?thesis unfolding own_inv_def by blast
qed

lemma own_cache_add:
  assumes inv: "own_inv s" and c: "caller who s = Some p" and add: "cache_add p mem k ent s = Some (ok, t)"
    and k: "snd k < FD_CACHE_BLOCK_SIZE" and fresh: "ce_type ent = FD_TYPE_INVALID \<or> fresh_fd s (ce_fd ent)"
    and t: "spawn_inv t"
  shows "own_inv t"
proof (rule cache_add_cases [OF add])
  show "t = s \<Longrightarrow> own_inv t" using inv by simp
next
  note I = own_invD [OF inv]
  let ?u = "if ce_type ent = FD_TYPE_INVALID then s else open_fd (ce_fd ent) (Cached p (fst k) (snd k)) s"
  fix d
  assume d: "add_fd_to_cache mem (table_find (proc_fd_caches s) p = None) k ent (current_fd_cache p s) = Some (True, d)"
    and tdef: "t = put_fd_cache p d ?u"
  note a = add_slot [OF d, unfolded cache_of_caller [OF I(1) c]]
  have u: "spawn_inv ?u" "caller who ?u = Some p"
    using same_view_inv [OF I(1) same_view_open [OF spawn_invD(1) [OF I(1)]]] I(1) c by simp_all
  have co: "cache_of t q = (if q = p then d else cache_of s q)" for q
    unfolding tdef cache_of_put [OF u] by simp
  have free: "\<not> opened s fd = Some (Cached p (fst k) (snd k))" for fd
    using opened_holds [OF I(2), of fd "Cached p (fst k) (snd k)"] a(2) by (simp add: holds_slot)
  show "own_inv t"
  proof (rule own_cache_move [OF inv t, of p k "Some ent"])
    show "srv t = srv s" "children t = children s" by (simp_all add: tdef)
    show "cache_slot (cache_of t q) = (if q = p then (cache_slot (cache_of s p))(k := Some ent) else cache_slot (cache_of s q))" for q
      using a(3) by (simp add: co)
    show "opened t fd = Some h \<longleftrightarrow> (if h = Cached p (fst k) (snd k)
        then \<exists>e. Some ent = Some e \<and> ce_type e \<noteq> FD_TYPE_INVALID \<and> ce_fd e = fd else opened s fd = Some h)" for fd h
      using free fresh by (auto simp: tdef fresh_fd_def)
    show "opened t (-1) = None" using I(2) fresh by (auto simp: tdef fds_ok_def fresh_fd_def)
  qed (use a(1) k in auto)
qed

lemma own_cache_remove:
  assumes inv: "own_inv s" and c: "caller who s = Some p" and k: "snd k < FD_CACHE_BLOCK_SIZE"
    and t: "spawn_inv (cache_remove p k s)"
  shows "own_inv (cache_remove p k s)" (is "own_inv ?t")
proof -
  note I = own_invD [OF inv]
  define d where "d = snd (remove_fd_from_cache k (current_fd_cache p s))"
  define fd where "fd = fst (remove_fd_from_cache k (current_fd_cache p s))"
  have tdef: "?t = close_unless_none fd (put_fd_cache p d s)"
    by (simp add: cache_remove_def fd_def d_def split: prod.split)
  have co: "cache_of ?t q = (if q = p then d else cache_of s q)" for q
    unfolding tdef by (simp add: cache_of_put [OF I(1) c])
  note r = remove_slot [of k "cache_of s p"]
  have sv: "srv ?t = srv s" "children ?t = children s" by (simp_all add: tdef)
  show ?thesis
  proof (cases "fst k < FD_CACHE_ENTRIES")
    case False
    with r(1) have e: "fd = -1" "d = cache_of s p"
      by (simp_all add: fd_def d_def cache_of_caller [OF I(1) c])
    then have "cache_of ?t q = cache_of s q" "opened ?t = opened s" for q
      by (simp_all add: co) (simp add: tdef close_unless_none_def)
    with same_fds_ok [OF I(2)] sv have "fds_ok ?t" by simp
    with conn_same [OF inv sv] t show ?thesis unfolding own_inv_def by blast
  next
    case True
    have fd: "fd = (case cache_slot (cache_of s p) k of None \<Rightarrow> -1
        | Some ent \<Rightarrow> if ce_type ent \<noteq> FD_TYPE_INVALID then ce_fd ent else -1)"
      using r(1) True unfolding fd_def cache_of_caller [OF I(1) c] by (metis fst_conv)
    have held: "opened s g = Some (Cached p (fst k) (snd k)) \<longleftrightarrow> g = fd \<and> fd \<noteq> -1" for g
    proof -
      have "opened s g = Some (Cached p (fst k) (snd k)) \<longleftrightarrow>
          (\<exists>ent. cache_slot (cache_of s p) k = Some ent \<and> ce_type ent \<noteq> FD_TYPE_INVALID \<and> ce_fd ent = g)"
        using opened_holds [OF I(2), of g "Cached p (fst k) (snd k)"] by (simp add: holds_slot)
      moreover have "g \<noteq> -1" if "opened s g = Some (Cached p (fst k) (snd k))"
        using that I(2) unfolding fds_ok_def by (metis option.distinct(1))
      ultimately show ?thesis using fd by (auto split: option.splits if_splits)
    qed
    show ?thesis
    proof (rule own_cache_move [OF inv t sv, of p k None])
      show "cache_slot (cache_of ?t q) = (if q = p then (cache_slot (cache_of s p))(k := None) else cache_slot (cache_of s q))" for q
        using r(2) True by (simp add: co d_def cache_of_caller [OF I(1) c])
      show "opened ?t g = Some h \<longleftrightarrow> (if h = Cached p (fst k) (snd k)
        then \<exists>e. None = Some e \<and> ce_type e \<noteq> FD_TYPE_INVALID \<and> ce_fd e = g else opened s g = Some h)" for g h
        using held [of g] held [of fd] by (auto simp: tdef close_unless_none_def)
      show "opened ?t (-1) = None" using I(2) by (auto simp: tdef close_unless_none_def fds_ok_def)
    qed (use True k in auto)
  qed
qed


lemma own_step: "roomy_step s a t \<Longrightarrow> own_inv s \<Longrightarrow> own_inv t"
proof (cases a)
  case (Spawns who b)
  assume "roomy_step s a t" and inv: "own_inv s"
  with Spawns obtain p where f: "unused_answers b s" "t = snd (spawn_process_inproc b p s)"
    and room: "table_room (proc_server_fds s)" by (auto simp: roomy_step_def)
  show ?thesis
    by (rule spawn_cases [OF own_invD(1) [OF inv] f(1), of p])
      (use f(2) own_restored [OF inv] own_spawned [OF inv _ _ room] in auto)
next
  case (Attaches teb r)
  assume st: "roomy_step s a t" and inv: "own_inv s"
  then have "spawn_inv t" by (auto simp: roomy_step_def intro: spawn_step_inv own_invD)
  with st Attaches own_attach [OF inv] show ?thesis by (auto simp: roomy_step_def dest!: at_pcD)
next
  case (Builds teb su)
  assume step: "roomy_step s a t" and inv: "own_inv s"
  then have h: "spawn_inv t" by (auto simp: roomy_step_def intro: spawn_step_inv own_invD)
  from step Builds have "spawn_step s (Builds teb su) t" by (simp add: roomy_step_def)
  then obtain c st params base entry n where c: "children s teb = Some c" "c_pc c = Attached n"
    "t = child_build st params base entry teb c s" by (rule builds_cases)
  then show ?thesis
    by (intro own_pc_move [OF inv h c(1), of "if st = STATUS_SUCCESS then Built else Detaching"])
      (auto simp: child_build_def Let_def split: if_splits)
next
  case (Finishes teb st)
  assume step: "roomy_step s a t" and inv: "own_inv s"
  then have h: "spawn_inv t" by (auto simp: roomy_step_def intro: spawn_step_inv own_invD)
  from step Finishes obtain c where c: "children s teb = Some c" "c_pc c = Built"
    "t = child_done st teb s" by (auto simp: roomy_step_def dest!: at_pcD)
  then show ?thesis
    by (intro own_pc_move [OF inv h c(1), of "if st = STATUS_SUCCESS then Entering else Detaching"])
      (auto simp: child_done_def)
next
  case (Enters teb en)
  assume step: "roomy_step s a t" and inv: "own_inv s"
  then have h: "spawn_inv t" by (auto simp: roomy_step_def intro: spawn_step_inv own_invD)
  from step Enters obtain c where c: "children s teb = Some c" "c_pc c = Entering"
    "t = child_enter en teb s" by (auto simp: roomy_step_def dest!: at_pcD)
  then show ?thesis
    by (intro own_pc_move [OF inv h c(1), of "if en then Running else Detaching"]) (auto simp: child_enter_def)
next
  case (Detaches teb)
  assume "roomy_step s a t" "own_inv s"
  with Detaches own_detach show ?thesis by (auto simp: roomy_step_def dest!: at_pcD)
next
  case (Exits teb e status)
  assume "roomy_step s a t"
  with Exits show ?thesis by (simp add: roomy_step_def)
next
  case (Caches who mem k ent)
  assume st: "roomy_step s a t" and inv: "own_inv s"
  then have h: "spawn_inv t" by (auto simp: roomy_step_def intro: spawn_step_inv own_invD)
  from st Caches obtain p ok where "caller who s = Some p" "cache_add p mem k ent s = Some (ok, t)"
    "snd k < FD_CACHE_BLOCK_SIZE" "ce_type ent = FD_TYPE_INVALID \<or> fresh_fd s (ce_fd ent)"
    unfolding roomy_step_def by auto
  from own_cache_add [OF inv this h] show ?thesis .
next
  case (Looks_up who k r)
  assume "roomy_step s a t" "own_inv s"
  with Looks_up show ?thesis by (auto simp: roomy_step_def)
next
  case (Uncaches who k)
  assume st: "roomy_step s a t" and inv: "own_inv s"
  then have h: "spawn_inv t" by (auto simp: roomy_step_def intro: spawn_step_inv own_invD)
  from st Uncaches obtain p where "caller who s = Some p" "snd k < FD_CACHE_BLOCK_SIZE" "t = cache_remove p k s"
    unfolding roomy_step_def by auto
  with own_cache_remove [OF inv this(1,2)] h show ?thesis by simp
qed

lemma start_own_inv: "spawn_start s \<Longrightarrow> own_inv s"
proof -
  assume h: "spawn_start s"
  then obtain p fd main where s: "p \<noteq> 0" "fd \<noteq> -1" "main \<noteq> 0" "s = first_process p fd main"
    by (auto simp: spawn_start_def)
  have room: "table_room (empty_table MAX_PROC_FDS (0::int))" by (simp add: table_room_def empty_table_def)
  with s have v: "srv s = (\<lambda>_. None)(p := Some fd)" "cch s = (\<lambda>_. None)"
    by (simp_all add: first_process_def server_fds.lookup_add)
  have "primary_fd_cache s = (\<lambda>_. None)" using s(4) by (simp add: first_process_def)
  then have co: "cache_of s q = (\<lambda>_. None)" for q by (simp add: cache_of_def v)
  have hs: "holds s h g \<longleftrightarrow> h = Conn p \<and> g = fd" for h g
    using s v co by (cases h) (auto simp: first_process_def cache_holds_def)
  have "fds_ok s"
  proof (rule fds_okI)
    show "opened s g = Some h \<longleftrightarrow> holds s h g" for g h unfolding hs using s(4) by (auto simp: first_process_def)
    show "opened s (-1) = None" using s by (simp add: first_process_def)
    show "\<And>q k g. cache_holds (cache_of s q) k g \<Longrightarrow> fst k < FD_CACHE_ENTRIES \<and> snd k < FD_CACHE_BLOCK_SIZE"
      by (simp add: co cache_holds_def)
  qed
  moreover have "children s = (\<lambda>_. None)" using s(4) by (simp add: first_process_def)
  ultimately show ?thesis using start_spawn_inv [OF h] by (simp add: own_inv_def)
qed

interpretation roomy_spawns: machine spawn_start roomy_step own_inv
  by unfold_locales (use start_own_inv own_step in blast)+

end
