(* ===== verification/InprocProps.thy ===== *)
theory InprocProps
  imports InprocFds
begin

text \<open>
  What the in-process spawn guarantees to the processes of one host, and where it does not.
\<close>

section \<open>A spawn that succeeds\<close>

definition spawn_can :: "spawn_answers \<Rightarrow> host_proc \<Rightarrow> bool" where
  "spawn_can a s \<longleftrightarrow> a_dup a \<noteq> -1 \<and> a_peb a \<noteq> 0 \<and> a_info a \<noteq> 0 \<and> a_cache a \<noteq> 0 \<and>
     table_room (proc_fd_caches s) \<and> (\<exists>teb. a_teb a = Inr teb) \<and> a_stack a = STATUS_SUCCESS \<and> a_created a"

lemma open_fd_tables [simp]: "proc_fd_caches (s\<lparr>pebs := f, infos := g\<rparr>) = proc_fd_caches s"
  by simp

lemma spawn_status:
  assumes inv: "spawn_inv s" and fresh: "unused_answers a s"
  shows "fst (spawn_process_inproc a p s) = STATUS_SUCCESS \<longleftrightarrow> spawn_can a s"
proof (cases "a_dup a = -1 \<or> a_peb a = 0 \<or> a_info a = 0 \<or> a_cache a = 0")
  case True
  then show ?thesis
    by (auto simp: spawn_process_inproc_def spawn_prepare_def alloc_process_fd_cache_def Let_def spawn_can_def)
next
  case False
  with fresh have un: "unmapped s (a_peb a)" "a_peb a \<noteq> 0" by (auto simp: unused_answers_def)
  have st: "\<And>st. a_teb a = Inl st \<Longrightarrow> st \<noteq> STATUS_SUCCESS" using fresh by (simp add: unused_answers_def)
  have wf: "table_wf MAX_PROC_FDS (proc_fd_caches s)"
    using spawn_invD(1) [OF inv] by (simp add: tables_ok_def)
  note none = unmapped_unbound(3) [OF inv un(1)]
  define s3 where "s3 = register_child (a_peb a) (a_dup a) (a_info a)
    ((open_fd (a_dup a) (Conn (a_peb a)) s)\<lparr>pebs := (pebs s)(a_peb a :=
        Some ((the (pebs s p))\<lparr>pb_ProcessParameters := 0, pb_LdrData := 0\<rparr>)),
      infos := (infos s)(a_info a := Some \<lparr>ii_TransferAddress = 0\<rparr>)\<rparr>)"
  have c3: "proc_fd_caches s3 = proc_fd_caches s" by (simp add: s3_def)
  show ?thesis
  proof (rule register_cache_cases [OF wf un(2), of "a_cache a"])
    fix v
    assume "cch s (a_peb a) = Some v"
    with none show ?thesis by simp
  next
    assume full: "\<not> table_room (proc_fd_caches s)"
      and "register_cache (a_peb a) (a_cache a) (proc_fd_caches s) = Inl False"
    then have "alloc_process_fd_cache (a_cache a) (a_peb a) s3 = (STATUS_TOO_MANY_OPENED_FILES, s3)"
      using False by (simp add: alloc_process_fd_cache_def c3)
    with False full show ?thesis
      by (simp add: spawn_process_inproc_def spawn_prepare_def Let_def spawn_can_def s3_def)
  next
    fix T
    assume room: "table_room (proc_fd_caches s)"
      and "register_cache (a_peb a) (a_cache a) (proc_fd_caches s) = Inr T"
    then have "\<exists>u. alloc_process_fd_cache (a_cache a) (a_peb a) s3 = (STATUS_SUCCESS, u)"
      using False by (simp add: alloc_process_fd_cache_def c3)
    then obtain u where "spawn_prepare a p s = Inr u"
      using False by (auto simp: spawn_prepare_def Let_def s3_def)
    with False room st show ?thesis
      by (auto simp: spawn_process_inproc_def Let_def spawn_failed_def spawn_can_def split: sum.split)
  qed
qed

lemma spawn_ok:
  assumes inv: "spawn_inv s" and fresh: "unused_answers a s" and can: "spawn_can a s"
  obtains t teb where "spawn_process_inproc a p s =
      (STATUS_SUCCESS, t\<lparr>children := (children s)(teb := Some (new_child a))\<rparr>)"
    "spawned a p s t" "children s teb = None" "a_teb a = Inr teb"
proof (rule spawn_cases [OF inv fresh, of p])
  fix st t
  assume "spawn_process_inproc a p s = (st, t)" "st \<noteq> STATUS_SUCCESS"
  with spawn_status [OF assms(1,2), of p] can show ?thesis by simp
qed (rule that)

section \<open>An example run\<close>

definition first_host :: host_proc where
  "first_host = first_process 16 3 32"

definition first_answers :: spawn_answers where
  "first_answers = \<lparr>a_dup = 4, a_peb = 64, a_info = 128, a_cache = 192, a_teb = Inr 256,
     a_stack = STATUS_SUCCESS, a_created = True\<rparr>"

definition attaching :: attach_answers where
  "attaching = \<lparr>r_fd = 5, r_version_ok = True, r_reply_fd = 6, r_wait_fd = (7, 8),
     r_status = STATUS_SUCCESS, r_ids = (32, 36), r_session = 1, r_info_size = 100\<rparr>"

lemma first_spawn_start: "spawn_start first_host"
  unfolding spawn_start_def first_host_def by (intro exI conjI; (rule refl)?; simp)

lemma first_fresh: "unused_answers first_answers first_host"
  by (simp add: unused_answers_def first_answers_def first_host_def first_process_def fresh_fd_def unmapped_def)

lemma first_room: "table_room (proc_server_fds first_host)" "table_room (proc_fd_caches first_host)"
proof -
  have wf: "table_wf MAX_PROC_FDS (proc_server_fds first_host)" "table_wf MAX_PROC_FDS (proc_fd_caches first_host)"
    using start_spawn_inv [OF first_spawn_start] by (simp_all add: spawn_inv_def tables_ok_def)
  have e: "table_room (empty_table MAX_PROC_FDS (0::int))" by (simp add: table_room_def empty_table_def)
  then have "srv first_host = (\<lambda>_. None)(16 := Some 3)" "cch first_host = (\<lambda>_. None)"
    by (simp_all add: first_host_def first_process_def server_fds.lookup_add)
  with table_room_card [OF wf(1)] table_room_card [OF wf(2)]
  show "table_room (proc_server_fds first_host)" "table_room (proc_fd_caches first_host)" by simp_all
qed

text \<open>One child, spawned by the primary process.\<close>

lemma first_spawn:
  obtains s where "execution roomy_step first_host [Spawns None first_answers] s" "own_inv s"
    "children s = (\<lambda>_. None)(256 := Some (new_child first_answers))"
    "opened s = (\<lambda>_. None)(3 := Some (Conn 16), 4 := Some (Conn 64))" "fd_socket s = 3" "primary s = 16"
    "srv s = (\<lambda>_. None)(16 := Some 3, 64 := Some 4)"
proof -
  have inv: "spawn_inv first_host" using start_spawn_inv [OF first_spawn_start] .
  have can: "spawn_can first_answers first_host"
    using first_room by (simp add: spawn_can_def first_answers_def)
  obtain t teb where t: "spawn_process_inproc first_answers 16 first_host =
      (STATUS_SUCCESS, t\<lparr>children := (children first_host)(teb := Some (new_child first_answers))\<rparr>)"
    "spawned first_answers 16 first_host t" "a_teb first_answers = Inr teb"
    by (rule spawn_ok [OF inv first_fresh can, of 16])
  let ?s = "t\<lparr>children := (children first_host)(teb := Some (new_child first_answers))\<rparr>"
  have teb: "teb = 256" using t(3) by (simp add: first_answers_def)
  have step: "roomy_step first_host (Spawns None first_answers) ?s"
    using t(1) first_fresh first_room by (simp add: roomy_step_def) (simp add: first_host_def first_process_def)
  have e: "table_room (empty_table MAX_PROC_FDS (0::int))" by (simp add: table_room_def empty_table_def)
  then have v: "srv first_host = (\<lambda>_. None)(16 := Some 3)"
    by (simp add: first_host_def first_process_def server_fds.lookup_add)
  have "srv ?s = (\<lambda>_. None)(16 := Some 3, 64 := Some 4)"
    using t(2) first_room v by (simp add: spawned_def first_answers_def)
  with that [of ?s] step own_step [OF step start_own_inv [OF first_spawn_start]] spawned_sel [OF t(2)] teb
  show ?thesis
    by (simp add: execution_Cons) (simp add: first_host_def first_process_def first_answers_def)
qed


section \<open>Each child on its own connection\<close>

text \<open>C9: a child's requests go out on the connection that was made for it: as long as
  every spawn finds room in the table of server sockets and no program ends its process, a child
  that has not detached resolves its server socket to its own duplicate, which is open, is held
  for it and is not the primary's, and its handshake went over that one.\<close>
theorem child_attaches_on_own_connection:
  assumes start: "spawn_start s" and run: "execution roomy_step s ls t"
    and c: "children t teb = Some c" "c_pc c \<noteq> Gone"
  shows "current_server_fd (fd_socket t) (proc_server_fds t) (c_peb c) = c_conn c \<and>
    opened t (c_conn c) = Some (Conn (c_peb c)) \<and> c_conn c \<noteq> fd_socket t \<and>
    (c_pc c \<noteq> Starting \<longrightarrow> c_rode c = Some (c_conn c))"
proof -
  have inv: "own_inv t" using roomy_spawns.reachable_inv [OF start run] .
  note I = own_invD [OF inv]
  note H = spawn_invD [OF I(1)]
  have k: "srv t (c_peb c) = Some (c_conn c)" "c_pc c \<noteq> Starting \<longrightarrow> c_rode c = Some (c_conn c)"
    using I(3) [OF c(1)] c(2) by (simp_all add: conn_ok_def)
  then have "c_peb c \<noteq> 0" by (metis bound_at_zero option.distinct(1))
  with k have r: "current_server_fd (fd_socket t) (proc_server_fds t) (c_peb c) = c_conn c"
    by (simp add: current_server_fd_def table_find_bound)
  have o: "opened t (c_conn c) = Some (Conn (c_peb c))" "opened t (fd_socket t) = Some (Conn (primary t))"
    using opened_holds [OF I(2)] k(1) H(2) by (simp_all add: primary_ok_def)
  have "c_peb c \<noteq> primary t" using H(4) c(1) by (auto simp: children_ok_def child_ok_def)
  with o r k(2) show ?thesis by auto
qed

theorem child_attaches_on_own_connection_witness:
  "\<exists>ls t c. execution roomy_step first_host ls t \<and> children t 256 = Some c \<and> c_rode c = Some 4 \<and>
     opened t 4 = Some (Conn 64)"
proof (rule first_spawn)
  fix s
  assume s: "execution roomy_step first_host [Spawns None first_answers] s"
    "children s = (\<lambda>_. None)(256 := Some (new_child first_answers))"
    "opened s = (\<lambda>_. None)(3 := Some (Conn 16), 4 := Some (Conn 64))"
  let ?c = "new_child first_answers"
  let ?t = "child_attach attaching 256 ?c s"
  have "roomy_step s (Attaches 256 attaching) ?t"
    using s(2,3) by (simp add: roomy_step_def at_pc_def new_child_def attaching_def fresh_fd_def)
  with execution_snoc [OF s(1)] have run: "execution roomy_step first_host
      ([Spawns None first_answers] @ [Attaches 256 attaching]) ?t" by blast
  obtain c where c: "children ?t 256 = Some c" "c_pc c = Attached 100" "c_conn c = 4" "c_peb c = 64"
    using s(2) by (simp add: child_attach_def server_init_process_inproc_def Let_def attaching_def
        new_child_def first_answers_def)
  from child_attaches_on_own_connection [OF first_spawn_start run c(1)] c run
  show ?thesis by (auto intro!: exI [of _ ?t])
qed

text \<open>C32: no two processes of the host share what belongs to one: in every run, whatever
  the tables are full of, two children that have not detached have different PEBs, image
  information and handle caches, and these are neither the primary's nor unmapped.\<close>
theorem children_share_nothing:
  assumes start: "spawn_start s" and run: "execution spawn_step s ls t"
    and c: "children t u = Some c" "c_pc c \<noteq> Gone" and d: "children t v = Some d" "c_pc d \<noteq> Gone" and ne: "u \<noteq> v"
  shows "c_peb c \<noteq> c_peb d \<and> c_peb c \<noteq> primary t \<and> pebs t (c_peb c) \<noteq> None \<and>
    current_image_info (main_image_info t) (proc_image_infos t) (c_peb c) \<noteq>
      current_image_info (main_image_info t) (proc_image_infos t) (c_peb d) \<and>
    current_image_info (main_image_info t) (proc_image_infos t) (c_peb c) \<noteq> main_image_info t \<and>
    infos t (current_image_info (main_image_info t) (proc_image_infos t) (c_peb c)) \<noteq> None \<and>
    (\<exists>a b. table_find (proc_fd_caches t) (c_peb c) = Some a \<and> table_find (proc_fd_caches t) (c_peb d) = Some b \<and>
       a \<noteq> b \<and> caches t a \<noteq> None)"
proof -
  note I = spawn_invD [OF spawns.reachable_inv [OF start run]]
  have ok: "child_ok t c" "child_ok t d" and p: "c_peb c \<noteq> c_peb d"
    using I(4) c d ne by (auto simp: children_ok_def)
  have z: "c_peb c \<noteq> 0" "c_peb d \<noteq> 0" using ok I(2) by (auto simp: child_ok_def primary_ok_def)
  obtain a b where ab: "cch t (c_peb c) = Some a" "cch t (c_peb d) = Some b"
    using ok c(2) d(2) by (auto simp: child_ok_def)
  have dom: "dom (img t) = dom (cch t)" using I(3) by (simp add: entries_ok_def)
  obtain i j where ij: "img t (c_peb c) = Some i" "img t (c_peb d) = Some j"
    using ab dom by blast
  have "i \<noteq> j" "a \<noteq> b" "infos t i \<noteq> None" "i \<noteq> main_image_info t" "caches t a \<noteq> None"
    using I(3) ab ij p unfolding entries_ok_def by blast+
  with ab ij p ok z show ?thesis
    by (simp add: current_image_info_def table_find_bound child_ok_def)
qed

section \<open>Handles\<close>

text \<open>
  What the handle caches are for: each thread that runs sees a map from handles to entries
  that only the threads of its own process change.
\<close>

type_synonym handle_space = "ptr option \<Rightarrow> (nat \<times> nat \<Rightarrow> fd_cache_entry option) option"

fun handle_step :: "handle_space \<Rightarrow> spawn_act \<Rightarrow> handle_space \<Rightarrow> bool" where
  "handle_step h (Spawns who a) h' \<longleftrightarrow> h who \<noteq> None \<and>
     (h' = h \<or> (\<exists>teb. a_teb a = Inr teb \<and> h (Some teb) = None \<and> h' = h(Some teb := Some (\<lambda>_. None))))"
| "handle_step h (Caches who mem k ent) h' \<longleftrightarrow>
     (\<exists>m. h who = Some m \<and> (h' = h \<or> m k = None \<and> h' = h(who := Some (m(k := Some ent)))))"
| "handle_step h (Looks_up who k r) h' \<longleftrightarrow>
     (\<exists>m. h who = Some m \<and> h' = h \<and>
        r = (case m k of None \<Rightarrow> Inl STATUS_INVALID_HANDLE | Some ent \<Rightarrow> Inr ent))"
| "handle_step h (Uncaches who k) h' \<longleftrightarrow> (\<exists>m. h who = Some m \<and> h' = h(who := Some (m(k := None))))"
| "handle_step h (Detaches teb) h' \<longleftrightarrow> h' = h(Some teb := None)"
| "handle_step h (Exits teb e status) h' \<longleftrightarrow> h' = h(Some teb := None)"
| "handle_step h (Attaches teb r) h' \<longleftrightarrow> h' = h"
| "handle_step h (Builds teb su) h' \<longleftrightarrow> h' = h"
| "handle_step h (Finishes teb st) h' \<longleftrightarrow> h' = h"
| "handle_step h (Enters teb en) h' \<longleftrightarrow> h' = h"


definition visible :: "fd_cache_proc \<Rightarrow> nat \<times> nat \<Rightarrow> fd_cache_entry option" where
  "visible d k = (if fst k < FD_CACHE_ENTRIES then cache_slot d k else None)"

lemma get_visible: "get_cached_fd k d = (case visible d k of None \<Rightarrow> Inl STATUS_INVALID_HANDLE | Some ent \<Rightarrow> Inr ent)"
  by (simp add: visible_def get_slot)

lemma visible_slot: "cache_slot d = cache_slot c \<Longrightarrow> visible d = visible c"
  by (simp add: visible_def fun_eq_iff)

lemma visible_upd: "fst k < FD_CACHE_ENTRIES \<Longrightarrow> cache_slot d = (cache_slot c)(k := e) \<Longrightarrow> visible d = (visible c)(k := e)"
  by (auto simp: visible_def fun_eq_iff)

lemma visible_empty [simp]: "visible (\<lambda>_. None) = (\<lambda>_. None)"
  by (simp add: visible_def cache_slot_def fun_eq_iff)

definition handles_of :: "host_proc \<Rightarrow> handle_space" where
  "handles_of s who = map_option (\<lambda>p. visible (cache_of s p)) (caller who s)"

lemma handles_same:
  assumes "\<And>who. caller who t = caller who s" "\<And>who p. caller who s = Some p \<Longrightarrow> cache_of t p = cache_of s p"
  shows "handles_of t = handles_of s"
proof
  fix who
  show "handles_of t who = handles_of s who"
    using assms by (cases "caller who s") (simp_all add: handles_of_def)
qed

lemma caller_upd:
  assumes "children t = (children s)(teb := Some c)" "primary t = primary s"
  shows "caller who t = (if who = Some teb then if c_pc c \<in> {Gone, Exited} then None else Some (c_peb c)
    else caller who s)"
  using assms by (cases who) auto

lemma caller_inj:
  assumes inv: "spawn_inv s" and "caller u s = Some p" "caller v s = Some p"
  shows "u = v"
proof -
  note I = spawn_invD [OF inv]
  have live: "\<exists>c. children s w = Some c \<and> c_peb c = p \<and> p \<noteq> primary s" if "caller (Some w) s = Some p" for w
    using that I(4) by (fastforce simp: children_ok_def child_ok_def split: option.splits if_splits)
  show ?thesis
  proof (cases u)
    case None
    with assms(2) live show ?thesis using assms(3) by (cases v) auto
  next
    case (Some w)
    with live assms(2) obtain c where c: "children s w = Some c" "c_peb c = p" "p \<noteq> primary s" by blast
    with assms(3) obtain x where x: "v = Some x" by (cases v) auto
    with live assms(3) obtain d where "children s x = Some d" "c_peb d = p" by blast
    with c I(4) have "w = x" unfolding children_ok_def by blast
    with Some x show ?thesis by simp
  qed
qed

text \<open>A child that moves on and keeps its cache.\<close>

lemma handles_move:
  assumes c: "children s teb = Some c" "c_pc c \<notin> {Gone, Exited}"
    and t: "children t = (children s)(teb := Some c')" "c_peb c' = c_peb c" "c_pc c' \<notin> {Gone, Exited}"
      "primary t = primary s" "\<And>p. cache_of t p = cache_of s p"
  shows "handles_of t = handles_of s"
proof (rule handles_same)
  show "caller who t = caller who s" for who
    unfolding caller_upd [OF t(1,4)] using c t(2,3) by auto
qed (simp add: t(5))

lemma cache_of_upd_child [simp]: "cache_of (upd_child teb f s) p = cache_of s p"
  by (simp add: cache_of_def cong: option.case_cong)

lemma cache_of_restored: "restored s t \<Longrightarrow> cache_of t p = cache_of s p"
  using restored_sel [of s t] by (simp add: cache_of_def restored_def cong: option.case_cong)

lemma handles_spawn:
  assumes inv: "spawn_inv s" and step: "spawn_step s (Spawns who a) t"
  shows "handle_step (handles_of s) (Spawns who a) (handles_of t)"
proof -
  from step obtain p where p: "caller who s = Some p" and fresh: "unused_answers a s"
    and t: "t = snd (spawn_process_inproc a p s)" by auto
  have "handles_of s who \<noteq> None" using p by (simp add: handles_of_def)
  moreover have "handles_of t = handles_of s \<or> (\<exists>teb. a_teb a = Inr teb \<and> handles_of s (Some teb) = None \<and>
      handles_of t = (handles_of s)(Some teb := Some (\<lambda>_. None)))"
  proof (rule spawn_cases [OF inv fresh, of p])
    fix st u
    assume "spawn_process_inproc a p s = (st, u)" and r: "restored s u"
    with t have "t = u" by simp
    moreover have "caller x u = caller x s" for x using restored_sel [OF r] by (cases x) simp_all
    ultimately show ?thesis using handles_same [of u s] cache_of_restored [OF r] by blast
  next
    fix u :: host_proc and teb
    let ?u = "u\<lparr>children := (children s)(teb := Some (new_child a))\<rparr>"
    assume "spawn_process_inproc a p s = (STATUS_SUCCESS, ?u)" and sp: "spawned a p s u"
      and teb: "children s teb = None" "a_teb a = Inr teb"
    with t have tu: "t = ?u" by simp
    have ch: "children ?u = (children s)(teb := Some (new_child a))" by simp
    have prim: "primary ?u = primary s" using spawned_sel [OF sp] by simp
    have none: "handles_of s (Some teb) = None" using teb(1) by (simp add: handles_of_def)
    have un: "unmapped s (a_peb a)" using sp by (simp add: spawned_def)
    have "cch s (a_peb a) = None" "a_peb a \<noteq> primary s"
      using unmapped_unbound [OF inv un] by simp_all
    then have empty: "cache_of s (a_peb a) = (\<lambda>_. None)" by (simp add: cache_of_def)
    have "handles_of ?u = (handles_of s)(Some teb := Some (\<lambda>_. None))"
    proof
      fix x
      show "handles_of ?u x = ((handles_of s)(Some teb := Some (\<lambda>_. None))) x"
        unfolding handles_of_def caller_upd [OF ch prim] spawned_cache_of [OF inv sp]
        by (auto simp: handles_of_def new_child_def empty)
    qed
    with none teb(2) tu show ?thesis by blast
  qed
  ultimately show ?thesis by simp
qed

lemma handles_gone:
  assumes c: "children t = (children s)(teb := Some c)" "c_pc c \<in> {Gone, Exited}" "primary t = primary s"
    and co: "\<And>x p. x \<noteq> Some teb \<Longrightarrow> caller x s = Some p \<Longrightarrow> cache_of t p = cache_of s p"
  shows "handles_of t = (handles_of s)(Some teb := None)"
proof
  fix x
  show "handles_of t x = ((handles_of s)(Some teb := None)) x"
    using c(2) co by (cases "caller x s") (auto simp: handles_of_def caller_upd [OF c(1,3)])
qed

lemma handles_cache:
  assumes inv: "spawn_inv s" and who: "caller who s = Some p" and k: "fst k < FD_CACHE_ENTRIES"
    and t: "\<And>x. caller x t = caller x s" "\<And>q. q \<noteq> p \<Longrightarrow> cache_of t q = cache_of s q"
      "cache_slot (cache_of t p) = (cache_slot (cache_of s p))(k := e)"
  shows "handles_of t = (handles_of s)(who := Some ((the (handles_of s who))(k := e)))"
proof
  fix x
  show "handles_of t x = ((handles_of s)(who := Some ((the (handles_of s who))(k := e)))) x"
  proof (cases "x = who")
    case True
    with who visible_upd [OF k t(3)] show ?thesis by (simp add: handles_of_def t(1))
  next
    case False
    then have "caller x s \<noteq> Some p" using caller_inj [OF inv _ who] by blast
    with False show ?thesis by (cases "caller x s") (auto simp: handles_of_def t(1,2))
  qed
qed


lemma attach_move:
  assumes inv: "spawn_inv s" and c: "children s teb = Some c" "c_pc c = Starting"
  shows "handles_of (child_attach r teb c s) = handles_of s"
proof (rule attach_view [OF spawn_invD(1) [OF inv] c(1), of r])
  let ?t = "child_attach r teb c s"
  fix c'
  assume t: "same_view s ?t" "children ?t = (children s)(teb := Some c')" "c_peb c' = c_peb c"
    "c_pc c' = Detaching \<or> c_pc c' = Attached (r_info_size r)"
    "proc_fd_caches ?t = proc_fd_caches s" "caches ?t = caches s" "primary_fd_cache ?t = primary_fd_cache s"
  have "cache_of ?t p = cache_of s p" for p
    using t(1,5-7) by (simp add: cache_of_def same_view_def cong: option.case_cong)
  with t c show ?thesis by (intro handles_move [OF c(1) _ t(2)]) (auto simp: same_view_def)
qed

lemma build_cache_of [simp]: "cache_of (child_build st params base entry teb c s) p = cache_of s p"
proof -
  have "primary (child_build st params base entry teb c s) = primary s"
    "primary_fd_cache (child_build st params base entry teb c s) = primary_fd_cache s"
    "proc_fd_caches (child_build st params base entry teb c s) = proc_fd_caches s"
    "caches (child_build st params base entry teb c s) = caches s"
    by (simp_all add: child_build_def Let_def)
  then show ?thesis by (simp add: cache_of_def cong: option.case_cong)
qed

lemma handles_add_step:
  assumes inv: "spawn_inv s" and step: "spawn_step s (Caches who mem k ent) t"
  shows "handle_step (handles_of s) (Caches who mem k ent) (handles_of t)"
proof -
  obtain p ok where p: "caller who s = Some p" and add: "cache_add p mem k ent s = Some (ok, t)" using step by auto
  have call: "caller x t = caller x s" for x
  proof -
    have "children t = children s" "primary t = primary s"
      using cache_step_view(1) [OF inv p add] by (auto simp: same_view_def)
    then show ?thesis by (cases x) simp_all
  qed
  show ?thesis
  proof (rule cache_add_cases [OF add])
    assume "t = s"
    with p show ?thesis by (simp add: handles_of_def)
  next
    fix d
    let ?u = "if ce_type ent = FD_TYPE_INVALID then s else open_fd (ce_fd ent) (Cached p (fst k) (snd k)) s"
    assume d: "add_fd_to_cache mem (table_find (proc_fd_caches s) p = None) k ent (current_fd_cache p s) = Some (True, d)"
      and t: "t = put_fd_cache p d ?u"
    note r = add_slot [OF d, unfolded cache_of_caller [OF inv p]]
    have u: "spawn_inv ?u" "caller who ?u = Some p"
      using same_view_inv [OF inv same_view_open [OF spawn_invD(1) [OF inv]]] inv p by simp_all
    have co: "cache_of t q = (if q = p then d else cache_of s q)" for q
      unfolding t cache_of_put [OF u] by simp
    have "handles_of t = (handles_of s)(who := Some ((the (handles_of s who))(k := Some ent)))"
      by (rule handles_cache [OF inv p r(1) call]) (simp_all add: co r(3))
    moreover have "visible (cache_of s p) k = None" using r(2) by (simp add: visible_def)
    ultimately show ?thesis using p by (simp add: handles_of_def)
  qed
qed

lemma handles_remove_step:
  assumes inv: "spawn_inv s" and step: "spawn_step s (Uncaches who k) t"
  shows "handle_step (handles_of s) (Uncaches who k) (handles_of t)"
proof -
  obtain p where p: "caller who s = Some p" and t: "t = cache_remove p k s" using step by auto
  have call: "caller x t = caller x s" for x
  proof -
    have "children t = children s" "primary t = primary s"
      using cache_step_view(2) [OF inv p, of k] t by (auto simp: same_view_def)
    then show ?thesis by (cases x) simp_all
  qed
  define d where "d = snd (remove_fd_from_cache k (cache_of s p))"
  have co: "cache_of t q = (if q = p then d else cache_of s q)" for q
    by (simp add: t cache_remove_def d_def cache_of_caller [OF inv p] cache_of_put [OF inv p] split: prod.split)
  have "handles_of t = (handles_of s)(who := Some ((the (handles_of s who))(k := None)))"
  proof (cases "fst k < FD_CACHE_ENTRIES")
    case True
    show ?thesis
      by (rule handles_cache [OF inv p True call]) (simp_all add: co d_def remove_slot(2) [OF True])
  next
    case False
    then have "d = cache_of s p" using remove_slot(1) [of k "cache_of s p"] by (simp add: d_def)
    then have "handles_of t = handles_of s" using handles_same [of t s, OF call] by (simp add: co)
    moreover have "(the (handles_of s who))(k := None) = the (handles_of s who)"
      using False p by (simp add: handles_of_def visible_def fun_upd_idem)
    ultimately show ?thesis using p by (simp add: handles_of_def fun_upd_idem)
  qed
  with p show ?thesis by (simp add: handles_of_def)
qed

lemma handles_sim:
  assumes inv: "spawn_inv s" and step: "spawn_step s a t"
  shows "handle_step (handles_of s) a (handles_of t)"
proof (cases a)
  case (Spawns who b)
  with handles_spawn [OF inv] step show ?thesis by simp
next
  case (Attaches teb r)
  with step attach_move [OF inv] show ?thesis by (auto dest!: at_pcD)
next
  case (Builds teb su)
  with step have "spawn_step s (Builds teb su) t" by simp
  then obtain c st params base entry n where c: "children s teb = Some c" "c_pc c = Attached n"
    and t: "t = child_build st params base entry teb c s" by (rule builds_cases)
  have v: "children t = (children s)(teb := Some (c\<lparr>c_pc := if st = STATUS_SUCCESS then Built else Detaching\<rparr>))"
    "primary t = primary s"
    using c(1) by (auto simp: t child_build_def Let_def)
  have "handles_of t = handles_of s"
    by (rule handles_move [OF c(1) _ v(1) _ _ v(2)]) (use c(2) in \<open>auto simp: t\<close>)
  with Builds show ?thesis by simp
next
  case (Finishes teb st)
  with step obtain c where c: "children s teb = Some c" "c_pc c = Built" and t: "t = child_done st teb s"
    by (auto dest!: at_pcD)
  have "handles_of t = handles_of s"
    by (rule handles_move [OF c(1), of _ "c\<lparr>c_pc := if st = STATUS_SUCCESS then Entering else Detaching\<rparr>"])
      (use c t in \<open>auto simp: child_done_def\<close>)
  with Finishes show ?thesis by simp
next
  case (Enters teb en)
  with step obtain c where c: "children s teb = Some c" "c_pc c = Entering" and t: "t = child_enter en teb s"
    by (auto dest!: at_pcD)
  have "handles_of t = handles_of s"
    by (rule handles_move [OF c(1), of _ "c\<lparr>c_pc := if en then Running else Detaching\<rparr>"])
      (use c t in \<open>auto simp: child_enter_def\<close>)
  with Enters show ?thesis by simp
next
  case (Detaches teb)
  with step obtain c where c: "children s teb = Some c" "c_pc c = Detaching" and t: "t = child_detach teb c s"
    by (auto dest!: at_pcD)
  have v: "children t = (children s)(teb := Some (c\<lparr>c_pc := Gone\<rparr>))" "primary t = primary s"
    unfolding t by (rule detach_view [OF inv c], assumption)+
  have "handles_of t = (handles_of s)(Some teb := None)"
  proof (rule handles_gone [OF v(1) _ v(2)])
    fix x p
    assume x: "x \<noteq> Some teb" "caller x s = Some p"
    have "caller (Some teb) s = Some (c_peb c)" using c by simp
    with x caller_inj [OF inv] have "p \<noteq> c_peb c" by blast
    then show "cache_of t p = cache_of s p" by (simp add: t detach_cache_of [OF inv c])
  qed simp
  with Detaches show ?thesis by simp
next
  case (Exits teb e status)
  with step obtain c where c: "children s teb = Some c" and t: "child_exit e status teb s = Some t"
    by (auto dest!: at_pcD)
  have "handles_of t = (handles_of s)(Some teb := None)"
    by (rule handles_gone [of _ _ _ "c\<lparr>c_pc := Exited\<rparr>"])
      (use c t in \<open>auto simp: child_exit_def split: prod.splits exit_effect.splits\<close>)
  with Exits show ?thesis by simp
next
  case (Caches who mem k ent)
  with handles_add_step [OF inv] step show ?thesis by simp
next
  case (Looks_up who k r)
  with step obtain p where p: "caller who s = Some p" and r: "r = get_cached_fd k (current_fd_cache p s)" "t = s" by auto
  with Looks_up show ?thesis by (simp add: handles_of_def get_visible cache_of_caller [OF inv p])
next
  case (Uncaches who k)
  with handles_remove_step [OF inv] step show ?thesis by simp
qed

definition handle_start :: "handle_space \<Rightarrow> bool" where
  "handle_start h \<longleftrightarrow> h = (\<lambda>_. None)(None := Some (\<lambda>_. None))"

lemma start_handles: "spawn_start s \<Longrightarrow> handle_start (handles_of s)"
proof -
  assume "spawn_start s"
  then obtain p fd main where s: "s = first_process p fd main" by (auto simp: spawn_start_def)
  have "handles_of s x = ((\<lambda>_. None)(None := Some (\<lambda>_. None))) x" for x
    by (cases x) (simp_all add: handles_of_def s first_process_def cache_of_def)
  then show ?thesis by (auto simp: handle_start_def)
qed

interpretation handle_caches: simulation spawn_start spawn_step spawn_inv handles_of handle_start handle_step
  by unfold_locales (use start_handles handles_sim in blast)+


text \<open>C10: a handle of one process never reaches a descriptor of another: every run of the
  host is, step for step, a run of the machine in which each running process has a map of its own
  from handles to entries, empty when the process starts, and an operation of a process reads and
  changes that process's map alone. The machine knows no tables, PEBs or cache addresses.\<close>
theorem handle_caches_isolated:
  assumes "spawn_start s" "execution spawn_step s ls t"
  shows "execution handle_step (handles_of s) ls (handles_of t) \<and>
    handles_of s = (\<lambda>_. None)(None := Some (\<lambda>_. None))"
  using handle_caches.reachable_sim [OF assms] unfolding handle_start_def by blast

theorem handle_caches_isolated_witness:
  "\<exists>t. execution handle_step (handles_of first_host) [Spawns None first_answers] (handles_of t) \<and>
     children t 256 \<noteq> None"
proof (rule first_spawn)
  fix s
  assume s: "execution roomy_step first_host [Spawns None first_answers] s"
    "children s = (\<lambda>_. None)(256 := Some (new_child first_answers))"
  from handle_caches_isolated [OF first_spawn_start roomy_run [OF s(1)]] s(2) show ?thesis by auto
qed

section \<open>Failures and ends\<close>

text \<open>C11: a spawn that fails leaves no trace, and a build without fork never forks: in
  that build a spawn succeeds just when the PE side is up, a prefix under construction has its
  system DLLs, nothing was refused and the table of the caches has room; and whatever step of it
  failed, the descriptors, the mapped pages, the children and the handles are what they were, and
  every process resolves its server socket, its image information and its handle cache as
  before.\<close>
theorem failed_spawn_leaves_nothing:
  assumes start: "spawn_start s" and run: "execution spawn_step s ls t" and fresh: "unused_answers a t"
    and sp: "spawn_process (spawn_backend True requested pe_side bootstrap has_dlls) forked a parent t = (st, u)"
  shows "(st = STATUS_SUCCESS \<longleftrightarrow> pe_side \<and> (bootstrap \<longrightarrow> has_dlls) \<and> spawn_can a t) \<and>
    (st \<noteq> STATUS_SUCCESS \<longrightarrow> opened u = opened t \<and> pebs u = pebs t \<and> infos u = infos t \<and>
      caches u = caches t \<and> children u = children t \<and> handles_of u = handles_of t \<and>
      (\<forall>p. p \<noteq> 0 \<longrightarrow>
        current_server_fd (fd_socket u) (proc_server_fds u) p = current_server_fd (fd_socket t) (proc_server_fds t) p \<and>
        current_image_info (main_image_info u) (proc_image_infos u) p =
          current_image_info (main_image_info t) (proc_image_infos t) p \<and>
        current_fd_cache p u = current_fd_cache p t))"
proof (cases "pe_side \<and> (bootstrap \<longrightarrow> has_dlls)")
  case False
  with sp have "st = STATUS_NOT_SUPPORTED" "u = t"
    by (auto simp: spawn_backend_def spawn_process_def split: if_splits)
  with False show ?thesis by simp
next
  case True
  with sp have sp: "spawn_process_inproc a parent t = (st, u)"
    by (simp add: spawn_backend_def spawn_process_def split: if_splits)
  have inv: "spawn_inv t" using spawns.reachable_inv [OF start run] .
  have st: "st = STATUS_SUCCESS \<longleftrightarrow> spawn_can a t" using spawn_status [OF inv fresh, of parent] sp by simp
  show ?thesis
  proof (rule spawn_cases [OF inv fresh, of parent])
    fix st' u'
    assume "spawn_process_inproc a parent t = (st', u')" "restored t u'"
    with sp have r: "restored t u" by simp
    note e = restored_sel [OF r]
    have v: "srv u = srv t" "img u = img t" "cch u = cch t" using r by (simp_all add: restored_def)
    have "caller x u = caller x t" for x by (cases x) (simp_all add: e)
    then have "handles_of u = handles_of t" using handles_same [of u t] cache_of_restored [OF r] by blast
    with st True show ?thesis
      by (simp add: e v current_server_fd_def current_image_info_def current_fd_cache_def table_find_bound
          cong: option.case_cong)
  qed (use st sp True in simp)
qed

theorem failed_spawn_leaves_nothing_witness:
  "opened (snd (spawn_process_inproc (first_answers\<lparr>a_created := False\<rparr>) 16 first_host)) = opened first_host"
proof -
  let ?a = "first_answers\<lparr>a_created := False\<rparr>"
  obtain st u where u: "spawn_process (spawn_backend True True True False True) (Pair STATUS_SUCCESS) ?a 16 first_host = (st, u)"
    by fastforce
  have "unused_answers ?a first_host" using first_fresh by (simp add: unused_answers_def)
  from failed_spawn_leaves_nothing [OF first_spawn_start execution.stop this u] u
  show ?thesis by (simp add: spawn_can_def spawn_backend_def spawn_process_def)
qed

text \<open>C12: when a child detaches, exactly what belonged to it is closed. This is shown for
  the runs in which every spawn finds a free slot in the table of server sockets and no
  child's program ends its process itself (\<open>roomy_step\<close>; with a full table, or after such
  an exit, it is not so: see the theorems on a full table and
  on exits below): after the step every descriptor that some other process
  holds is still open and held as before, the primary's server socket among them, and none
  of the child's is, not its connection, its pipes nor what its handle cache held; the pages
  of its PEB and image information stay mapped.\<close>
theorem detach_closes_exactly_own:
  assumes start: "spawn_start s" and run: "execution roomy_step s ls t"
    and c: "children t teb = Some c" and step: "roomy_step t (Detaches teb) u"
  shows "opened u fd = (case opened t fd of None \<Rightarrow> None | Some h \<Rightarrow> if held_by h = c_peb c then None else Some h) \<and>
    opened u (fd_socket u) = Some (Conn (primary u)) \<and> pebs u = pebs t \<and> infos u = infos t"
proof -
  have inv: "own_inv t" using roomy_spawns.reachable_inv [OF start run] .
  from step c have d: "c_pc c = Detaching" "u = child_detach teb c t"
    by (auto simp: roomy_step_def dest!: at_pcD)
  have inv': "own_inv u" using own_step [OF step inv] .
  have "srv u (primary u) = Some (fd_socket u)"
    using spawn_invD(2) [OF own_invD(1) [OF inv']] by (simp add: primary_ok_def)
  then have "opened u (fd_socket u) = Some (Conn (primary u))"
    using opened_holds [OF own_invD(2) [OF inv']] by simp
  moreover have "pebs u = pebs t" "infos u = infos t"
    unfolding d(2) by (rule detach_view [OF own_invD(1) [OF inv] c d(1)], assumption)+
  ultimately show ?thesis using detach_closes [OF inv c d(1)] d(2) by simp
qed


definition bad_attach :: attach_answers where
  "bad_attach = attaching\<lparr>r_fd := -1\<rparr>"

theorem detach_closes_exactly_own_witness:
  "\<exists>ls t u. execution roomy_step first_host ls t \<and> roomy_step t (Detaches 256) u \<and>
     opened t 4 = Some (Conn 64) \<and> opened u 4 = None \<and> opened u 3 = Some (Conn 16)"
proof (rule first_spawn)
  fix s
  assume s: "execution roomy_step first_host [Spawns None first_answers] s"
    "children s = (\<lambda>_. None)(256 := Some (new_child first_answers))"
    "opened s = (\<lambda>_. None)(3 := Some (Conn 16), 4 := Some (Conn 64))"
  let ?c = "new_child first_answers"
  let ?t = "child_attach bad_attach 256 ?c s"
  have "roomy_step s (Attaches 256 bad_attach) ?t"
    using s(2,3) by (simp add: roomy_step_def at_pc_def new_child_def bad_attach_def)
  with execution_snoc [OF s(1)] have run: "execution roomy_step first_host
      ([Spawns None first_answers] @ [Attaches 256 bad_attach]) ?t" by blast
  obtain c where c: "children ?t 256 = Some c" "c_pc c = Detaching" "c_peb c = 64"
    using s(2) by (simp add: child_attach_def server_init_process_inproc_def Let_def bad_attach_def
        new_child_def first_answers_def)
  have o: "opened ?t = opened s"
    by (simp add: child_attach_def server_init_process_inproc_def Let_def bad_attach_def)
  have step: "roomy_step ?t (Detaches 256) (child_detach 256 c ?t)"
    using c by (simp add: roomy_step_def at_pc_def)
  note w = detach_closes_exactly_own [OF first_spawn_start run c(1) step]
  from w [of 4] w [of 3] c(3) o s(3) run step show ?thesis
    by (intro exI [of _ "[Spawns None first_answers] @ [Attaches 256 bad_attach]"] exI [of _ ?t]
        exI [of _ "child_detach 256 c ?t"]) simp
qed

text \<open>C33: a program that ends its process in the in-process model takes the primary's
  connection with it and keeps its own: the exit closes the global server socket, which is the
  primary process's, and the child stays registered, with its connection open and its slot of
  every table taken.\<close>
theorem exit_closes_primary_socket:
  assumes start: "spawn_start s" and run: "execution spawn_step s ls t"
    and step: "spawn_step t (Exits teb e status) u" and c: "children t teb = Some c"
  shows "opened u (fd_socket u) = None \<and> srv u (primary u) = Some (fd_socket u) \<and>
    proc_server_fds u = proc_server_fds t \<and> proc_image_infos u = proc_image_infos t \<and>
    proc_fd_caches u = proc_fd_caches t \<and> cch u (c_peb c) \<noteq> None \<and>
    (\<forall>fd. fd \<noteq> fd_socket t \<longrightarrow> opened u fd = opened t fd)"
proof -
  have inv: "spawn_inv t" using spawns.reachable_inv [OF start run] .
  from step c have r: "c_pc c = Running" and u: "child_exit e status teb t = Some u" by (auto dest!: at_pcD)
  from u have "u = upd_child teb (\<lambda>c. c\<lparr>c_pc := Exited\<rparr>) (shut_fd (fd_socket t) t)"
    by (auto simp: child_exit_def process_exit_wrapper_def split: if_splits)
  moreover have "child_ok t c" using spawn_invD(4) [OF inv] c by (auto simp: children_ok_def)
  then have "cch t (c_peb c) \<noteq> None" using r by (simp add: child_ok_def)
  moreover have "srv t (primary t) = Some (fd_socket t)" using spawn_invD(2) [OF inv] by (simp add: primary_ok_def)
  ultimately show ?thesis by simp
qed


text \<open>The first child gets to run its program.\<close>

lemma first_running:
  obtains ls s c where "execution spawn_step first_host ls s" "children s 256 = Some c" "c_pc c = Running"
proof (rule first_spawn)
  fix s
  assume s: "execution roomy_step first_host [Spawns None first_answers] s"
    "children s = (\<lambda>_. None)(256 := Some (new_child first_answers))"
    "opened s = (\<lambda>_. None)(3 := Some (Conn 16), 4 := Some (Conn 64))"
  let ?c = "new_child first_answers"
  obtain t1 where 1: "spawn_step s (Attaches 256 attaching) t1" and t1: "t1 = child_attach attaching 256 ?c s"
    using s(2,3) by (simp add: at_pc_def new_child_def attaching_def fresh_fd_def)
  obtain c1 where c1: "children t1 256 = Some c1" "c_pc c1 = Attached 100"
    using s(2) by (simp add: t1 child_attach_def server_init_process_inproc_def Let_def attaching_def new_child_def)
  let ?su = "\<lparr>su_status = STATUS_SUCCESS, su_info_size = 80, su_env_size = 20, su_load = STATUS_SUCCESS,
      su_params = 512, su_base = 1024, su_entry = 1028\<rparr>"
  obtain t2 where 2: "spawn_step t1 (Builds 256 ?su) t2"
    and t2: "t2 = child_build STATUS_SUCCESS 512 1024 1028 256 c1 t1"
    using c1 by (simp add: at_pc_def build_startup_info_def nt_success_def)
  have c2: "children t2 256 = Some (c1\<lparr>c_pc := Built\<rparr>)" using c1 by (simp add: t2 child_build_def Let_def)
  obtain t3 where 3: "spawn_step t2 (Finishes 256 STATUS_SUCCESS) t3" and t3: "t3 = child_done STATUS_SUCCESS 256 t2"
    using c2 by (simp add: at_pc_def)
  have c3: "children t3 256 = Some (c1\<lparr>c_pc := Entering\<rparr>)" using c2 by (simp add: t3 child_done_def)
  obtain t4 where 4: "spawn_step t3 (Enters 256 True) t4" and t4: "t4 = child_enter True 256 t3"
    using c3 by (simp add: at_pc_def)
  have c4: "children t4 256 = Some (c1\<lparr>c_pc := Running\<rparr>)" using c3 by (simp add: t4 child_enter_def)
  show ?thesis
    by (rule that [OF execution_snoc [OF execution_snoc [OF execution_snoc [OF execution_snoc
            [OF roomy_run [OF s(1)] 1] 2] 3] 4] c4]) simp
qed

theorem exit_closes_primary_socket_witness:
  "\<exists>ls t u. execution spawn_step first_host ls t \<and>
     spawn_step t (Exits 256 ((\<lambda>_. None)(''WINE_INPROCESS'' := Some ''1'')) 0) u \<and> opened u (fd_socket u) = None"
proof (rule first_running)
  fix ls s c
  let ?e = "(\<lambda>_. None)(''WINE_INPROCESS'' := Some ''1'')"
  assume s: "execution spawn_step first_host ls s" "children s 256 = Some c" "c_pc c = Running"
  then obtain u where u: "child_exit ?e 0 256 s = Some u" by (simp add: child_exit_def process_exit_wrapper_def)
  with s have step: "spawn_step s (Exits 256 ?e 0) u" by (simp add: at_pc_def)
  from exit_closes_primary_socket [OF first_spawn_start s(1) step s(2)] s(1) step show ?thesis by blast
qed

section \<open>More processes than the table of server sockets holds\<close>

text \<open>
  The primary process is registered in \<^verbatim>\<open>proc_server_fds\<close> and not in
  \<^verbatim>\<open>proc_fd_caches\<close>, and both have 64 slots: the former is full one child before the
  latter.
\<close>

definition nth_addr :: "nat \<Rightarrow> ptr" where
  "nth_addr k = of_nat (100 + k)"

definition nth_answers :: "nat \<Rightarrow> spawn_answers" where
  "nth_answers n = \<lparr>a_dup = 100 + int n, a_peb = nth_addr (4 * n), a_info = nth_addr (4 * n + 1),
     a_cache = nth_addr (4 * n + 2), a_teb = Inr (nth_addr (4 * n + 3)), a_stack = STATUS_SUCCESS,
     a_created = True\<rparr>"

lemma nth_addr_inj: "j < 1000 \<Longrightarrow> k < 1000 \<Longrightarrow> nth_addr j = nth_addr k \<longleftrightarrow> j = k"
proof -
  assume "j < 1000" "k < 1000"
  then have "unat (nth_addr j) = 100 + j" "unat (nth_addr k) = 100 + k"
    by (simp_all add: nth_addr_def unat_of_nat take_bit_nat_eq_self del: of_nat_add)
  then show ?thesis by (metis add_left_cancel)
qed

text \<open>The addresses and descriptors from \<open>n\<close> on are unused.\<close>

definition spare :: "nat \<Rightarrow> host_proc \<Rightarrow> bool" where
  "spare n s \<longleftrightarrow> (\<forall>k<1000. 4 * n \<le> k \<longrightarrow> unmapped s (nth_addr k)) \<and> (\<forall>k. n \<le> k \<longrightarrow> opened s (100 + int k) = None)"

lemma nth_fresh:
  assumes "spare n s" "n < 200"
  shows "unused_answers (nth_answers n) s"
  using assms nth_addr_inj [of "4 * n" "4 * n + 1"]
  by (simp add: unused_answers_def nth_answers_def spare_def fresh_fd_def)

lemma spawn_nth:
  assumes inv: "spawn_inv s" and sp: "spare n s" "n < 200" and room: "table_room (proc_fd_caches s)"
  obtains t where "spawn_step s (Spawns None (nth_answers n)) t" "spawn_inv t" "spare (Suc n) t"
    "srv t = (if table_room (proc_server_fds s) then (srv s)(nth_addr (4 * n) := Some (100 + int n)) else srv s)"
    "cch t = (cch s)(nth_addr (4 * n) := Some (nth_addr (4 * n + 2)))" "fd_socket t = fd_socket s" "primary t = primary s"
    "children t = (children s)(nth_addr (4 * n + 3) := Some (new_child (nth_answers n)))"
    "opened t = (opened s)(100 + int n := Some (Conn (nth_addr (4 * n))))"
    "srv s (nth_addr (4 * n)) = None" "cch s (nth_addr (4 * n)) = None"
    "caches t (nth_addr (4 * n + 2)) = Some (\<lambda>_. None)"
proof -
  let ?a = "nth_answers n"
  have fresh: "unused_answers ?a s" by (rule nth_fresh [OF sp])
  have z: "nth_addr k \<noteq> 0" if "k < 1000" "4 * n \<le> k" for k
    using sp that unfolding spare_def unmapped_def by blast
  have can: "spawn_can ?a s"
    using room z sp(2) by (simp add: spawn_can_def nth_answers_def)
  obtain t teb where t: "spawn_process_inproc ?a (primary s) s =
      (STATUS_SUCCESS, t\<lparr>children := (children s)(teb := Some (new_child ?a))\<rparr>)"
    "spawned ?a (primary s) s t" "children s teb = None" "a_teb ?a = Inr teb"
    by (rule spawn_ok [OF inv fresh can, of "primary s"])
  let ?t = "t\<lparr>children := (children s)(teb := Some (new_child ?a))\<rparr>"
  have teb: "teb = nth_addr (4 * n + 3)" using t(4) by (simp add: nth_answers_def)
  note e = spawned_sel [OF t(2)]
  have un: "unmapped s (a_peb ?a)" using t(2) by (simp add: spawned_def)
  have v: "srv ?t = (if table_room (proc_server_fds s) then (srv s)(nth_addr (4 * n) := Some (100 + int n)) else srv s)"
    "cch ?t = (cch s)(nth_addr (4 * n) := Some (nth_addr (4 * n + 2)))"
    using t(2) by (simp_all add: spawned_def nth_answers_def)
  have "spare (Suc n) ?t"
    using sp teb nth_addr_inj unfolding spare_def unmapped_def
    by (simp add: e nth_answers_def)
  with that [of ?t] t(1) fresh spawned_inv [OF inv t(2,3)] v e teb unmapped_unbound [OF inv un]
  show ?thesis by (simp add: nth_answers_def)
qed


lemma room_iff:
  assumes "spawn_inv s"
  shows "table_room (proc_server_fds s) \<longleftrightarrow> card (dom (srv s)) < MAX_PROC_FDS"
    "table_room (proc_fd_caches s) \<longleftrightarrow> card (dom (cch s)) < MAX_PROC_FDS"
  using spawn_invD(1) [OF assms] by (simp_all add: tables_ok_def table_room_card [of MAX_PROC_FDS])

lemma fill_tables:
  "n \<le> 63 \<Longrightarrow> \<exists>ls t. execution spawn_step first_host ls t \<and> spawn_inv t \<and> spare n t \<and>
     finite (dom (srv t)) \<and> finite (dom (cch t)) \<and> card (dom (srv t)) = Suc n \<and> card (dom (cch t)) = n \<and>
     fd_socket t = 3 \<and> primary t = 16 \<and> opened t 3 = Some (Conn 16) \<and>
     (\<forall>k<n. children t (nth_addr (4 * k + 3)) = Some (new_child (nth_answers k)))"
proof (induction n)
  case 0
  have e: "table_room (empty_table MAX_PROC_FDS (0::int))" by (simp add: table_room_def empty_table_def)
  have v: "srv first_host = (\<lambda>_. None)(16 := Some 3)" "cch first_host = (\<lambda>_. None)"
    using e by (simp_all add: first_host_def first_process_def server_fds.lookup_add)
  have ne: "nth_addr k \<notin> {0, 16, 32}" if "k < 1000" for k
  proof -
    have "unat (nth_addr k) = 100 + k"
      using that by (simp add: nth_addr_def unat_of_nat take_bit_nat_eq_self del: of_nat_add)
    then show ?thesis by auto
  qed
  have "spare 0 first_host"
    using ne by (auto simp: spare_def unmapped_def first_host_def first_process_def)
  moreover have "dom (srv first_host) = {16}" "dom (cch first_host) = {}" by (simp_all add: v)
  moreover have "fd_socket first_host = 3" "primary first_host = 16" "opened first_host 3 = Some (Conn 16)"
    by (simp_all add: first_host_def first_process_def)
  ultimately show ?case
    using start_spawn_inv [OF first_spawn_start] by (intro exI [of _ "[]"] exI [of _ first_host]) simp
next
  case (Suc n)
  then obtain ls s where s: "execution spawn_step first_host ls s" "spawn_inv s" "spare n s"
    "finite (dom (srv s))" "finite (dom (cch s))" "card (dom (srv s)) = Suc n" "card (dom (cch s)) = n"
    "fd_socket s = 3" "primary s = 16" "opened s 3 = Some (Conn 16)"
    "\<forall>k<n. children s (nth_addr (4 * k + 3)) = Some (new_child (nth_answers k))" by auto
  have room: "table_room (proc_server_fds s)" "table_room (proc_fd_caches s)"
    using room_iff [OF s(2)] s(6,7) Suc.prems by simp_all
  have n: "n < 200" using Suc.prems by simp
  show ?case
  proof (rule spawn_nth [OF s(2,3) n room(2)])
    fix t
    assume t: "spawn_step s (Spawns None (nth_answers n)) t" "spawn_inv t" "spare (Suc n) t"
      "srv t = (if table_room (proc_server_fds s) then (srv s)(nth_addr (4 * n) \<mapsto> 100 + int n) else srv s)"
      "cch t = (cch s)(nth_addr (4 * n) \<mapsto> nth_addr (4 * n + 2))" "fd_socket t = fd_socket s" "primary t = primary s"
      "opened t = (opened s)(100 + int n \<mapsto> Conn (nth_addr (4 * n)))"
      "srv s (nth_addr (4 * n)) = None" "cch s (nth_addr (4 * n)) = None"
      "children t = (children s)(nth_addr (4 * n + 3) \<mapsto> new_child (nth_answers n))"
    have "execution spawn_step first_host (ls @ [Spawns None (nth_answers n)]) t"
      by (rule execution_snoc [OF s(1) t(1)])
    moreover have "dom (srv t) = insert (nth_addr (4 * n)) (dom (srv s))"
      "dom (cch t) = insert (nth_addr (4 * n)) (dom (cch s))" using room(1) unfolding t(4,5) by simp_all
    then have "finite (dom (srv t))" "finite (dom (cch t))" "card (dom (srv t)) = Suc (Suc n)"
      "card (dom (cch t)) = Suc n" using s(4-7) t(9,10) by (simp_all add: domIff)
    moreover have "opened t 3 = Some (Conn 16)" unfolding t(8) using s(10) by simp
    moreover have "\<forall>k<Suc n. children t (nth_addr (4 * k + 3)) = Some (new_child (nth_answers k))"
      using s(11) n unfolding t(11) by (auto simp: less_Suc_eq nth_addr_inj)
    ultimately show ?case using t(2,3,6,7) s(8,9) by metis
  qed
qed

text \<open>
  A child that the table had no room for stays unregistered whatever happens: only its own
  spawn registers a process, and its PEB is not unmapped. So its handshake, once it has tried
  one, went over the server socket of the host.
\<close>

definition unregistered :: "ptr \<Rightarrow> ptr \<Rightarrow> int \<Rightarrow> host_proc \<Rightarrow> bool" where
  "unregistered teb p fd s \<longleftrightarrow> fd_socket s = fd \<and> srv s p = None \<and> pebs s p \<noteq> None \<and>
     (\<exists>c. children s teb = Some c \<and> c_peb c = p \<and> (c_pc c = Starting \<or> c_rode c = Some fd))"

lemma unregistered_keep:
  assumes "unregistered teb p fd s" "fd_socket t = fd_socket s" "srv t = srv s"
    "pebs t p = None \<longleftrightarrow> pebs s p = None" "children t teb = children s teb"
  shows "unregistered teb p fd t"
  using assms by (simp add: unregistered_def)

lemma unregistered_move:
  assumes "unregistered teb p fd s" "fd_socket t = fd_socket s" "srv t p = None" "dom (pebs t) = dom (pebs s)"
    and "children s u = Some c" "c_pc c \<noteq> Starting" "children t = (children s)(u := Some c')"
    "c_peb c' = c_peb c" "c_rode c' = c_rode c"
  shows "unregistered teb p fd t"
  using assms dom_None [OF assms(4), of p] by (cases "u = teb") (auto simp: unregistered_def)

lemma unregistered_spawn:
  assumes un: "unregistered teb p fd s" and inv: "spawn_inv s" and f: "unused_answers b s"
  shows "unregistered teb p fd (snd (spawn_process_inproc b q s))"
proof (rule spawn_cases [OF inv f, of q])
  fix st t
  assume r: "spawn_process_inproc b q s = (st, t)" "restored s t"
  show ?thesis
    using un r restored_sel [OF r(2)]
    by (auto simp: restored_def intro: unregistered_keep)
next
  fix t u
  assume o: "spawn_process_inproc b q s = (STATUS_SUCCESS, t\<lparr>children := (children s)(u := Some (new_child b))\<rparr>)"
    "spawned b q s t" "children s u = None"
  note e = spawned_sel [OF o(2)]
  have "unmapped s (a_peb b)" using o(2) by (simp add: spawned_def)
  then have ne: "a_peb b \<noteq> p" "u \<noteq> teb" using un o(3) by (auto simp: unregistered_def unmapped_def)
  then have "srv t p = None" using o(2) un by (simp add: spawned_def unregistered_def)
  then show ?thesis using un ne unfolding o(1) by (auto simp: unregistered_def e)
qed

lemma unregistered_attaches:
  assumes un: "unregistered teb p fd s" and inv: "spawn_inv s" and c: "children s u = Some c"
  shows "unregistered teb p fd (child_attach r u c s)"
proof (rule attach_view [OF spawn_invD(1) [OF inv] c, of r])
  fix c'
  let ?t = "child_attach r u c s"
  assume v: "same_view s ?t" "children ?t = (children s)(u := Some c')" "c_peb c' = c_peb c"
    "c_rode c' = Some (current_server_fd (fd_socket s) (proc_server_fds s) (c_peb c))"
  then have e: "fd_socket ?t = fd_socket s" "srv ?t = srv s" "dom (pebs ?t) = dom (pebs s)"
    by (simp_all add: same_view_def)
  show ?thesis
  proof (cases "u = teb")
    case True
    have "p \<noteq> 0" using un spawn_invD(2) [OF inv] by (auto simp: unregistered_def primary_ok_def)
    with True un c v(2-4) e dom_None [OF e(3), of p] show ?thesis
      by (simp add: unregistered_def current_server_fd_def table_find_bound)
  next
    case False
    then show ?thesis using unregistered_keep [OF un e(1,2) dom_None [OF e(3)]] v(2) by simp
  qed
qed

lemma unregistered_build:
  assumes un: "unregistered teb p fd s" and c: "children s u = Some c" "c_pc c \<noteq> Starting"
  shows "unregistered teb p fd (child_build st params base entry u c s)"
proof (cases "st = STATUS_SUCCESS")
  case False
  with un c show ?thesis by (auto simp: child_build_def unregistered_def)
next
  case True
  have "dom (pebs (child_build st params base entry u c s)) = dom (pebs s)"
    using True by (auto simp: child_build_def Let_def)
  with True un c show ?thesis
    by (intro unregistered_move [OF un _ _ _ c, of _ "c\<lparr>c_pc := Built\<rparr>"])
      (auto simp: child_build_def Let_def unregistered_def)
qed

lemma unregistered_pc:
  assumes "unregistered teb p fd s" "children s u = Some c" "c_pc c \<noteq> Starting"
  shows "unregistered teb p fd (upd_child u (\<lambda>c. c\<lparr>c_pc := n\<rparr>) s)"
  using assms by (intro unregistered_move [OF assms(1) _ _ _ assms(2,3), of _ "c\<lparr>c_pc := n\<rparr>"])
    (auto simp: unregistered_def)

lemma unregistered_exit:
  assumes "unregistered teb p fd s" "children s u = Some c" "c_pc c \<noteq> Starting" "child_exit e st u s = Some t"
  shows "unregistered teb p fd t"
proof -
  have "t = upd_child u (\<lambda>c. c\<lparr>c_pc := Exited\<rparr>) (shut_fd (fd_socket s) s)"
    using assms(4) by (auto simp: child_exit_def process_exit_wrapper_def split: if_splits)
  with unregistered_pc [of teb p fd "shut_fd (fd_socket s) s" u c Exited] assms show ?thesis
    by (simp add: unregistered_def)
qed

lemma unregistered_detaches:
  assumes un: "unregistered teb p fd s" and inv: "spawn_inv s" and c: "children s u = Some c" "c_pc c = Detaching"
  shows "unregistered teb p fd (child_detach u c s)"
proof (rule detach_view [OF inv c])
  let ?t = "child_detach u c s"
  assume v: "srv ?t = (srv s)(c_peb c := None)" "pebs ?t = pebs s" "fd_socket ?t = fd_socket s"
    "children ?t = (children s)(u := Some (c\<lparr>c_pc := Gone\<rparr>))"
  show ?thesis
    by (rule unregistered_move [OF un v(3) _ _ c(1) _ v(4)])
      (use un c(2) v in \<open>simp_all add: unregistered_def\<close>)
qed

lemma unregistered_view:
  assumes "unregistered teb p fd s" "same_view s t \<and> children t = children s"
  shows "unregistered teb p fd t"
  using assms(2) dom_None [of "pebs t" "pebs s" p]
  by (intro unregistered_keep [OF assms(1)]) (simp_all add: same_view_def)

lemma unregistered_step:
  assumes inv: "spawn_inv s" and un: "unregistered teb p fd s" and st: "spawn_step s a t"
  shows "unregistered teb p fd t"
proof (cases a)
  case (Spawns who b)
  with st un inv show ?thesis by (auto intro: unregistered_spawn)
next
  case (Attaches u r)
  with st un inv show ?thesis by (auto dest!: at_pcD intro: unregistered_attaches)
next
  case (Builds u su)
  with st have "spawn_step s (Builds u su) t" by simp
  then show ?thesis by (rule builds_cases) (use unregistered_build [OF un] in simp)
next
  case (Finishes u st')
  with st obtain c where "children s u = Some c" "c_pc c = Built" "t = child_done st' u s"
    by (auto dest!: at_pcD)
  with unregistered_pc [OF un, of u c] show ?thesis by (simp add: child_done_def)
next
  case (Enters u en)
  with st obtain c where "children s u = Some c" "c_pc c = Entering" "t = child_enter en u s"
    by (auto dest!: at_pcD)
  with unregistered_pc [OF un, of u c] show ?thesis by (simp add: child_enter_def)
next
  case (Detaches u)
  with st un inv show ?thesis by (auto dest!: at_pcD intro: unregistered_detaches)
next
  case (Exits u e status)
  with st obtain c where "children s u = Some c" "c_pc c = Running" "child_exit e status u s = Some t"
    by (auto dest!: at_pcD)
  with unregistered_exit [OF un, of u c] show ?thesis by simp
next
  case (Caches who mem k ent)
  with st obtain q ok where "caller who s = Some q" "cache_add q mem k ent s = Some (ok, t)" by auto
  with unregistered_view [OF un] cache_step_view(1) [OF inv] show ?thesis by blast
next
  case (Uncaches who k)
  with st obtain q where "caller who s = Some q" "t = cache_remove q k s" by auto
  with unregistered_view [OF un] cache_step_view(2) [OF inv] show ?thesis by blast
next
  case (Looks_up who k r)
  with st un show ?thesis by auto
qed

lemma unregistered_resolves:
  assumes "spawn_inv s" "unregistered teb p fd s"
  shows "current_server_fd (fd_socket s) (proc_server_fds s) p = fd_socket s"
proof -
  have "p \<noteq> 0" using assms(2) spawn_invD(2) [OF assms(1)] by (auto simp: unregistered_def primary_ok_def)
  with assms(2) show ?thesis by (simp add: unregistered_def current_server_fd_def table_find_bound)
qed

text \<open>Its detach closes the server socket of the host, and nothing else if it holds nothing else.\<close>

lemma unregistered_detach:
  assumes inv: "spawn_inv v" and un: "unregistered teb p fd v" and st: "spawn_step v (Detaches teb) w"
  shows "fd_socket w = fd \<and> opened w fd = None"
    and "\<lbrakk>children v teb = Some c; pipe_fds c = []; \<And>b. cch v p = Some b \<Longrightarrow> caches v b = Some (\<lambda>_. None);
      x \<noteq> fd\<rbrakk> \<Longrightarrow> opened w x = opened v x"
proof -
  obtain d where d: "children v teb = Some d" "c_pc d = Detaching" "w = child_detach teb d v" "c_peb d = p"
    using st un by (auto simp: unregistered_def dest!: at_pcD)
  note conn = unregistered_resolves [OF inv un]
  have s: "fd_socket v \<noteq> -1" "fd_socket v = fd"
    using spawn_invD(2) [OF inv] un by (simp_all add: primary_ok_def unregistered_def)
  show "fd_socket w = fd \<and> opened w fd = None"
    by (rule detach_view [OF inv d(1,2)]) (use s conn d(3,4) in simp)
  assume c: "children v teb = Some c" "pipe_fds c = []" and x: "x \<noteq> fd"
    and empty: "\<And>b. cch v p = Some b \<Longrightarrow> caches v b = Some (\<lambda>_. None)"
  have cd: "c = d" using c(1) d(1) by simp
  show "opened w x = opened v x"
  proof (rule detach_view [OF inv d(1,2)])
    fix b
    assume b: "cch v (c_peb d) = Some b"
      and op: "\<And>fd. opened (child_detach teb d v) fd =
         (if fd \<noteq> -1 \<and> fd = current_server_fd (fd_socket v) (proc_server_fds v) (c_peb d) \<or>
            (\<exists>k \<in> set (List.product [0..<FD_CACHE_ENTRIES] [0..<FD_CACHE_BLOCK_SIZE]).
               cache_holds (the (caches v b)) k fd) \<or> fd \<in> set (pipe_fds d) then None else opened v fd)"
    have nh: "\<not> cache_holds (the (caches v b)) k y" for k y
      using empty b d(4) by (simp add: cache_holds_def)
    show ?thesis unfolding d(3) op d(4) conn using nh c(2) cd s x by simp
  qed
qed

text \<open>What a spawn into a full table leaves.\<close>

lemma full_spawn:
  assumes inv: "spawn_inv t" and full: "card (dom (srv t) - {primary t}) = 63"
    and f: "unused_answers a t" and ok: "spawn_process_inproc a p t = (STATUS_SUCCESS, u)"
  obtains teb where "a_teb a = Inr teb" "unregistered teb (a_peb a) (fd_socket t) u"
    "children u teb = Some (new_child a)" "opened u = (opened t)(a_dup a := Some (Conn (a_peb a)))"
    "cch u (a_peb a) = Some (a_cache a)" "caches u (a_cache a) = Some (\<lambda>_. None)"
    "fresh_fd t (a_dup a)" "spawn_inv u"
proof (rule spawn_cases [OF inv f, of p])
  fix s teb
  assume o: "spawn_process_inproc a p t = (STATUS_SUCCESS, s\<lparr>children := (children t)(teb := Some (new_child a))\<rparr>)"
    "spawned a p t s" "children t teb = None" "a_teb a = Inr teb"
  have "srv t (primary t) \<noteq> None" using spawn_invD(2) [OF inv] by (simp add: primary_ok_def)
  then have pr: "primary t \<in> dom (srv t)" by auto
  have "finite (dom (srv t) - {primary t})" using full by (metis card.infinite zero_neq_numeral)
  then have "finite (dom (srv t))" by simp
  from card.remove [OF this pr] full have "card (dom (srv t)) = 64" by simp
  then have room: "\<not> table_room (proc_server_fds t)" using room_iff(1) [OF inv] by simp
  note e = spawned_sel [OF o(2)] and S = o(2) [unfolded spawned_def]
  have u: "u = s\<lparr>children := (children t)(teb := Some (new_child a))\<rparr>" using ok o(1) by simp
  have un: "unmapped t (a_peb a)" using S by blast
  have v: "srv u (a_peb a) = None" "cch u (a_peb a) = Some (a_cache a)"
    using S room unmapped_unbound(1) [OF inv un] by (simp_all add: u)
  have ch: "children u teb = Some (new_child a)" by (simp add: u)
  show ?thesis
  proof (rule that [OF o(4) _ ch _ v(2)])
    show "unregistered teb (a_peb a) (fd_socket t) u"
      using v(1) ch by (simp add: unregistered_def new_child_def u e)
    show "opened u = (opened t)(a_dup a := Some (Conn (a_peb a)))"
      "caches u (a_cache a) = Some (\<lambda>_. None)" by (simp_all add: u e)
    show "fresh_fd t (a_dup a)" using S by blast
    show "spawn_inv u" unfolding u by (rule spawned_inv [OF inv o(2,3)])
  qed
qed (use ok in simp)

text \<open>C34: the table of server sockets, which the first process is in too, is one slot short of
  the table of handle caches. In every run, when 63 other processes are registered and another
  spawn succeeds, the new child is not registered, and never will be: from then on its server
  socket resolves to that of the first process, its handshake goes over that socket, and when
  the child detaches it closes that socket. Its own connection is leaked, here shown when its
  handshake fails at once: it is still open after the detach.\<close>
theorem full_table_child_rides_primary:
  assumes start: "spawn_start s" and run: "execution spawn_step s ls t"
    and full: "card (dom (srv t) - {primary t}) = 63"
    and "caller who t = Some p" "unused_answers a t" "spawn_process_inproc a p t = (STATUS_SUCCESS, u)"
    and later: "execution spawn_step u ls' v"
  shows "\<exists>teb c. a_teb a = Inr teb \<and> children v teb = Some c \<and> c_peb c = a_peb a \<and>
    srv v (a_peb a) = None \<and> srv v (primary v) = Some (fd_socket v) \<and>
    current_server_fd (fd_socket v) (proc_server_fds v) (a_peb a) = fd_socket v \<and>
    (c_pc c = Starting \<or> c_rode c = Some (fd_socket v)) \<and>
    (\<forall>w. spawn_step v (Detaches teb) w \<longrightarrow> opened w (fd_socket w) = None) \<and>
    (\<forall>r w. opened t (fd_socket t) \<noteq> None \<and> r_fd r = -1 \<and>
       execution spawn_step u [Attaches teb r, Detaches teb] w \<longrightarrow>
       opened w (fd_socket w) = None \<and> opened w (a_dup a) = Some (Conn (a_peb a)))"
proof -
  have inv: "spawn_inv t" using spawns.reachable_inv [OF start run] .
  show ?thesis
  proof (rule full_spawn [OF inv full assms(5,6)])
    fix teb
    assume teb: "a_teb a = Inr teb" and un: "unregistered teb (a_peb a) (fd_socket t) u"
      and u: "children u teb = Some (new_child a)" "opened u = (opened t)(a_dup a := Some (Conn (a_peb a)))"
        "cch u (a_peb a) = Some (a_cache a)" "caches u (a_cache a) = Some (\<lambda>_. None)"
        "fresh_fd t (a_dup a)" "spawn_inv u"
    have uv: "unregistered teb (a_peb a) (fd_socket t) v"
      by (rule spawns.execution_stable [where P = "unregistered teb (a_peb a) (fd_socket t)",
            OF _ later u(6) un]) (rule unregistered_step)
    have iv: "spawn_inv v" using spawns.execution_inv [OF later u(6)] .
    have leak: "opened w (fd_socket w) = None \<and> opened w (a_dup a) = Some (Conn (a_peb a))"
      if o: "opened t (fd_socket t) \<noteq> None" and r: "r_fd r = -1"
        and ex: "execution spawn_step u [Attaches teb r, Detaches teb] w" for r w
    proof -
      let ?x = "child_attach r teb (new_child a) u"
      obtain y where y: "spawn_step u (Attaches teb r) y" "spawn_step y (Detaches teb) w"
        using ex by (simp only: execution_Cons execution_Nil) blast
      then have "y = ?x" using u(1) by (auto dest!: at_pcD)
      with y have st: "spawn_step u (Attaches teb r) ?x" "spawn_step ?x (Detaches teb) w" by simp_all
      have x: "spawn_inv ?x" "unregistered teb (a_peb a) (fd_socket t) ?x"
        using spawn_step_inv [OF st(1) u(6)] unregistered_step [OF u(6) un st(1)] by auto
      have ne: "a_dup a \<noteq> fd_socket t" using o u(5) by (auto simp: fresh_fd_def)
      obtain c where c: "children ?x teb = Some c" "pipe_fds c = []" "opened ?x = opened u"
        "proc_fd_caches ?x = proc_fd_caches u" "caches ?x = caches u"
        using r u(1) by (simp add: child_attach_def server_init_process_inproc_def Let_def pipe_fds_def new_child_def)
      have "opened w (a_dup a) = opened ?x (a_dup a)"
        by (rule unregistered_detach(2) [OF x st(2) c(1,2) _ ne]) (use c(4,5) u(3,4) in simp)
      with unregistered_detach(1) [OF x st(2)] c(3) u(2) show ?thesis by simp
    qed
    have "srv v (primary v) = Some (fd_socket v)" using spawn_invD(2) [OF iv] by (simp add: primary_ok_def)
    moreover have fd: "fd_socket v = fd_socket t" "srv v (a_peb a) = None" using uv by (simp_all add: unregistered_def)
    moreover obtain c where "children v teb = Some c" "c_peb c = a_peb a"
      "c_pc c = Starting \<or> c_rode c = Some (fd_socket v)" using uv by (auto simp: unregistered_def)
    moreover have "opened w (fd_socket w) = None" if "spawn_step v (Detaches teb) w" for w
      using unregistered_detach(1) [OF iv uv that] by simp
    ultimately show ?thesis using teb unregistered_resolves [OF iv uv] leak
      by (intro exI [of _ teb] exI [of _ c]) blast
  qed
qed

text \<open>The table filled by 63 children of the first process, and one more.\<close>

theorem full_table_child_rides_primary_witness:
  "\<exists>ls t u w. execution spawn_step first_host ls t \<and> card (dom (srv t) - {primary t}) = 63 \<and>
     spawn_process_inproc (nth_answers 63) (primary t) t = (STATUS_SUCCESS, u) \<and>
     execution spawn_step u [Attaches (nth_addr 255) bad_attach, Detaches (nth_addr 255)] w \<and>
     opened w (fd_socket w) = None \<and> opened w (a_dup (nth_answers 63)) \<noteq> None"
proof -
  let ?a = "nth_answers 63" and ?teb = "nth_addr 255"
  obtain ls s where s: "execution spawn_step first_host ls s" "spawn_inv s" "spare 63 s" "finite (dom (srv s))"
    "card (dom (srv s)) = 64" "card (dom (cch s)) = 63" "fd_socket s = 3" "primary s = 16"
    "opened s 3 = Some (Conn 16)" using fill_tables [of 63] by auto
  have "srv s (primary s) \<noteq> None" using spawn_invD(2) [OF s(2)] by (simp add: primary_ok_def)
  then have full: "card (dom (srv s) - {primary s}) = 63" using s(4,5) by (auto simp: domIff)
  have fresh: "unused_answers ?a s" by (rule nth_fresh [OF s(3)]) simp
  have un: "unmapped s (nth_addr k)" if "252 \<le> k" "k < 1000" for k using s(3) that by (simp add: spare_def)
  have "fst (spawn_process_inproc ?a (primary s) s) = STATUS_SUCCESS"
    using un [of 252] un [of 253] un [of 254] room_iff(2) [OF s(2)] s(6)
    unfolding spawn_status [OF s(2) fresh] by (simp add: spawn_can_def nth_answers_def unmapped_def)
  then obtain u where u: "spawn_process_inproc ?a (primary s) s = (STATUS_SUCCESS, u)" by (metis prod.collapse)
  have c: "caller None s = Some (primary s)" by simp
  have teb: "a_teb ?a = Inr ?teb" by (simp add: nth_answers_def)
  obtain w where w: "execution spawn_step u [Attaches ?teb bad_attach, Detaches ?teb] w"
  proof (rule full_spawn [OF s(2) full fresh u])
    fix teb'
    assume "a_teb ?a = Inr teb'" "children u teb' = Some (new_child ?a)"
    then have ch: "children u ?teb = Some (new_child ?a)" by (simp add: nth_answers_def)
    let ?x = "child_attach bad_attach ?teb (new_child ?a) u"
    have st: "spawn_step u (Attaches ?teb bad_attach) ?x"
      using ch by (simp add: at_pc_def new_child_def bad_attach_def)
    obtain d where "at_pc ?teb ((=) Detaching) ?x = Some d"
      using ch by (simp add: child_attach_def server_init_process_inproc_def Let_def bad_attach_def at_pc_def)
    then have "spawn_step ?x (Detaches ?teb) (child_detach ?teb d ?x)" by simp
    with st that show ?thesis by (simp only: execution_Cons execution_Nil) blast
  qed
  have r: "r_fd bad_attach = -1" "opened s (fd_socket s) \<noteq> None" using s(7,9) by (simp_all add: bad_attach_def)
  from full_table_child_rides_primary [OF first_spawn_start s(1) full c fresh u execution.stop] teb
  have "opened w (fd_socket w) = None \<and> opened w (a_dup ?a) = Some (Conn (a_peb ?a))"
    using w r by (metis sum.inject(2))
  with s(1) full u w show ?thesis by blast
qed

theorem children_share_nothing_witness:
  "\<exists>ls t. execution spawn_step first_host ls t \<and> children t (nth_addr 3) \<noteq> None \<and> children t (nth_addr 7) \<noteq> None \<and>
     current_image_info (main_image_info t) (proc_image_infos t) (nth_addr 0) \<noteq>
     current_image_info (main_image_info t) (proc_image_infos t) (nth_addr 4)"
proof -
  obtain ls t where t: "execution spawn_step first_host ls t"
    "\<forall>k<2. children t (nth_addr (4 * k + 3)) = Some (new_child (nth_answers k))"
    using fill_tables [of 2] by auto
  have c: "children t (nth_addr 3) = Some (new_child (nth_answers 0))"
    "children t (nth_addr 7) = Some (new_child (nth_answers 1))"
    using t(2) [rule_format, of 0] t(2) [rule_format, of 1] by simp_all
  have pc: "c_pc (new_child (nth_answers k)) \<noteq> Gone" "c_peb (new_child (nth_answers k)) = nth_addr (4 * k)" for k
    by (simp_all add: new_child_def nth_answers_def)
  have "nth_addr 3 \<noteq> nth_addr 7" by (simp add: nth_addr_inj)
  from children_share_nothing [OF first_spawn_start t(1) c(1) pc(1) c(2) pc(1) this] t(1) c pc
  show ?thesis by auto
qed

end
