(* ===== verification/LoaderState.thy ===== *)
theory LoaderState
  imports InprocSpawn
begin

text \<open>
  The loader's state of each Windows process in the one host process: \<^verbatim>\<open>ldr_state\<close> and
  \<^verbatim>\<open>loader_init\<close> of \<^verbatim>\<open>native/patches/0003-inproc-spawn-and-peb.patch\<close> (part
  0003g, \<^verbatim>\<open>dlls/ntdll/loader.c\<close>).

  \<^verbatim>\<open>loader_init\<close> runs under \<^verbatim>\<open>loader_section\<close> but for its first test, so a call
  is one step; the first test reads a flag that \<^verbatim>\<open>loader_init\<close> does not write. Of a block
  the model has the fields that decide what \<^verbatim>\<open>loader_init\<close> does.
\<close>

section \<open>State and operations\<close>

record ldr_proc_state =
  s_tls_module_count :: u32
  s_imports_fixup_done :: bool
  s_attach_done :: bool
  s_process_detaching :: bool

text \<open>\<^verbatim>\<open>peb->LdrData\<close>: NULL, the static block of the first process, or one of the heap.\<close>

datatype ldr_data = Null | Primary_block | Heap_block ptr

record loader =
  primary_ldr_state :: ldr_proc_state
  primary_claimed :: bool
  heap_blocks :: "ptr \<Rightarrow> ldr_proc_state option"
  LdrData :: "ptr \<Rightarrow> ldr_data" \<comment> \<open>by PEB\<close>

definition new_block :: ldr_proc_state where
  "new_block = \<lparr>s_tls_module_count = 32, s_imports_fixup_done = False, s_attach_done = False,
     s_process_detaching = False\<rparr>"

definition start_loader :: loader where
  "start_loader = \<lparr>primary_ldr_state = new_block, primary_claimed = False, heap_blocks = (\<lambda>_. None),
     LdrData = (\<lambda>_. Null)\<rparr>"

definition ldr_state :: "ptr \<Rightarrow> loader \<Rightarrow> ldr_proc_state" where
  "ldr_state p s =
     (case LdrData s p of
        Null \<Rightarrow> primary_ldr_state s
      | Primary_block \<Rightarrow> primary_ldr_state s
      | Heap_block b \<Rightarrow> the (heap_blocks s b))"

definition set_ldr_state :: "ptr \<Rightarrow> (ldr_proc_state \<Rightarrow> ldr_proc_state) \<Rightarrow> loader \<Rightarrow> loader" where
  "set_ldr_state p f s =
     (case LdrData s p of
        Null \<Rightarrow> s\<lparr>primary_ldr_state := f (primary_ldr_state s)\<rparr>
      | Primary_block \<Rightarrow> s\<lparr>primary_ldr_state := f (primary_ldr_state s)\<rparr>
      | Heap_block b \<Rightarrow> s\<lparr>heap_blocks := (heap_blocks s)(b := Some (f (the (heap_blocks s b))))\<rparr>)"

text \<open>\<open>b\<close> is what \<^verbatim>\<open>RtlAllocateHeap\<close> returns; \<open>None\<close>: it returned NULL.\<close>

definition install_block :: "ptr \<Rightarrow> ptr \<Rightarrow> loader \<Rightarrow> loader option" where
  "install_block p b s =
     (if LdrData s p \<noteq> Null then Some s
      else if \<not> primary_claimed s
      then Some (s\<lparr>primary_claimed := True, LdrData := (LdrData s)(p := Primary_block)\<rparr>)
      else if b = 0 then None
      else Some (s\<lparr>heap_blocks := (heap_blocks s)(b := Some new_block), LdrData := (LdrData s)(p := Heap_block b)\<rparr>))"

text \<open>How the call ends: what it does to the calling thread or its process.\<close>

datatype loader_end = Thread_terminated | Process_terminated ntstatus | Process_attached | Thread_attached

text \<open>\<open>fixup\<close>: the result of building the main module and fixing the imports up, \<open>tls\<close>: of
  \<^verbatim>\<open>alloc_thread_tls\<close> and the attaching.\<close>

definition loader_init :: "ptr \<Rightarrow> ptr \<Rightarrow> ntstatus \<Rightarrow> ntstatus \<Rightarrow> loader \<Rightarrow> loader_end \<times> loader" where
  "loader_init p b fixup tls s =
     (if s_process_detaching (ldr_state p s) then (Thread_terminated, s)
      else case install_block p b s of
        None \<Rightarrow> (Process_terminated STATUS_NO_MEMORY, s)
      | Some s1 \<Rightarrow>
          if \<not> s_imports_fixup_done (ldr_state p s1) \<and> fixup \<noteq> STATUS_SUCCESS
          then (Process_terminated fixup, s1)
          else
            let s2 = set_ldr_state p (\<lambda>d. d\<lparr>s_imports_fixup_done := True\<rparr>) s1
            in if s_attach_done (ldr_state p s2) then (Thread_attached, s2)
               else let s3 = set_ldr_state p (\<lambda>d. d\<lparr>s_attach_done := True\<rparr>) s2
               in if tls \<noteq> STATUS_SUCCESS then (Process_terminated tls, s3) else (Process_attached, s3))"

text \<open>\<^verbatim>\<open>LdrShutdownProcess\<close> sets the flag through the macro of the patch.\<close>

definition start_detaching :: "ptr \<Rightarrow> loader \<Rightarrow> loader" where
  "start_detaching p = set_ldr_state p (\<lambda>d. d\<lparr>s_process_detaching := True\<rparr>)"

datatype loader_act =
    Enters_loader ptr ptr ntstatus ntstatus loader_end
  | Shuts_down ptr

fun loader_step :: "loader \<Rightarrow> loader_act \<Rightarrow> loader \<Rightarrow> bool" where
  "loader_step s (Enters_loader p b fixup tls r) t \<longleftrightarrow>
     p \<noteq> 0 \<and> (b = 0 \<or> heap_blocks s b = None) \<and> (r, t) = loader_init p b fixup tls s"
| "loader_step s (Shuts_down p) t \<longleftrightarrow> LdrData s p \<noteq> Null \<and> t = start_detaching p s"

section \<open>Each process has its own block\<close>

definition loader_inv :: "loader \<Rightarrow> bool" where
  "loader_inv s \<longleftrightarrow> (\<forall>p b. LdrData s p = Heap_block b \<longrightarrow> heap_blocks s b \<noteq> None) \<and>
     (\<forall>p q b. LdrData s p = Heap_block b \<longrightarrow> LdrData s q = Heap_block b \<longrightarrow> p = q) \<and>
     (\<forall>p q. LdrData s p = Primary_block \<longrightarrow> LdrData s q = Primary_block \<longrightarrow> p = q) \<and>
     (primary_claimed s \<longleftrightarrow> (\<exists>p. LdrData s p = Primary_block)) \<and>
     (\<not> primary_claimed s \<longrightarrow> (\<forall>p. LdrData s p = Null) \<and> primary_ldr_state s = new_block)"

lemma set_ldr_state_sel [simp]:
  "LdrData (set_ldr_state p f s) = LdrData s" "primary_claimed (set_ldr_state p f s) = primary_claimed s"
  by (simp_all add: set_ldr_state_def split: ldr_data.split)

lemma loader_invD:
  assumes "loader_inv s"
  shows "LdrData s p = Heap_block b \<Longrightarrow> heap_blocks s b \<noteq> None"
    "LdrData s p = Heap_block b \<Longrightarrow> LdrData s q = Heap_block b \<Longrightarrow> p = q"
    "LdrData s p = Primary_block \<Longrightarrow> LdrData s q = Primary_block \<Longrightarrow> p = q"
    "primary_claimed s \<longleftrightarrow> (\<exists>p. LdrData s p = Primary_block)"
    "\<not> primary_claimed s \<Longrightarrow> LdrData s p = Null" "\<not> primary_claimed s \<Longrightarrow> primary_ldr_state s = new_block"
  using assms unfolding loader_inv_def by blast+

lemma set_ldr_state_inv:
  assumes "loader_inv s" "LdrData s p \<noteq> Null"
  shows "loader_inv (set_ldr_state p f s)"
proof -
  note I = loader_invD [OF assms(1)]
  have c: "primary_claimed s" using I(5) [of p] assms(2) by blast
  have "heap_blocks (set_ldr_state p f s) b \<noteq> None" if "LdrData s q = Heap_block b" for q b
    using I(1) [OF that] by (simp add: set_ldr_state_def split: ldr_data.split)
  with I(2-4) c show ?thesis unfolding loader_inv_def set_ldr_state_sel by blast
qed

lemma ldr_state_set:
  assumes inv: "loader_inv s" and "LdrData s p \<noteq> Null" "LdrData s q \<noteq> Null"
  shows "ldr_state q (set_ldr_state p f s) = (if q = p then f (ldr_state p s) else ldr_state q s)"
proof (cases "q = p")
  case True
  with assms(2) show ?thesis by (cases "LdrData s p") (simp_all add: set_ldr_state_def ldr_state_def)
next
  case False
  with loader_invD(2,3) [OF inv] assms(2,3) show ?thesis
    by (cases "LdrData s p"; cases "LdrData s q") (auto simp: set_ldr_state_def ldr_state_def)
qed

lemma install_block_cases:
  assumes inv: "loader_inv s" and b: "b = 0 \<or> heap_blocks s b = None"
  obtains (none) "install_block p b s = None" "LdrData s p = Null"
    | (had) "install_block p b s = Some s" "LdrData s p \<noteq> Null"
    | (new) t where "install_block p b s = Some t" "LdrData s p = Null" "loader_inv t" "LdrData t p \<noteq> Null"
        "ldr_state p t = new_block" "\<And>q. q \<noteq> p \<Longrightarrow> LdrData t q = LdrData s q"
        "\<And>q. q \<noteq> p \<Longrightarrow> LdrData s q \<noteq> Null \<Longrightarrow> ldr_state q t = ldr_state q s"
proof (cases "LdrData s p = Null")
  case False
  with had show ?thesis by (simp add: install_block_def)
next
  case null: True
  note I = loader_invD [OF inv]
  show ?thesis
  proof (cases "primary_claimed s")
    case False
    let ?t = "s\<lparr>primary_claimed := True, LdrData := (LdrData s)(p := Primary_block)\<rparr>"
    note f = I(5,6) [OF False]
    with null False have "install_block p b s = Some ?t" by (simp add: install_block_def)
    moreover have "loader_inv ?t" using f by (simp add: loader_inv_def)
    ultimately show ?thesis using f null by (intro new [of ?t]) (simp_all add: ldr_state_def)
  next
    case True
    show ?thesis
    proof (cases "b = 0")
      case b0: True
      with True null none show ?thesis by (simp add: install_block_def)
    next
      case False
      let ?t = "s\<lparr>heap_blocks := (heap_blocks s)(b := Some new_block), LdrData := (LdrData s)(p := Heap_block b)\<rparr>"
      from b False have bn: "heap_blocks s b = None" by simp
      have ne: "LdrData s q \<noteq> Heap_block b" for q using I(1) bn by blast
      have "install_block p b s = Some ?t" using null True False by (simp add: install_block_def)
      moreover have "loader_inv ?t"
        unfolding loader_inv_def
      proof (intro conjI)
        show "\<forall>q c. LdrData ?t q = Heap_block c \<longrightarrow> heap_blocks ?t c \<noteq> None"
          using I(1) by simp
        show "\<forall>q r c. LdrData ?t q = Heap_block c \<longrightarrow> LdrData ?t r = Heap_block c \<longrightarrow> q = r"
          using I(2) ne by auto
        show "\<forall>q r. LdrData ?t q = Primary_block \<longrightarrow> LdrData ?t r = Primary_block \<longrightarrow> q = r"
          using I(3) by simp
        obtain r where "LdrData s r = Primary_block" using I(4) True by blast
        moreover from this null have "r \<noteq> p" by auto
        ultimately have "LdrData ?t r = Primary_block" by simp
        then show "primary_claimed ?t \<longleftrightarrow> (\<exists>q. LdrData ?t q = Primary_block)" using True by (auto intro: exI [of _ r])
        show "\<not> primary_claimed ?t \<longrightarrow> (\<forall>q. LdrData ?t q = Null) \<and> primary_ldr_state ?t = new_block"
          using True by simp
      qed
      ultimately show ?thesis
        using ne by (intro new [of ?t]) (auto simp: null ldr_state_def split: ldr_data.split)
    qed
  qed
qed

text \<open>What a call of \<^verbatim>\<open>loader_init\<close> does for its process, and that it does nothing for the others.\<close>

definition attach_done :: "ptr \<Rightarrow> loader \<Rightarrow> bool" where
  "attach_done p s \<longleftrightarrow> LdrData s p \<noteq> Null \<and> s_attach_done (ldr_state p s)"

definition set_done :: "ptr \<Rightarrow> loader \<Rightarrow> loader" where
  "set_done p = set_ldr_state p (\<lambda>d. d\<lparr>s_imports_fixup_done := True\<rparr>)"

lemma loader_init_cases:
  assumes inv: "loader_inv s" and b: "b = 0 \<or> heap_blocks s b = None"
    and init: "loader_init p b fixup tls s = (r, t)"
  obtains (same) "t = s" "r \<noteq> Process_attached" "r \<noteq> Thread_attached"
    | (failed) "install_block p b s = Some t" "r \<noteq> Process_attached" "r \<noteq> Thread_attached"
    | (thread) s1 where "install_block p b s = Some s1" "attach_done p (set_done p s1)" "t = set_done p s1"
        "r = Thread_attached"
    | (attached) s1 where "install_block p b s = Some s1" "\<not> attach_done p (set_done p s1)"
        "t = set_ldr_state p (\<lambda>d. d\<lparr>s_attach_done := True\<rparr>) (set_done p s1)" "r \<noteq> Thread_attached"
proof (cases "s_process_detaching (ldr_state p s) \<or> install_block p b s = None")
  case True
  with init same show ?thesis by (auto simp: loader_init_def split: option.splits if_splits)
next
  case False
  then obtain s1 where s1: "install_block p b s = Some s1" by blast
  have nn: "LdrData s1 p \<noteq> Null" by (rule install_block_cases [OF inv b, of p]) (use s1 in auto)
  show ?thesis
  proof (cases "\<not> s_imports_fixup_done (ldr_state p s1) \<and> fixup \<noteq> STATUS_SUCCESS")
    case True
    with init s1 False have "r = Process_terminated fixup" "t = s1" by (simp_all add: loader_init_def)
    with s1 failed show ?thesis by simp
  next
    case f: False
    show ?thesis
    proof (cases "attach_done p (set_done p s1)")
      case True
      then have "s_attach_done (ldr_state p (set_done p s1))" by (simp add: attach_done_def)
      with init s1 False f True thread show ?thesis by (auto simp: loader_init_def Let_def set_done_def)
    next
      case na: False
      then have "\<not> s_attach_done (ldr_state p (set_done p s1))"
        using nn by (simp add: attach_done_def set_done_def)
      with init s1 False f na attached show ?thesis
        by (auto simp: loader_init_def Let_def set_done_def split: if_splits)
    qed
  qed
qed

lemma install_block_effect:
  assumes inv: "loader_inv s" and b: "b = 0 \<or> heap_blocks s b = None" and i: "install_block p b s = Some t"
  shows "loader_inv t \<and> LdrData t p \<noteq> Null \<and> (attach_done q t \<longleftrightarrow> attach_done q s) \<and>
    (q \<noteq> p \<longrightarrow> LdrData t q = LdrData s q \<and> (LdrData s q \<noteq> Null \<longrightarrow> ldr_state q t = ldr_state q s))"
proof (rule install_block_cases [OF inv b, of p])
  fix t'
  assume n: "install_block p b s = Some t'" "LdrData s p = Null" "loader_inv t'" "LdrData t' p \<noteq> Null"
    "ldr_state p t' = new_block" "\<And>q. q \<noteq> p \<Longrightarrow> LdrData t' q = LdrData s q"
    "\<And>q. q \<noteq> p \<Longrightarrow> LdrData s q \<noteq> Null \<Longrightarrow> ldr_state q t' = ldr_state q s"
  then have "attach_done q t' \<longleftrightarrow> attach_done q s"
    by (cases "q = p") (auto simp: attach_done_def new_block_def)
  with n i show ?thesis by simp
qed (use i inv in auto)

lemma set_done_effect:
  assumes "loader_inv s" "LdrData s p \<noteq> Null" and f: "\<And>d. s_attach_done (f d) = g (s_attach_done d)"
  shows "loader_inv (set_ldr_state p f s) \<and>
    (attach_done q (set_ldr_state p f s) \<longleftrightarrow> (if q = p then g (s_attach_done (ldr_state p s)) else attach_done q s)) \<and>
    (q \<noteq> p \<longrightarrow> LdrData s q \<noteq> Null \<longrightarrow> ldr_state q (set_ldr_state p f s) = ldr_state q s)"
proof -
  have "attach_done q (set_ldr_state p f s) \<longleftrightarrow> (if q = p then g (s_attach_done (ldr_state p s)) else attach_done q s)"
    using ldr_state_set [OF assms(1,2), of q f] f assms(2)
    by (cases "LdrData s q = Null") (auto simp: attach_done_def)
  with set_ldr_state_inv [OF assms(1,2)] ldr_state_set [OF assms(1,2), of q f] show ?thesis by simp
qed

text \<open>How often a process has been attached.\<close>

definition attaches :: "ptr \<Rightarrow> loader_act \<Rightarrow> bool" where
  "attaches p a \<longleftrightarrow> (\<exists>b fixup tls. a = Enters_loader p b fixup tls Process_attached)"

lemma loader_init_effect:
  assumes inv: "loader_inv s" and b: "b = 0 \<or> heap_blocks s b = None"
    and init: "loader_init p b fixup tls s = (r, t)"
  shows "loader_inv t \<and> (attach_done q s \<longrightarrow> attach_done q t) \<and>
    (r = Process_attached \<longrightarrow> \<not> attach_done p s \<and> attach_done p t) \<and>
    (r = Thread_attached \<longrightarrow> attach_done p s) \<and>
    (q \<noteq> p \<longrightarrow> LdrData t q = LdrData s q \<and> (LdrData s q \<noteq> Null \<longrightarrow> ldr_state q t = ldr_state q s))"
proof (rule loader_init_cases [OF inv b init])
  assume "t = s" "r \<noteq> Process_attached" "r \<noteq> Thread_attached"
  with inv show ?thesis by simp
next
  assume "install_block p b s = Some t" "r \<noteq> Process_attached" "r \<noteq> Thread_attached"
  with install_block_effect [OF inv b] show ?thesis by metis
next
  fix s1
  assume s1: "install_block p b s = Some s1" and a: "attach_done p (set_done p s1)" "t = set_done p s1" "r = Thread_attached"
  note e = install_block_effect [OF inv b s1]
  have d: "loader_inv (set_done p s1) \<and> (attach_done q (set_done p s1) \<longleftrightarrow> (if q = p then s_attach_done (ldr_state p s1) else attach_done q s1)) \<and>
      (q \<noteq> p \<longrightarrow> LdrData s1 q \<noteq> Null \<longrightarrow> ldr_state q (set_done p s1) = ldr_state q s1)" for q
    unfolding set_done_def by (rule set_done_effect [where g = "\<lambda>x. x"]) (use e in simp_all)
  have "LdrData t q = LdrData s1 q" by (simp add: a(2) set_done_def)
  with a d [of p] d [of q] e [of p] e [of q] show ?thesis by (auto simp: attach_done_def)
next
  fix s1
  assume s1: "install_block p b s = Some s1" and a: "\<not> attach_done p (set_done p s1)"
    "t = set_ldr_state p (\<lambda>d. d\<lparr>s_attach_done := True\<rparr>) (set_done p s1)" "r \<noteq> Thread_attached"
  note e = install_block_effect [OF inv b s1]
  have l: "LdrData (set_done p s1) = LdrData s1" by (simp add: set_done_def)
  have d: "loader_inv (set_done p s1) \<and> (attach_done q (set_done p s1) \<longleftrightarrow> (if q = p then s_attach_done (ldr_state p s1) else attach_done q s1)) \<and>
      (q \<noteq> p \<longrightarrow> LdrData s1 q \<noteq> Null \<longrightarrow> ldr_state q (set_done p s1) = ldr_state q s1)" for q
    unfolding set_done_def by (rule set_done_effect [where g = "\<lambda>x. x"]) (use e in simp_all)
  have d': "loader_inv t \<and> (attach_done q t \<longleftrightarrow> (if q = p then True else attach_done q (set_done p s1))) \<and>
      (q \<noteq> p \<longrightarrow> LdrData (set_done p s1) q \<noteq> Null \<longrightarrow> ldr_state q t = ldr_state q (set_done p s1))" for q
    unfolding a(2) by (rule set_done_effect [where g = "\<lambda>_. True"]) (use e d l in simp_all)
  have "LdrData t q = LdrData s1 q" by (simp add: a(2) l)
  with a(1,3) l d [of p] d [of q] d' [of p] d' [of q] e [of p] e [of q] show ?thesis
    by (auto simp: attach_done_def)
qed


lemma shut_down_effect:
  assumes "loader_inv s" "LdrData s p \<noteq> Null"
  shows "loader_inv (start_detaching p s)" "attach_done q (start_detaching p s) \<longleftrightarrow> attach_done q s"
proof -
  have "loader_inv (start_detaching p s) \<and>
      (attach_done q (start_detaching p s) \<longleftrightarrow> (if q = p then s_attach_done (ldr_state p s) else attach_done q s)) \<and>
      (q \<noteq> p \<longrightarrow> LdrData s q \<noteq> Null \<longrightarrow> ldr_state q (start_detaching p s) = ldr_state q s)"
    unfolding start_detaching_def by (rule set_done_effect [where g = "\<lambda>x. x"]) (use assms in simp_all)
  with assms(2) show "loader_inv (start_detaching p s)" "attach_done q (start_detaching p s) \<longleftrightarrow> attach_done q s"
    by (auto simp: attach_done_def)
qed

lemma loader_step_effect:
  assumes inv: "loader_inv s" and step: "loader_step s a t"
  shows "loader_inv t \<and> (attach_done q s \<longrightarrow> attach_done q t) \<and> (attaches q a \<longrightarrow> \<not> attach_done q s \<and> attach_done q t)"
proof (cases a)
  case (Enters_loader p b fixup tls r)
  with step have b: "b = 0 \<or> heap_blocks s b = None" and init: "loader_init p b fixup tls s = (r, t)" by auto
  from loader_init_effect [OF inv b init, of q] Enters_loader show ?thesis by (auto simp: attaches_def)
next
  case (Shuts_down p)
  with step have "LdrData s p \<noteq> Null" "t = start_detaching p s" by simp_all
  with shut_down_effect [OF inv] Shuts_down show ?thesis by (simp add: attaches_def)
qed

interpretation loaders: machine "\<lambda>s. s = start_loader" loader_step loader_inv
proof
  show "\<And>s. s = start_loader \<Longrightarrow> loader_inv s" by (simp add: loader_inv_def start_loader_def)
qed (use loader_step_effect in blast)

lemma attach_count:
  "execution loader_step s ls t \<Longrightarrow> loader_inv s \<Longrightarrow>
    length (filter (attaches q) ls) + (if attach_done q s then 1 else 0) \<le> (if attach_done q t then 1 else (0::nat))"
proof (induction rule: execution.induct)
  case (move s l t ls u)
  with loader_step_effect [OF move.prems move.hyps(1), of q] show ?case by (auto split: if_splits)
qed simp

text \<open>C36: every Windows process of the host has a loader of its own: in every run, no two
  processes have the same block, a process is attached at most once and has a block then, and
  what a call of \<^verbatim>\<open>loader_init\<close> by one process does, or its failing, leaves the state
  of every other process that has one as it was.\<close>
theorem loader_states_private:
  assumes run: "execution loader_step start_loader ls s"
    and step: "loader_step s (Enters_loader q b fixup tls r) t" and ne: "p \<noteq> q" and has: "LdrData s p \<noteq> Null"
  shows "LdrData t q \<noteq> LdrData t p \<and> ldr_state p t = ldr_state p s \<and> LdrData t p = LdrData s p \<and>
    length (filter (attaches q) ls) \<le> 1 \<and> (r = Process_attached \<longrightarrow> filter (attaches q) ls = []) \<and>
    (r = Thread_attached \<longrightarrow> attach_done q s)"
proof -
  have inv: "loader_inv s" using loaders.reachable_inv [OF refl run] .
  from step have b: "b = 0 \<or> heap_blocks s b = None" and init: "loader_init q b fixup tls s = (r, t)" by auto
  note e = loader_init_effect [OF inv b init, of p]
  have count: "length (filter (attaches q) ls) \<le> (if attach_done q s then 1 else 0)"
    using attach_count [OF run, of q] loaders.inv_start [OF refl] by simp
  have inv': "loader_inv t" using e by simp
  have "LdrData t q \<noteq> LdrData t p"
  proof
    assume eq: "LdrData t q = LdrData t p"
    have "LdrData t p \<noteq> Null" using e has ne by simp
    then have "q = p" using eq loader_invD(2) [OF inv', of q _ p] loader_invD(3) [OF inv', of q p] by (cases "LdrData t p") simp_all
    with ne show False by simp
  qed
  with e has ne count show ?thesis by (auto split: if_splits)
qed

text \<open>Once the process with the static block has begun to end, it has for good.\<close>

definition primary_ends :: "ptr \<Rightarrow> loader \<Rightarrow> bool" where
  "primary_ends p s \<longleftrightarrow> s_process_detaching (primary_ldr_state s) \<and> LdrData s p = Primary_block"

lemma primary_ends_init:
  assumes inv: "loader_inv s" and e: "primary_ends p s" and b: "b = 0 \<or> heap_blocks s b = None"
    and init: "loader_init q b fixup tls s = (r, t)"
  shows "primary_ends p t"
proof (cases "LdrData s q")
  case (Heap_block y)
  then have "install_block q b s = Some s" by (simp add: install_block_def)
  moreover have "primary_ldr_state (set_ldr_state q f s) = primary_ldr_state s"
    "primary_ldr_state (set_ldr_state q g (set_ldr_state q f s)) = primary_ldr_state s" for f g
    using Heap_block by (simp_all add: set_ldr_state_def)
  ultimately have "s_process_detaching (primary_ldr_state t)"
    using init e by (auto simp: loader_init_def Let_def primary_ends_def split: if_splits)
  moreover have "q \<noteq> p" using Heap_block e by (auto simp: primary_ends_def)
  with loader_init_effect [OF inv b init, of p] e have "LdrData t p = Primary_block" by (auto simp: primary_ends_def)
  ultimately show ?thesis by (simp add: primary_ends_def)
qed (use init e in \<open>simp_all add: loader_init_def ldr_state_def primary_ends_def\<close>)

lemma primary_ends_step:
  assumes "loader_inv s" "primary_ends p s" "loader_step s a t"
  shows "primary_ends p t"
proof (cases a)
  case (Enters_loader q b fixup tls r)
  with assms(3) have "b = 0 \<or> heap_blocks s b = None" "loader_init q b fixup tls s = (r, t)" by auto
  with primary_ends_init [OF assms(1,2)] show ?thesis by blast
next
  case (Shuts_down q)
  with assms(2,3) show ?thesis by (auto simp: primary_ends_def start_detaching_def set_ldr_state_def split: ldr_data.split)
qed

text \<open>C37: when the first process has begun to end, no other can start: from then on every
  process that comes to \<^verbatim>\<open>loader_init\<close> without a block has its thread terminated there,
  because the test for a process that is going away reads the flag before the process gets a
  block of its own, and without one it reads that of the first process.\<close>
theorem primary_exit_stops_new_processes:
  assumes run: "execution loader_step start_loader ls s" and first: "LdrData s p = Primary_block"
    and ends: "loader_step s (Shuts_down p) t" and later: "execution loader_step t ls' u"
    and new: "LdrData u q = Null"
  shows "loader_init q b fixup tls u = (Thread_terminated, u)"
proof -
  have inv: "loader_inv t" using loaders.inv_step [OF loaders.reachable_inv [OF refl run] ends] .
  have "primary_ends p t" using ends first by (simp add: primary_ends_def start_detaching_def set_ldr_state_def)
  then have "primary_ends p u"
    using loaders.execution_stable [where P = "primary_ends p", OF _ later inv] primary_ends_step by blast
  with new show ?thesis by (simp add: primary_ends_def loader_init_def ldr_state_def)
qed

section \<open>A run of two processes\<close>

lemma two_loaders:
  obtains s where "execution loader_step start_loader [Enters_loader 16 0 STATUS_SUCCESS STATUS_SUCCESS Process_attached] s"
    "LdrData s = (\<lambda>_. Null)(16 := Primary_block)" "heap_blocks s = (\<lambda>_. None)" "primary_claimed s"
proof -
  define s where "s = snd (loader_init 16 0 STATUS_SUCCESS STATUS_SUCCESS start_loader)"
  have "loader_init 16 0 STATUS_SUCCESS STATUS_SUCCESS start_loader = (Process_attached, s)"
    by (simp add: s_def loader_init_def install_block_def start_loader_def ldr_state_def new_block_def
        set_ldr_state_def Let_def)
  then have "execution loader_step start_loader [Enters_loader 16 0 STATUS_SUCCESS STATUS_SUCCESS Process_attached] s"
    by (simp add: execution_Cons start_loader_def)
  moreover have "LdrData s = (\<lambda>_. Null)(16 := Primary_block)" "heap_blocks s = (\<lambda>_. None)" "primary_claimed s"
    by (simp_all add: s_def loader_init_def install_block_def start_loader_def ldr_state_def new_block_def
        set_ldr_state_def Let_def)
  ultimately show ?thesis by (rule that)
qed

theorem loader_states_private_witness:
  "\<exists>ls s r t. execution loader_step start_loader ls s \<and>
     loader_step s (Enters_loader 64 128 STATUS_SUCCESS STATUS_SUCCESS r) t \<and> LdrData t 64 \<noteq> LdrData t 16"
proof (rule two_loaders)
  fix s
  assume s: "execution loader_step start_loader [Enters_loader 16 0 STATUS_SUCCESS STATUS_SUCCESS Process_attached] s"
    "LdrData s = (\<lambda>_. Null)(16 := Primary_block)" "heap_blocks s = (\<lambda>_. None)"
  obtain r t where "loader_init 64 128 STATUS_SUCCESS STATUS_SUCCESS s = (r, t)" by fastforce
  with s(3) have step: "loader_step s (Enters_loader 64 128 STATUS_SUCCESS STATUS_SUCCESS r) t" by simp
  from loader_states_private [OF s(1) step, of 16] s(1,2) step show ?thesis by auto
qed

theorem primary_exit_stops_new_processes_witness:
  "\<exists>ls s t. execution loader_step start_loader ls s \<and> loader_step s (Shuts_down 16) t \<and>
     loader_init 64 128 STATUS_SUCCESS STATUS_SUCCESS t = (Thread_terminated, t)"
proof (rule two_loaders)
  fix s
  assume s: "execution loader_step start_loader [Enters_loader 16 0 STATUS_SUCCESS STATUS_SUCCESS Process_attached] s"
    "LdrData s = (\<lambda>_. Null)(16 := Primary_block)"
  have step: "loader_step s (Shuts_down 16) (start_detaching 16 s)" using s(2) by simp
  have "LdrData (start_detaching 16 s) 64 = Null" using s(2) by (simp add: start_detaching_def)
  from primary_exit_stops_new_processes [OF s(1) _ step execution.stop this] s(2)
  have "loader_init 64 128 STATUS_SUCCESS STATUS_SUCCESS (start_detaching 16 s) =
      (Thread_terminated, start_detaching 16 s)" by simp
  with s(1) step show ?thesis by blast
qed

end
