(* ===== verification/HostLoaders.thy ===== *)
theory HostLoaders
  imports InprocProps LoaderState
begin

text \<open>
  The host process and the loaders of its Windows processes, joined where they share memory:
  the field \<^verbatim>\<open>LdrData\<close> of a PEB, which \<^verbatim>\<open>spawn_process_inproc\<close> clears in the
  copy it makes of the parent's PEB and \<^verbatim>\<open>loader_init\<close> reads and sets
  (\<^verbatim>\<open>native/patches/0003-inproc-spawn-and-peb.patch\<close>).
\<close>

section \<open>The joint machine\<close>

text \<open>\<open>prim\<close>: the address of \<^verbatim>\<open>primary_ldr_state\<close>.\<close>

definition ldr_data_at :: "ptr \<Rightarrow> ptr \<Rightarrow> ldr_data" where
  "ldr_data_at prim a = (if a = 0 then Null else if a = prim then Primary_block else Heap_block a)"

definition ldr_address :: "ptr \<Rightarrow> ldr_data \<Rightarrow> ptr" where
  "ldr_address prim d = (case d of Null \<Rightarrow> 0 | Primary_block \<Rightarrow> prim | Heap_block b \<Rightarrow> b)"

definition peb_ldr :: "ptr \<Rightarrow> host_proc \<Rightarrow> ptr \<Rightarrow> ldr_data" where
  "peb_ldr prim h p = (case pebs h p of None \<Rightarrow> Null | Some b \<Rightarrow> ldr_data_at prim (pb_LdrData b))"

text \<open>The loaders, with the pointers the PEBs hold; and the pointer of one PEB written.\<close>

definition loaders_of :: "ptr \<Rightarrow> host_proc \<Rightarrow> loader \<Rightarrow> loader" where
  "loaders_of prim h l = l\<lparr>LdrData := peb_ldr prim h\<rparr>"

definition write_ldr :: "ptr \<Rightarrow> ptr \<Rightarrow> host_proc \<Rightarrow> host_proc" where
  "write_ldr p a h = h\<lparr>pebs := (pebs h)(p := map_option (\<lambda>b. b\<lparr>pb_LdrData := a\<rparr>) (pebs h p))\<rparr>"

text \<open>The processes whose code runs: the first one, and those that have entered their program.\<close>

definition runs_code :: "host_proc \<Rightarrow> ptr \<Rightarrow> bool" where
  "runs_code h p \<longleftrightarrow> p = primary h \<or> (\<exists>teb c. children h teb = Some c \<and> c_peb c = p \<and> c_pc c = Running)"

datatype joint_act = Host_act spawn_act | Loader_act loader_act

fun joint_step :: "ptr \<Rightarrow> host_proc \<times> loader \<Rightarrow> joint_act \<Rightarrow> host_proc \<times> loader \<Rightarrow> bool" where
  "joint_step prim (h, l) (Host_act a) (h', l') \<longleftrightarrow> spawn_step h a h' \<and> l' = l"
| "joint_step prim (h, l) (Loader_act (Enters_loader p b fixup tls r)) (h', l') \<longleftrightarrow>
     runs_code h p \<and> (b = 0 \<or> b \<noteq> prim \<and> heap_blocks l b = None) \<and>
     (r, l') = loader_init p b fixup tls (loaders_of prim h l) \<and>
     h' = write_ldr p (ldr_address prim (LdrData l' p)) h"
| "joint_step prim (h, l) (Loader_act (Shuts_down p)) (h', l') \<longleftrightarrow>
     runs_code h p \<and> peb_ldr prim h p \<noteq> Null \<and> l' = start_detaching p (loaders_of prim h l) \<and> h' = h"

fun joint_start :: "ptr \<Rightarrow> host_proc \<times> loader \<Rightarrow> bool" where
  "joint_start prim (h, l) \<longleftrightarrow> prim \<noteq> 0 \<and> spawn_start h \<and> l = start_loader"

definition loader_acts :: "joint_act list \<Rightarrow> loader_act list" where
  "loader_acts as = concat (map (\<lambda>a. case a of Host_act _ \<Rightarrow> [] | Loader_act x \<Rightarrow> [x]) as)"

section \<open>What the host does to the pointers\<close>

text \<open>No step of the host changes the pointer of a PEB, and a new PEB has none.\<close>

definition keeps_ldr :: "host_proc \<Rightarrow> host_proc \<Rightarrow> bool" where
  "keeps_ldr s t \<longleftrightarrow> (\<forall>p. map_option pb_LdrData (pebs t p) = map_option pb_LdrData (pebs s p))"

lemma keeps_ldr_simps [simp]:
  "keeps_ldr s s" "keeps_ldr s (open_fd fd k t) \<longleftrightarrow> keeps_ldr s t" "keeps_ldr s (shut_fd fd t) \<longleftrightarrow> keeps_ldr s t"
  "keeps_ldr s (upd_child teb f t) \<longleftrightarrow> keeps_ldr s t" "keeps_ldr s (close_unless_none fd t) \<longleftrightarrow> keeps_ldr s t"
  "keeps_ldr s (register_child p fd i t) \<longleftrightarrow> keeps_ldr s t" "keeps_ldr s (put_fd_cache p d t) \<longleftrightarrow> keeps_ldr s t"
  "keeps_ldr s (release_process_fd_cache p t) \<longleftrightarrow> keeps_ldr s t"
  by (simp_all add: keeps_ldr_def open_fd_def shut_fd_def upd_child_def close_unless_none_def register_child_def
      put_fd_cache_def release_process_fd_cache_def split: option.split prod.split)

lemma keeps_ldr_child:
  "keeps_ldr s (child_attach r teb c s)" "keeps_ldr s (child_build st params base entry teb c s)"
  "keeps_ldr s (child_done st teb s)" "keeps_ldr s (child_enter en teb s)" "keeps_ldr s (child_detach teb c s)"
  "child_exit e status teb s = Some t \<Longrightarrow> keeps_ldr s t"
  "cache_add p mem k ent s = Some (ok, t) \<Longrightarrow> keeps_ldr s t" "keeps_ldr s (cache_remove p k s)"
proof -
  have peb: "keeps_ldr s (u\<lparr>pebs := (pebs s)(p := map_option g (pebs s p))\<rparr>)"
    if "\<And>b. pb_LdrData (g b) = pb_LdrData b" for u g p
    using that by (auto simp: keeps_ldr_def option.map_comp comp_def)
  show "keeps_ldr s (child_attach r teb c s)"
    unfolding child_attach_def server_init_process_inproc_def Let_def
    by (auto simp: peb split: prod.split)
  show "keeps_ldr s (child_build st params base entry teb c s)"
    by (auto simp: child_build_def Let_def keeps_ldr_def option.map_comp comp_def)
  show "keeps_ldr s (child_detach teb c s)" by (simp add: child_detach_def Let_def)
  show "keeps_ldr s (cache_remove p k s)" by (simp add: cache_remove_def split: prod.split)
qed (auto simp: child_done_def child_enter_def child_exit_def cache_add_def split: prod.splits option.splits
      exit_effect.splits bool.splits if_splits)

lemma spawn_step_ldr:
  assumes inv: "spawn_inv s" and step: "spawn_step s a t"
  shows "peb_ldr prim t = peb_ldr prim s"
proof -
  have same: "peb_ldr prim t = peb_ldr prim s" if "keeps_ldr s t" for t
  proof
    fix p
    from that have "map_option pb_LdrData (pebs t p) = map_option pb_LdrData (pebs s p)" by (simp add: keeps_ldr_def)
    then show "peb_ldr prim t p = peb_ldr prim s p"
      by (cases "pebs s p"; cases "pebs t p") (simp_all add: peb_ldr_def)
  qed
  show ?thesis
  proof (cases a)
    case (Spawns who b)
    with step obtain p where f: "unused_answers b s" "t = snd (spawn_process_inproc b p s)" by auto
    show ?thesis
    proof (rule spawn_cases [OF inv f(1), of p])
      fix st u
      assume "spawn_process_inproc b p s = (st, u)" "restored s u"
      with f(2) show ?thesis by (intro same) (simp add: keeps_ldr_def restored_sel)
    next
      fix u teb
      assume "spawn_process_inproc b p s = (STATUS_SUCCESS, u\<lparr>children := (children s)(teb := Some (new_child b))\<rparr>)"
        and sp: "spawned b p s u"
      with f(2) have "pebs t = pebs u" by simp
      moreover have "pebs s (a_peb b) = None" using sp by (simp add: spawned_def unmapped_def)
      ultimately show ?thesis
        using spawned_sel(3) [OF sp] by (auto simp: peb_ldr_def ldr_data_at_def fun_eq_iff)
    qed
  qed (use step in \<open>auto intro!: same keeps_ldr_child(1-5,8) dest: keeps_ldr_child(6,7)\<close>)
qed

section \<open>A run of the host is a run of its loaders\<close>

fun joint_inv :: "ptr \<Rightarrow> host_proc \<times> loader \<Rightarrow> bool" where
  "joint_inv prim (h, l) \<longleftrightarrow> prim \<noteq> 0 \<and> spawn_inv h \<and> loader_inv (loaders_of prim h l)"

text \<open>The loaders alone: the steps of the host pass them by.\<close>

fun loaders_step :: "loader \<Rightarrow> joint_act \<Rightarrow> loader \<Rightarrow> bool" where
  "loaders_step s (Host_act a) t \<longleftrightarrow> t = s"
| "loaders_step s (Loader_act a) t \<longleftrightarrow> loader_step s a t"

lemma loaders_run: "execution loaders_step s as t \<Longrightarrow> execution loader_step s (loader_acts as) t"
proof (induction rule: execution.induct)
  case (move s a t as u)
  then show ?case by (cases a) (auto simp: loader_acts_def intro: execution.move)
qed (simp add: loader_acts_def)

lemma loaders_of_sel [simp]:
  "LdrData (loaders_of prim h l) = peb_ldr prim h" "heap_blocks (loaders_of prim h l) = heap_blocks l"
  "primary_claimed (loaders_of prim h l) = primary_claimed l"
  "primary_ldr_state (loaders_of prim h l) = primary_ldr_state l"
  by (simp_all add: loaders_of_def)

lemma loaders_of_same: "LdrData l = peb_ldr prim h \<Longrightarrow> loaders_of prim h l = l"
  by (simp add: loaders_of_def)

lemma runs_code_mapped:
  assumes "spawn_inv h" "runs_code h p"
  shows "pebs h p \<noteq> None" "p \<noteq> 0"
proof -
  note I = spawn_invD(2,4) [OF assms(1)]
  show m: "pebs h p \<noteq> None" using assms(2) I by (auto simp: runs_code_def primary_ok_def children_ok_def child_ok_def)
  have "pebs h 0 = None" using I(1) by (simp add: primary_ok_def)
  with m show "p \<noteq> 0" by auto
qed

lemma write_ldr_inv: "spawn_inv h \<Longrightarrow> spawn_inv (write_ldr p a h)"
  by (rule same_view_inv) (auto simp: same_view_def write_ldr_def spawn_inv_def tables_ok_def split: if_splits)

lemma peb_ldr_write:
  "pebs h p \<noteq> None \<Longrightarrow> peb_ldr prim (write_ldr p a h) = (peb_ldr prim h)(p := ldr_data_at prim a)"
  by (auto simp: peb_ldr_def write_ldr_def fun_eq_iff)

text \<open>What the call leaves in the pointer of its process can be read back.\<close>

lemma loader_init_pointer:
  "loader_init p b fixup tls s = (r, t) \<Longrightarrow>
    LdrData t p = LdrData s p \<or> LdrData t p = Primary_block \<or> LdrData t p = Heap_block b \<and> b \<noteq> 0"
  by (auto simp: loader_init_def install_block_def Let_def split: if_splits option.splits)

lemma ldr_data_at_address:
  assumes "prim \<noteq> 0" "d \<noteq> Heap_block 0" "d \<noteq> Heap_block prim"
  shows "ldr_data_at prim (ldr_address prim d) = d"
  using assms by (cases d) (auto simp: ldr_data_at_def ldr_address_def)

lemma joint_enters:
  assumes inv: "joint_inv prim (h, l)" and step: "joint_step prim (h, l) (Loader_act a) (h', l')"
  shows "loader_step (loaders_of prim h l) a (loaders_of prim h' l')" "spawn_inv h'"
proof -
  from inv have prim: "prim \<noteq> 0" and h: "spawn_inv h" and L: "loader_inv (loaders_of prim h l)" by simp_all
  have "loader_step (loaders_of prim h l) a (loaders_of prim h' l') \<and> spawn_inv h'"
  proof (cases a)
    case (Shuts_down p)
    with step have s: "runs_code h p" "peb_ldr prim h p \<noteq> Null" "l' = start_detaching p (loaders_of prim h l)" "h' = h"
      by simp_all
    then have "loaders_of prim h' l' = l'" by (intro loaders_of_same) (simp add: start_detaching_def)
    with s Shuts_down h show ?thesis by simp
  next
    case (Enters_loader p b fixup tls r)
    with step have s: "runs_code h p" "b = 0 \<or> b \<noteq> prim \<and> heap_blocks l b = None"
      "loader_init p b fixup tls (loaders_of prim h l) = (r, l')" "h' = write_ldr p (ldr_address prim (LdrData l' p)) h"
      by auto
    note m = runs_code_mapped [OF h s(1)]
    from s(2) have b: "b = 0 \<or> heap_blocks (loaders_of prim h l) b = None" by auto
    have range: "peb_ldr prim h p \<noteq> Heap_block 0 \<and> peb_ldr prim h p \<noteq> Heap_block prim"
      by (simp add: peb_ldr_def ldr_data_at_def split: option.split)
    have "ldr_data_at prim (ldr_address prim (LdrData l' p)) = LdrData l' p"
      by (rule ldr_data_at_address [OF prim]) (use loader_init_pointer [OF s(3)] range s(2) in auto)
    then have "LdrData l' q = peb_ldr prim h' q" for q
      using loader_init_effect [OF L b s(3), of q] by (simp add: s(4) peb_ldr_write [OF m(1)])
    then have "loaders_of prim h' l' = l'" by (intro loaders_of_same) auto
    with Enters_loader s(3) b m(2) write_ldr_inv [OF h] s(4) show ?thesis by auto
  qed
  then show "loader_step (loaders_of prim h l) a (loaders_of prim h' l')" "spawn_inv h'" by simp_all
qed

interpretation host_loaders:
  simulation "joint_start prim" "joint_step prim" "joint_inv prim"
    "\<lambda>s. loaders_of prim (fst s) (snd s)" "\<lambda>s. s = start_loader" loaders_step for prim
proof
  fix s assume st: "joint_start prim s"
  obtain h l where s: "s = (h, l)" by fastforce
  with st have h: "spawn_start h" and l: "l = start_loader" and prim: "prim \<noteq> 0" by simp_all
  have "peb_ldr prim h = (\<lambda>_. Null)"
    using h by (auto simp: spawn_start_def first_process_def peb_ldr_def ldr_data_at_def fun_eq_iff)
  then have v: "loaders_of prim h l = start_loader" by (simp add: loaders_of_def l start_loader_def)
  with s show "loaders_of prim (fst s) (snd s) = start_loader" by simp
  from v start_spawn_inv [OF h] loaders.inv_start [OF refl] s prim show "joint_inv prim s" by simp
next
  fix s a t assume inv: "joint_inv prim s" and st: "joint_step prim s a t"
  obtain h l h' l' where s: "s = (h, l)" "t = (h', l')" by fastforce
  have "loaders_step (loaders_of prim h l) a (loaders_of prim h' l') \<and> joint_inv prim (h', l')"
  proof (cases a)
    case (Host_act x)
    with st s have x: "spawn_step h x h'" "l' = l" by simp_all
    from spawn_step_ldr [OF _ x(1)] inv s x(2) have "loaders_of prim h' l' = loaders_of prim h l"
      by (simp add: loaders_of_def)
    with Host_act inv s spawn_step_inv [OF x(1)] show ?thesis by simp
  next
    case (Loader_act x)
    from inv st s Loader_act have J: "joint_inv prim (h, l)" "joint_step prim (h, l) (Loader_act x) (h', l')" by simp_all
    note e = joint_enters [OF J]
    have "loader_inv (loaders_of prim h' l')" by (rule loaders.inv_step [OF _ e(1)]) (use J(1) in simp)
    with e J(1) Loader_act show ?thesis by simp
  qed
  with s show "loaders_step (loaders_of prim (fst s) (snd s)) a (loaders_of prim (fst t) (snd t))" "joint_inv prim t"
    by simp_all
qed

lemma never_entered:
  assumes "execution loader_step s ls t" "loader_inv s" "LdrData s p = Null"
    "\<forall>b fixup tls r. Enters_loader p b fixup tls r \<notin> set ls"
  shows "LdrData t p = Null"
  using assms
proof (induction rule: execution.induct)
  case (move s a t ls u)
  have "LdrData t p = Null"
  proof (cases a)
    case (Enters_loader q b fixup tls r)
    with move.prems(3) have "p \<noteq> q" by auto
    moreover from Enters_loader move.hyps(1) have "b = 0 \<or> heap_blocks s b = None" "loader_init q b fixup tls s = (r, t)" by auto
    ultimately show ?thesis using loader_init_effect [OF move.prems(1), of b q fixup tls r t p] move.prems(2) by simp
  next
    case (Shuts_down q)
    with move show ?thesis by (simp add: start_detaching_def)
  qed
  with move loader_step_effect [OF move.prems(1) move.hyps(1)] show ?case by simp
qed

text \<open>C22: a spawned process starts with a loader of its own: in every run of the host, with the
  calls of \<^verbatim>\<open>loader_init\<close> its processes make, what the loaders see in the PEBs is a run
  of the loaders alone; the first call by a process is never taken for one of a further thread,
  although its PEB is a copy of that of a parent whose loader is set up; when it attaches, the
  block it has is no other process's; and it does attach, unless an allocation or the loading
  fails or the first process has begun to end.\<close>
theorem spawned_process_loads_alone:
  assumes start: "spawn_start h0" "prim \<noteq> 0"
    and run: "execution (joint_step prim) (h0, start_loader) as (h, l)"
    and step: "joint_step prim (h, l) (Loader_act (Enters_loader p b fixup tls r)) (h', l')"
    and first: "\<forall>b fixup tls r. Enters_loader p b fixup tls r \<notin> set (loader_acts as)"
  shows "execution loader_step start_loader (loader_acts as) (loaders_of prim h l) \<and>
    r \<noteq> Thread_attached \<and>
    (r = Process_attached \<longrightarrow> peb_ldr prim h' p \<noteq> Null \<and> (\<forall>q. q \<noteq> p \<longrightarrow> peb_ldr prim h' q \<noteq> peb_ldr prim h' p)) \<and>
    (b \<noteq> 0 \<and> fixup = STATUS_SUCCESS \<and> tls = STATUS_SUCCESS \<and> \<not> s_process_detaching (primary_ldr_state l) \<longrightarrow>
       r = Process_attached)"
proof -
  have st: "joint_start prim (h0, start_loader)" using start by simp
  have inv: "joint_inv prim (h, l)" by (rule host_loaders.reachable_inv [OF st run])
  have sim: "execution loader_step start_loader (loader_acts as) (loaders_of prim h l)"
    using host_loaders.reachable_sim [OF st run] loaders_run by fastforce
  have "LdrData (loaders_of prim h l) p = Null"
    by (rule never_entered [OF sim loaders.inv_start [OF refl] _ first]) (simp add: start_loader_def)
  then have null: "peb_ldr prim h p = Null" by simp
  note e = joint_enters [OF inv step]
  let ?s = "loaders_of prim h l" and ?t = "loaders_of prim h' l'"
  from e(1) have b: "b = 0 \<or> heap_blocks ?s b = None" and init: "loader_init p b fixup tls ?s = (r, ?t)" by auto
  have L: "loader_inv ?s" using inv by simp
  note eff = loader_init_effect [OF L b init, of p]
  have "\<not> attach_done p ?s" using null by (simp add: attach_done_def)
  with eff have "r \<noteq> Thread_attached" by simp
  moreover have "peb_ldr prim h' p \<noteq> Null \<and> (\<forall>q. q \<noteq> p \<longrightarrow> peb_ldr prim h' q \<noteq> peb_ldr prim h' p)" if "r = Process_attached"
  proof -
    have nn: "LdrData ?t p \<noteq> Null" using eff that by (simp add: attach_done_def)
    have "q = p" if "LdrData ?t q = LdrData ?t p" for q
      using that nn eff loader_invD(2,3) [of ?t] by (cases "LdrData ?t p") auto
    with nn show ?thesis by auto
  qed
  moreover have "r = Process_attached" if a: "b \<noteq> 0" "fixup = STATUS_SUCCESS" "tls = STATUS_SUCCESS"
    "\<not> s_process_detaching (primary_ldr_state l)"
  proof -
    have d: "\<not> s_process_detaching (ldr_state p ?s)" using null a(4) by (simp add: ldr_state_def)
    have "install_block p b ?s \<noteq> None" using a(1) by (simp add: install_block_def)
    then obtain s1 where s1: "install_block p b ?s = Some s1" by blast
    note i = install_block_effect [OF L b s1, of p]
    have "\<not> s_attach_done (ldr_state p (set_ldr_state p (\<lambda>d. d\<lparr>s_imports_fixup_done := True\<rparr>) s1))"
      using i ldr_state_set [of s1 p p] \<open>\<not> attach_done p ?s\<close> by (auto simp: attach_done_def)
    with init d s1 a(2,3) show ?thesis by (auto simp: loader_init_def Let_def)
  qed
  ultimately show ?thesis using sim by blast
qed

section \<open>A run with two loaders\<close>

lemma host_run:
  "execution spawn_step h as h' \<Longrightarrow> execution (joint_step prim) (h, l) (map Host_act as) (h', l)"
  by (induction rule: execution.induct) (auto simp: execution_Cons)

lemma no_loader_acts [simp]: "loader_acts (map Host_act as) = []" "loader_acts (bs @ cs) = loader_acts bs @ loader_acts cs"
  "loader_acts [Loader_act a] = [a]"
  by (simp_all add: loader_acts_def comp_def)

lemma first_load:
  obtains l where "loader_init p b STATUS_SUCCESS STATUS_SUCCESS start_loader = (Process_attached, l)"
    "heap_blocks l = (\<lambda>_. None)" "\<not> s_process_detaching (primary_ldr_state l)"
  by (simp add: loader_init_def install_block_def start_loader_def ldr_state_def new_block_def
      set_ldr_state_def Let_def)

text \<open>The first process loads, then the child it has spawned.\<close>

theorem spawned_process_loads_alone_witness:
  "\<exists>as s p q t. execution (joint_step 2048) (first_host, start_loader) as s \<and> p \<noteq> q \<and>
     Enters_loader p 512 STATUS_SUCCESS STATUS_SUCCESS Process_attached \<in> set (loader_acts as) \<and>
     joint_step 2048 s (Loader_act (Enters_loader q 512 STATUS_SUCCESS STATUS_SUCCESS Process_attached)) t \<and>
     peb_ldr 2048 (fst t) p \<noteq> peb_ldr 2048 (fst t) q"
proof (rule first_running)
  fix ls s c
  assume s: "execution spawn_step first_host ls s" "children s 256 = Some c" "c_pc c = Running"
  have run: "execution (joint_step 2048) (first_host, start_loader) (map Host_act ls) (s, start_loader)"
    using host_run [OF s(1)] .
  have st: "joint_start 2048 (first_host, start_loader)" using first_spawn_start by simp
  have v: "loaders_of 2048 s start_loader = start_loader"
    using host_loaders.reachable_sim [OF st run] loaders_run by fastforce
  obtain l where l: "loader_init (primary s) 512 STATUS_SUCCESS STATUS_SUCCESS start_loader = (Process_attached, l)"
    "heap_blocks l = (\<lambda>_. None)" "\<not> s_process_detaching (primary_ldr_state l)" by (rule first_load)
  define h where "h = write_ldr (primary s) (ldr_address 2048 (LdrData l (primary s))) s"
  let ?a = "Loader_act (Enters_loader (primary s) 512 STATUS_SUCCESS STATUS_SUCCESS Process_attached)"
  have "joint_step 2048 (s, start_loader) ?a (h, l)"
    using l(1) v by (simp add: runs_code_def h_def) (simp add: start_loader_def)
  with execution_snoc [OF run] have run2: "execution (joint_step 2048) (first_host, start_loader) (map Host_act ls @ [?a]) (h, l)"
    by blast
  have "children_ok s" using spawns.reachable_inv [OF first_spawn_start s(1)] by (simp add: spawn_inv_def)
  with s(2) have "child_ok s c" by (simp add: children_ok_def)
  then have ne: "primary s \<noteq> c_peb c" by (auto simp: child_ok_def)
  have code: "runs_code h (c_peb c)" using s by (auto simp: runs_code_def h_def write_ldr_def)
  obtain r l' where i: "loader_init (c_peb c) 512 STATUS_SUCCESS STATUS_SUCCESS (loaders_of 2048 h l) = (r, l')" by fastforce
  define h' where "h' = write_ldr (c_peb c) (ldr_address 2048 (LdrData l' (c_peb c))) h"
  have step: "joint_step 2048 (h, l) (Loader_act (Enters_loader (c_peb c) 512 STATUS_SUCCESS STATUS_SUCCESS r)) (h', l')"
    using code i l(2) by (simp add: h'_def)
  have "r = Process_attached \<and> peb_ldr 2048 h' (primary s) \<noteq> peb_ldr 2048 h' (c_peb c)"
    using spawned_process_loads_alone [OF first_spawn_start _ run2 step] ne l(3) by auto
  with run2 step ne show ?thesis by fastforce
qed
end
