(* ===== verification/HostPages.thy ===== *)
theory HostPages
  imports Prelude
begin

text \<open>
  \<^verbatim>\<open>host_page_round\<close> of \<^verbatim>\<open>native/patches/0003-inproc-spawn-and-peb.patch\<close>
  (\<^verbatim>\<open>server.c\<close>): what the spawn maps is rounded up to the host's pages and to the
  4K pages of Windows, whichever are larger.
\<close>

unbundle bit_operations_syntax

text \<open>\<open>host_page\<close> is what \<^verbatim>\<open>sysconf\<close> returns for the page size.\<close>

definition host_page_round :: "u64 \<Rightarrow> u64 \<Rightarrow> u64 \<Rightarrow> u64" where
  "host_page_round host_page page_size n =
     (let mask0 = host_page - 1;
          mask1 = (if mask0 < page_size - 1 then page_size - 1 else mask0)
      in (n + mask1) AND NOT mask1)"

lemma and_not_mask_unat: "unat (a AND NOT (mask k)) = unat (a :: 64 word) div 2 ^ k * 2 ^ k"
proof -
  have m: "unat (a AND mask k) = unat a mod 2 ^ k"
    by (simp flip: take_bit_eq_mask add: unsigned_take_bit_eq) (simp add: take_bit_eq_mod)
  then have le: "a AND mask k \<le> a" by (simp add: word_le_nat_alt)
  have "a = (a AND NOT (mask k)) + (a AND mask k)"
    by (subst disjunctive_add) (auto simp: bit_simps bit_eq_iff)
  then have "a AND NOT (mask k) = a - (a AND mask k)" by (metis add_diff_cancel_right')
  then have "unat (a AND NOT (mask k)) = unat a - unat a mod 2 ^ k" using unat_sub [OF le] m by simp
  then show ?thesis by (simp add: minus_mod_eq_div_mult)
qed

lemma unat_mask_word:
  assumes "i < 64"
  shows "unat (mask i :: u64) = 2 ^ i - 1"
proof -
  have "mask i < (2::nat) ^ i" by (simp add: mask_eq_exp_minus_1)
  also have "\<dots> \<le> 2 ^ 64" using assms by (intro power_increasing) simp_all
  finally have "take_bit 64 (mask i) = (mask i :: nat)" by (rule take_bit_nat_eq_self)
  then have "unat (of_nat (mask i) :: u64) = mask i" by (simp add: unsigned_of_nat)
  then show ?thesis by (simp add: mask_eq_exp_minus_1)
qed

text \<open>The larger page wins.\<close>

lemma host_page_round_eq:
  assumes "j < 64" "k < 64" "unat n + 2 ^ max j k \<le> 2 ^ 64"
  shows "unat (host_page_round (2 ^ j) (2 ^ k) n) = (unat n + (2 ^ max j k - 1)) div 2 ^ max j k * 2 ^ max j k"
proof -
  let ?d = "max j k"
  have e: "(2 ^ i :: u64) - 1 = mask i" for i by (simp add: mask_eq_exp_minus_1)
  have "(2::nat) ^ j < 2 ^ k \<longleftrightarrow> j < k" by simp
  then have "(2::nat) ^ j - 1 < 2 ^ k - 1 \<longleftrightarrow> j < k" using one_le_power [of "2::nat" j] by linarith
  then have lt: "(mask j :: u64) < mask k \<longleftrightarrow> j < k" using assms by (simp add: word_less_nat_alt unat_mask_word)
  have r: "host_page_round (2 ^ j) (2 ^ k) n = (n + mask ?d) AND NOT (mask ?d)"
    by (auto simp: host_page_round_def e lt max_def Let_def)
  have ud: "unat (mask ?d :: u64) = 2 ^ ?d - 1" using assms by (simp add: unat_mask_word)
  have "unat n + (2 ^ ?d - 1) < 2 ^ 64" using assms(3) one_le_power [of "2::nat" ?d] by linarith
  then have "unat (n + mask ?d) = unat n + (2 ^ ?d - 1)"
    using ud unat_add_lem [of n "mask ?d"] by simp
  then show ?thesis by (simp add: r and_not_mask_unat)
qed

lemma round_up_least:
  fixes n b :: nat
  assumes "0 < b"
  shows "n \<le> (n + (b - 1)) div b * b" "n \<le> q * b \<Longrightarrow> (n + (b - 1)) div b * b \<le> q * b"
proof -
  have "n + (b - 1) = (n + (b - 1)) div b * b + (n + (b - 1)) mod b" by simp
  moreover have "(n + (b - 1)) mod b \<le> b - 1" using mod_less_divisor [OF assms, of "n + (b - 1)"] by linarith
  ultimately show "n \<le> (n + (b - 1)) div b * b" by linarith
  show "(n + (b - 1)) div b * b \<le> q * b" if "n \<le> q * b"
  proof -
    have "(n + (b - 1)) div b \<le> (q * b + (b - 1)) div b" using that by (intro div_le_mono) simp
    also have "\<dots> = q + (b - 1) div b" by (rule div_mult_self3) (use assms in simp)
    also have "\<dots> = q" using assms by simp
    finally show ?thesis by (rule mult_right_mono) simp
  qed
qed

text \<open>C35: the rounding does what it is for: with page sizes that are powers of two and a
  size that stays below the word's range, it returns the least size that is not smaller and is a
  multiple of both pages.\<close>
theorem host_page_round_least:
  assumes j: "j < 64" and k: "k < 64" and fits: "unat n + 2 ^ max j k \<le> 2 ^ 64"
  shows "2 ^ j dvd unat (host_page_round (2 ^ j) (2 ^ k) n) \<and> 2 ^ k dvd unat (host_page_round (2 ^ j) (2 ^ k) n) \<and>
    unat n \<le> unat (host_page_round (2 ^ j) (2 ^ k) n) \<and>
    (\<forall>m. unat n \<le> m \<longrightarrow> 2 ^ j dvd m \<longrightarrow> 2 ^ k dvd m \<longrightarrow> unat (host_page_round (2 ^ j) (2 ^ k) n) \<le> m)"
proof -
  let ?d = "max j k"
  let ?r = "unat (host_page_round (2 ^ j) (2 ^ k) n)"
  note r = host_page_round_eq [OF assms]
  have "2 ^ j dvd (2::nat) ^ ?d" "2 ^ k dvd (2::nat) ^ ?d" by (simp_all add: le_imp_power_dvd)
  then have "2 ^ j dvd ?r" "2 ^ k dvd ?r" unfolding r by (blast intro: dvd_mult)+
  moreover have "unat n \<le> ?r" unfolding r by (rule round_up_least) simp
  moreover have "?r \<le> m" if m: "unat n \<le> m" "2 ^ j dvd m" "2 ^ k dvd m" for m
  proof -
    have "2 ^ ?d dvd m" using m(2,3) by (simp add: max_def)
    then obtain q where q: "m = q * 2 ^ ?d" by (metis dvd_div_mult_self)
    with m(1) show ?thesis unfolding r q by (intro round_up_least) simp_all
  qed
  ultimately show ?thesis by blast
qed

theorem host_page_round_least_witness:
  "unat (host_page_round (2 ^ 14) (2 ^ 12) 4096) = 16384"
proof -
  note l = host_page_round_least [of 14 12 "4096"]
  from l have "4096 \<le> unat (host_page_round (2 ^ 14) (2 ^ 12) 4096)" "2 ^ 14 dvd unat (host_page_round (2 ^ 14) (2 ^ 12) 4096)"
    "unat (host_page_round (2 ^ 14) (2 ^ 12) 4096) \<le> 16384" by simp_all
  then show ?thesis by (auto simp: dvd_def)
qed
end
