(* ===== verification/UserSession.thy ===== *)
theory UserSession
  imports SlotTables
begin

text \<open>
  The initialization of the user session by each Windows process of the host:
  \<^verbatim>\<open>init_user_process\<close> of \<^verbatim>\<open>native/patches/0004-inproc-user-session.patch\<close>.
  user32 calls it when it is loaded, under the loader lock that all processes of the host share,
  so a call is one step; its table is one of \<^verbatim>\<open>SlotTables\<close>, without values.
\<close>

section \<open>The initialization\<close>

text \<open>What a call does, in order: \<^verbatim>\<open>init_startup_info\<close>, \<^verbatim>\<open>init_user\<close>,
  \<^verbatim>\<open>winstation_init\<close>, \<^verbatim>\<open>register_desktop_class\<close>.\<close>

datatype user_event = Startup_info ptr | Init_user ptr | Winstation ptr | Desktop_class ptr

record user_session =
  inited_procs :: "unit slot_table"
  init_once :: bool

definition start_session :: user_session where
  "start_session = \<lparr>inited_procs = empty_table 64 (), init_once = False\<rparr>"

definition init_user_process :: "ptr \<Rightarrow> user_session \<Rightarrow> user_event list \<times> user_session" where
  "init_user_process p s =
     (case table_scan (inited_procs s) p 0 None of
        Inl _ \<Rightarrow> ([], s)
      | Inr slot \<Rightarrow>
          (Startup_info p # (if init_once s then [] else [Init_user p]) @ [Winstation p, Desktop_class p],
           \<lparr>inited_procs = (case slot of None \<Rightarrow> inited_procs s | Some i \<Rightarrow> (inited_procs s)[i := (p, ())]),
            init_once = True\<rparr>))"

text \<open>The calls of a run, and all they did.\<close>

fun user_calls :: "ptr list \<Rightarrow> user_session \<Rightarrow> user_event list \<times> user_session" where
  "user_calls [] s = ([], s)"
| "user_calls (p # ps) s =
     (let (es, s1) = init_user_process p s; (fs, s2) = user_calls ps s1 in (es @ fs, s2))"

section \<open>Once for each process, once for the host\<close>

definition knows :: "user_session \<Rightarrow> ptr \<Rightarrow> bool" where
  "knows s p \<longleftrightarrow> bound_at (inited_procs s) p \<noteq> None"

definition user_session_ok :: "user_session \<Rightarrow> bool" where
  "user_session_ok s \<longleftrightarrow> table_wf 64 (inited_procs s) \<and> (\<not> init_once s \<longrightarrow> (\<forall>p. \<not> knows s p))"

lemma init_user_process_effect:
  assumes ok: "user_session_ok s" and p: "p \<noteq> 0" and call: "init_user_process p s = (es, t)"
  shows "user_session_ok t" "knows t q \<longleftrightarrow> knows s q \<or> q = p \<and> table_room (inited_procs s)"
    "\<not> table_room (inited_procs s) \<longrightarrow> \<not> table_room (inited_procs t)"
    "es = (if knows s p then []
       else Startup_info p # (if init_once s then [] else [Init_user p]) @ [Winstation p, Desktop_class p])"
    "init_once t \<longleftrightarrow> init_once s \<or> \<not> knows s p"
proof -
  have wf: "table_wf 64 (inited_procs s)" using ok by (simp add: user_session_ok_def)
  have len: "length (inited_procs s) = 64" using wf by (simp add: table_wf_def)
  have T: "inited_procs t = table_set p True () (inited_procs s)"
    using call by (auto simp: init_user_process_def table_set_def split: sum.splits option.splits)
      (use len in \<open>auto dest!: table_scan_found intro!: list_update_same_conv [THEN iffD2, symmetric] simp: prod_eq_iff\<close>)
  note m = table_set_map [OF wf, of p True "()"]
  show k: "knows t q \<longleftrightarrow> knows s q \<or> q = p \<and> table_room (inited_procs s)" for q
    using m(2) p by (auto simp: knows_def T)
  show "\<not> table_room (inited_procs s) \<longrightarrow> \<not> table_room (inited_procs t)"
  proof
    assume full: "\<not> table_room (inited_procs s)"
    have "table_wf 64 (inited_procs t)" using m(1) p by (simp add: T)
    moreover have "dom (bound_at (inited_procs t)) = dom (bound_at (inited_procs s))"
      using k full by (auto simp: knows_def dom_def)
    ultimately show "\<not> table_room (inited_procs t)" using table_room_card wf full by metis
  qed
  have scan: "(\<exists>i. table_scan (inited_procs s) p 0 None = Inl i) \<longleftrightarrow> knows s p"
  proof (cases "table_scan (inited_procs s) p 0 None")
    case (Inl i)
    then have "(p, ()) \<in> set (inited_procs s)" using table_scan_found [OF Inl] by (metis (full_types) nth_mem old.unit.exhaust prod.collapse)
    with Inl p bound_at_iff [OF wf] show ?thesis by (auto simp: knows_def)
  next
    case (Inr r)
    then have "p \<notin> fst ` set (inited_procs s)" by (cases r) (auto dest: table_scan_full table_scan_free)
    with Inr bound_at_None [OF wf] show ?thesis by (simp add: knows_def)
  qed
  show es: "es = (if knows s p then []
       else Startup_info p # (if init_once s then [] else [Init_user p]) @ [Winstation p, Desktop_class p])"
    "init_once t \<longleftrightarrow> init_once s \<or> \<not> knows s p"
    using call scan ok by (auto simp: init_user_process_def user_session_ok_def split: sum.splits)
  show "user_session_ok t" using m(1) p ok es(2) k by (auto simp: user_session_ok_def T)
qed

lemma user_calls_effect:
  "user_session_ok s \<Longrightarrow> 0 \<notin> set ps \<Longrightarrow> user_calls ps s = (es, t) \<Longrightarrow>
    user_session_ok t \<and> (knows s q \<longrightarrow> knows t q) \<and> (\<not> table_room (inited_procs s) \<longrightarrow> knows t q \<longrightarrow> knows s q) \<and>
    (init_once s \<longrightarrow> (\<forall>p. Init_user p \<notin> set es)) \<and>
    count_list es (Winstation q) = (if knows t q then if knows s q then 0 else 1 else count_list ps q) \<and>
    count_list es (Startup_info q) = (if knows t q then if knows s q then 0 else 1 else count_list ps q)"
proof (induction ps arbitrary: s es)
  case (Cons p ps)
  from Cons.prems(3) obtain es1 s1 es2 where
    c: "init_user_process p s = (es1, s1)" "user_calls ps s1 = (es2, t)" "es = es1 @ es2"
    by (auto simp: Let_def split: prod.splits)
  have p: "p \<noteq> 0" "0 \<notin> set ps" using Cons.prems(2) by auto
  note e = init_user_process_effect [OF Cons.prems(1) p(1) c(1)]
  have IH: "user_session_ok t \<and> (knows s1 q \<longrightarrow> knows t q) \<and> (\<not> table_room (inited_procs s1) \<longrightarrow> knows t q \<longrightarrow> knows s1 q) \<and>
    (init_once s1 \<longrightarrow> (\<forall>p. Init_user p \<notin> set es2)) \<and>
    count_list es2 (Winstation q) = (if knows t q then if knows s1 q then 0 else 1 else count_list ps q) \<and>
    count_list es2 (Startup_info q) = (if knows t q then if knows s1 q then 0 else 1 else count_list ps q)"
    by (rule Cons.IH [OF e(1) p(2) c(2)])
  have k: "knows s1 q \<longleftrightarrow> knows s q \<or> q = p \<and> table_room (inited_procs s)" by (rule e(2))
  have n: "count_list es1 (Winstation q) = (if knows s p \<or> q \<noteq> p then 0 else 1)"
    "count_list es1 (Startup_info q) = (if knows s p \<or> q \<noteq> p then 0 else 1)"
    by (auto simp: e(4))
  have once: "init_once s \<longrightarrow> (\<forall>p. Init_user p \<notin> set es1) \<and> init_once s1" by (simp add: e(4,5))
  show ?case
  proof (cases "q = p")
    case False
    with IH k n once e(3) show ?thesis by (simp add: c(3))
  next
    case True
    with IH k n once e(3) show ?thesis by (auto simp: c(3))
  qed
qed simp

lemma start_user_session_ok: "user_session_ok start_session" "\<not> knows start_session p"
  "bound_at (inited_procs start_session) = (\<lambda>_. None)"
  by (simp_all add: user_session_ok_def knows_def start_session_def)

text \<open>C38: however many Windows processes come up in the host, the session is set up once, and
  for the first of them before anything that needs it; every process that has a slot of the table
  takes its startup information and gets its window station exactly once, however often it calls;
  one that found the table full does so at each call.\<close>
theorem user_session_once:
  assumes "0 \<notin> set ps" "ps \<noteq> []" and run: "user_calls ps start_session = (es, t)"
  shows "(\<exists>fs. es = Startup_info (hd ps) # Init_user (hd ps) # fs \<and> (\<forall>p. Init_user p \<notin> set fs)) \<and>
    count_list es (Winstation q) = (if knows t q then 1 else count_list ps q) \<and>
    count_list es (Startup_info q) = (if knows t q then 1 else count_list ps q)"
proof -
  from assms(2) obtain p qs where ps: "ps = p # qs" by (cases ps) auto
  with run obtain es1 s1 es2 where
    c: "init_user_process p start_session = (es1, s1)" "user_calls qs s1 = (es2, t)" "es = es1 @ es2"
    by (auto simp: Let_def split: prod.splits)
  have p: "p \<noteq> 0" "0 \<notin> set qs" using assms(1) ps by auto
  note e = init_user_process_effect [OF start_user_session_ok(1) p(1) c(1)]
  have once: "init_once s1" using e(5) start_user_session_ok(2) by simp
  have "es1 = [Startup_info p, Init_user p, Winstation p, Desktop_class p]"
    using e(4) start_user_session_ok(2) by (simp add: start_session_def)
  moreover have "\<forall>x. Init_user x \<notin> set es2"
    using user_calls_effect [OF e(1) p(2) c(2)] once by simp
  ultimately have "\<exists>fs. es = Startup_info (hd ps) # Init_user (hd ps) # fs \<and> (\<forall>x. Init_user x \<notin> set fs)"
    using c(3) ps by auto
  with user_calls_effect [OF start_user_session_ok(1) assms(1) run, of q] start_user_session_ok(2) show ?thesis by simp
qed

theorem user_session_once_witness:
  "count_list (fst (user_calls [16, 64, 16] start_session)) (Winstation 64) = 1"
proof -
  obtain es t where r: "user_calls [16, 64, 16] start_session = (es, t)" by fastforce
  have "count_list es (Winstation 64) = (if knows t 64 then 1 else count_list [16, 64, 16 :: ptr] 64)"
    using user_session_once [OF _ _ r, of 64] by simp
  with r show ?thesis by simp
qed

end
