(* ===== verification/DriverStart.thy ===== *)
theory DriverStart
  imports DriverPixels Display GuestExit
begin

text \<open>
  How the display driver comes up: \<^verbatim>\<open>iosdrv_unix_init\<close> of
  \<^verbatim>\<open>dlls/wineios.drv/iosdrv_main.c\<close> and \<^verbatim>\<open>IOSDRV_UpdateDisplayDevices\<close> of
  \<^verbatim>\<open>display.c\<close> in \<^verbatim>\<open>native/patches/0007-ios-display-driver.patch\<close>, with the
  bridge's own table \<^verbatim>\<open>host_vtable\<close> of \<^verbatim>\<open>WineDisplayHost.c\<close>.
\<close>

section \<open>Reading a size\<close>

text \<open>
  The conversion \<^verbatim>\<open>%u\<close> of \<^verbatim>\<open>sscanf\<close>: white space, a sign, digits; the value as
  \<^verbatim>\<open>strtoul\<close> has it, cut to 32 bits. The rest of the input follows.
\<close>

definition scan_u :: "string \<Rightarrow> (u32 \<times> string) option" where
  "scan_u s =
     (let (neg, t) = strip_sign (dropWhile c_isspace s);
          ds = takeWhile is_digit t;
          v = digits_value 10 0 ds
      in if ds = [] then None
         else Some (if 2 ^ 64 \<le> v then -1 else if neg then - of_nat v else of_nat v, drop (length ds) t))"

text \<open>\<^verbatim>\<open>sscanf(env, "%ux%u", &ew, &eh) == 2\<close>\<close>

definition scan_size :: "string \<Rightarrow> (u32 \<times> u32) option" where
  "scan_size s =
     (case scan_u s of
        Some (w, c # t) \<Rightarrow> if c = CHR ''x'' then map_option (\<lambda>(h, _). (w, h)) (scan_u t) else None
      | _ \<Rightarrow> None)"

section \<open>The start\<close>

abbreviation WINEIOS_HOST_ABI_VERSION :: u32 where "WINEIOS_HOST_ABI_VERSION \<equiv> 1"

text \<open>Of \<^verbatim>\<open>struct wineios_host\<close> what the start uses; \<open>None\<close>: the callback is NULL, and the
  inner \<open>None\<close> is its result 0.\<close>

record wineios_host =
  abi_version :: u32
  h_screen_size :: "(u32 \<times> u32) option option"

text \<open>The table of the bridge, \<open>d\<close> being its state.\<close>

definition host_vtable :: "display \<Rightarrow> wineios_host" where
  "host_vtable d = \<lparr>abi_version = WINEIOS_HOST_ABI_VERSION, h_screen_size = Some (screen_size d)\<rparr>"

record driver_globals =
  iosdrv_host :: "wineios_host option"
  screen_rect :: rect
  iosdrv_dump_dir :: "string option"
  once_run :: bool

definition set_rect :: "u32 \<Rightarrow> u32 \<Rightarrow> rect" where
  "set_rect w h = \<lparr>r_left = 0, r_top = 0, r_right = sint w, r_bottom = sint h\<rparr>"

definition start_globals :: driver_globals where
  "start_globals = \<lparr>iosdrv_host = None, screen_rect = set_rect 1024 768, iosdrv_dump_dir = None, once_run = False\<rparr>"

text \<open>\<open>host_get\<close>: \<open>None\<close> when the symbol is not found, else what the app's function returns.\<close>

definition iosdrv_init_once ::
  "wineios_host option option \<Rightarrow> environment \<Rightarrow> driver_globals \<Rightarrow> driver_globals" where
  "iosdrv_init_once host_get e s =
     (let host = (case host_get of
              None \<Rightarrow> iosdrv_host s
            | Some None \<Rightarrow> None
            | Some (Some h) \<Rightarrow> if abi_version h \<noteq> WINEIOS_HOST_ABI_VERSION then None else Some h);
          rect =
            (case e ''WINEIOS_SCREEN'' of
               Some v \<Rightarrow>
                 (case scan_size v of
                    Some (ew, eh) \<Rightarrow> if ew \<noteq> 0 \<and> eh \<noteq> 0 then set_rect ew eh else screen_rect s
                  | None \<Rightarrow> screen_rect s)
             | None \<Rightarrow>
                 (case host of
                    Some h \<Rightarrow>
                      (case h_screen_size h of
                         Some (Some (w, hh)) \<Rightarrow> if w \<noteq> 0 \<and> hh \<noteq> 0 then set_rect w hh else screen_rect s
                       | _ \<Rightarrow> screen_rect s)
                  | None \<Rightarrow> screen_rect s))
      in s\<lparr>iosdrv_host := host, screen_rect := rect,
           iosdrv_dump_dir := (case e ''WINEIOS_SURFACE_DUMP'' of
              Some (c # cs) \<Rightarrow> Some (c # cs) | _ \<Rightarrow> iosdrv_dump_dir s)\<rparr>)"

definition iosdrv_unix_init ::
  "wineios_host option option \<Rightarrow> environment \<Rightarrow> driver_globals \<Rightarrow> driver_globals" where
  "iosdrv_unix_init host_get e s =
     (if once_run s then s else (iosdrv_init_once host_get e s)\<lparr>once_run := True\<rparr>)"

text \<open>
  \<^verbatim>\<open>DllMain\<close>, in each process that loads the driver: its result, whether it starts the
  thread that runs the input loop, and the globals. \<open>attach\<close>: it is told of the process;
  \<open>unix_failed\<close>: \<^verbatim>\<open>__wine_init_unix_call\<close> failed.
\<close>

definition dll_main ::
  "bool \<Rightarrow> bool \<Rightarrow> wineios_host option option \<Rightarrow> environment \<Rightarrow> driver_globals \<Rightarrow> bool \<times> bool \<times> driver_globals" where
  "dll_main attach unix_failed host_get e s =
     (if \<not> attach then (True, False, s)
      else if unix_failed then (False, False, s)
      else (True, True, iosdrv_unix_init host_get e s))"

text \<open>The mode that is registered, and the monitor, of the size of the screen.\<close>

record display_mode =
  dmPelsWidth :: u32
  dmPelsHeight :: u32
  dmBitsPerPel :: u32
  dmDisplayFrequency :: u32

definition update_display_devices :: "driver_globals \<Rightarrow> rect \<times> display_mode" where
  "update_display_devices s =
     (screen_rect s,
      \<lparr>dmPelsWidth = of_int (r_right (screen_rect s) - r_left (screen_rect s)),
       dmPelsHeight = of_int (r_bottom (screen_rect s) - r_top (screen_rect s)),
       dmBitsPerPel = 32, dmDisplayFrequency = 60\<rparr>)"

section \<open>The size of the desktop\<close>

definition desktop_size :: "driver_globals \<Rightarrow> u32 \<times> u32" where
  "desktop_size s = (let m = snd (update_display_devices s) in (dmPelsWidth m, dmPelsHeight m))"

lemma desktop_size_rect: "desktop_size (s\<lparr>screen_rect := set_rect w h\<rparr>) = (w, h)"
  by (simp add: desktop_size_def update_display_devices_def set_rect_def)

lemma desktop_size_eq: "screen_rect s = set_rect w h \<Longrightarrow> desktop_size s = (w, h)"
  by (simp add: desktop_size_def update_display_devices_def set_rect_def)

lemma scan_u_dec:
  assumes "n < 2 ^ 64" "rest = [] \<or> \<not> is_digit (hd rest)"
  shows "scan_u (dec n @ rest) = Some (of_nat n, rest)"
proof -
  obtain c cs where d: "dec n = c # cs" using dec_correct [of n] by (cases "dec n") auto
  then have c: "is_digit c" using dec_correct [of n] by auto
  have trim: "strip_sign (dropWhile c_isspace (dec n @ rest)) = (False, dec n @ rest)"
    using digit_plain [OF c] by (simp add: d strip_sign_def)
  have "takeWhile is_digit (dec n @ rest) = dec n @ takeWhile is_digit rest"
    using dec_correct [of n] by (intro takeWhile_append2) auto
  also have "takeWhile is_digit rest = []" using assms(2) by (cases rest) auto
  finally have "takeWhile is_digit (dec n @ rest) = dec n" by simp
  with trim assms(1) dec_correct [of n] show ?thesis by (simp add: scan_u_def)
qed

lemma scan_size_dec:
  "w < 2 ^ 64 \<Longrightarrow> h < 2 ^ 64 \<Longrightarrow> scan_size (dec w @ ''x'' @ dec h) = Some (of_nat w, of_nat h)"
  using scan_u_dec [of w "''x'' @ dec h"] scan_u_dec [of h "[]"]
  by (simp add: scan_size_def is_digit_def)

text \<open>After the first load in an app with this bridge, and others by later processes.\<close>

definition desktop_after ::
  "display \<Rightarrow> environment \<Rightarrow> (wineios_host option option \<times> environment) list \<Rightarrow> u32 \<times> u32" where
  "desktop_after d e later =
     desktop_size (fold (\<lambda>(host_get, e). iosdrv_unix_init host_get e) later
       (iosdrv_unix_init (Some (Some (host_vtable d))) e start_globals))"

lemma later_loads: "once_run s \<Longrightarrow> fold (\<lambda>(host_get, e). iosdrv_unix_init host_get e) later s = s"
  by (induction later) (auto simp: iosdrv_unix_init_def)

lemma desktop_after_first:
  "screen_rect (iosdrv_init_once (Some (Some (host_vtable d))) e start_globals) = set_rect w h \<Longrightarrow>
    desktop_after d e later = (w, h)"
  by (simp add: desktop_after_def later_loads iosdrv_unix_init_def start_globals_def desktop_size_eq)

text \<open>C39: the desktop gets the size it is given, and only once: the first load of the driver
  takes the size of \<^verbatim>\<open>WINEIOS_SCREEN\<close> as it is printed, else the size the app configured,
  else 1024 by 768; no later load by another process of the host, whatever its environment,
  changes it; and a malformed \<^verbatim>\<open>WINEIOS_SCREEN\<close> makes the driver ignore the app's size
  too.\<close>
theorem desktop_size_as_given:
  assumes w: "0 < w" "w < 2 ^ 32" and h: "0 < h" "h < 2 ^ 32"
  shows "desktop_after d (e(''WINEIOS_SCREEN'' := Some (dec w @ ''x'' @ dec h))) later = (of_nat w, of_nat h) \<and>
    desktop_after (configure (of_nat w) (of_nat h) d) (e(''WINEIOS_SCREEN'' := None)) later = (of_nat w, of_nat h) \<and>
    desktop_after (configure 0 0 d) (e(''WINEIOS_SCREEN'' := None)) later = (1024, 768) \<and>
    (scan_size v = None \<longrightarrow> desktop_after d (e(''WINEIOS_SCREEN'' := Some v)) later = (1024, 768))"
proof -
  have nz: "(of_nat w :: u32) \<noteq> 0" "(of_nat h :: u32) \<noteq> 0"
    using w h by (simp_all add: word_of_nat_eq_0_iff nat_dvd_not_less)
  have scan: "scan_size (dec w @ ''x'' @ dec h) = Some (of_nat w, of_nat h)"
    using w h by (intro scan_size_dec) simp_all
  show ?thesis
  proof (intro conjI impI)
    show "desktop_after d (e(''WINEIOS_SCREEN'' := Some (dec w @ ''x'' @ dec h))) later = (of_nat w, of_nat h)"
      by (rule desktop_after_first) (use nz scan in \<open>simp add: iosdrv_init_once_def Let_def\<close>)
    show "desktop_after (configure (of_nat w) (of_nat h) d) (e(''WINEIOS_SCREEN'' := None)) later = (of_nat w, of_nat h)"
      by (rule desktop_after_first)
        (use nz in \<open>simp add: iosdrv_init_once_def Let_def host_vtable_def screen_size_def configure_def\<close>)
    show "desktop_after (configure 0 0 d) (e(''WINEIOS_SCREEN'' := None)) later = (1024, 768)"
      by (rule desktop_after_first)
        (simp add: iosdrv_init_once_def Let_def host_vtable_def screen_size_def configure_def start_globals_def)
    show "scan_size v = None \<Longrightarrow> desktop_after d (e(''WINEIOS_SCREEN'' := Some v)) later = (1024, 768)"
      by (rule desktop_after_first) (simp add: iosdrv_init_once_def Let_def start_globals_def)
  qed
qed

theorem desktop_size_as_given_witness:
  "desktop_after start_display (\<lambda>x. if x = ''WINEIOS_SCREEN'' then Some ''1170x2532'' else None) [(None, \<lambda>_. None)] = (1170, 2532)"
proof -
  have "dec 1170 = ''1170''" "dec 2532 = ''2532''" by code_simp+
  moreover have "(\<lambda>x. if x = ''WINEIOS_SCREEN'' then Some ''1170x2532'' else None) =
      (\<lambda>_. None)(''WINEIOS_SCREEN'' := Some ''1170x2532'')" by auto
  ultimately show ?thesis
    using desktop_size_as_given [of 1170 2532 start_display "\<lambda>_. None" "[(None, \<lambda>_. None)]"] by simp
qed

end
