(* ===== verification/DriverDump.thy ===== *)
theory DriverDump
  imports DriverProps
begin

text \<open>
  What the driver writes for its test harness, \<^verbatim>\<open>dlls/wineios.drv/window.c\<close> in
  \<^verbatim>\<open>native/patches/0007-ios-display-driver.patch\<close>: a surface as a bitmap file, and
  the checksum a flush reports.
\<close>

section \<open>The file\<close>

text \<open>The 54 bytes of \<^verbatim>\<open>hdr\<close>.\<close>

definition bmp_header :: "u32 \<Rightarrow> u32 \<Rightarrow> u32 \<Rightarrow> byte list" where
  "bmp_header width height image_size =
     [0x42, 0x4D] @ le_bytes 4 (54 + image_size) @ replicate 4 0 @ [54, 0, 0, 0] @ [40, 0, 0, 0] @
     le_bytes 4 width @ le_bytes 4 height @ [1, 0] @ [32, 0] @ replicate 4 0 @ le_bytes 4 image_size @
     replicate 16 0"

text \<open>
  \<open>y\<close> runs down from \<^verbatim>\<open>(int)(height - 1)\<close>; the offset of a row is the 32-bit product.
  The result is what is handed to \<^verbatim>\<open>fwrite\<close>, in order.
\<close>

definition dump_surface_bmp :: "nat \<Rightarrow> u32 \<Rightarrow> u32 \<Rightarrow> u32 \<Rightarrow> mem \<Rightarrow> byte list" where
  "dump_surface_bmp bits width height stride m =
     bmp_header width height (stride * height) @
     concat (map (\<lambda>y. peek m (bits + unat (of_nat y * stride)) (unat stride))
       (rev [0..<nat (sint (height - 1) + 1)]))"

text \<open>The checksum over the pixels.\<close>

definition surface_checksum :: "nat \<Rightarrow> u32 \<Rightarrow> u32 \<Rightarrow> mem \<Rightarrow> u32" where
  "surface_checksum bits width height m =
     foldl (\<lambda>c i. c * 31 + word_at m (bits + 4 * i) 4) 0 [0..<unat (width * height)]"

section \<open>Reading it back\<close>

text \<open>How a bitmap file of 32 bits per pixel with a positive height is read: rows from the bottom.\<close>

definition file_word :: "byte list \<Rightarrow> nat \<Rightarrow> u32" where
  "file_word f a = le_word (take 4 (drop a f))"

definition bmp_pixel :: "byte list \<Rightarrow> nat \<Rightarrow> nat \<Rightarrow> u32" where
  "bmp_pixel f x y =
     file_word f (unat (file_word f 10) +
       (unat (file_word f 22) - 1 - y) * (4 * unat (file_word f 18)) + 4 * x)"

lemma length_bmp_header [simp]: "length (bmp_header w h n) = 54"
  by (simp add: bmp_header_def)

lemma bmp_header_fields:
  "file_word (bmp_header w h n @ r) 2 = 54 + n" "file_word (bmp_header w h n @ r) 10 = 54"
  "file_word (bmp_header w h n @ r) 18 = w" "file_word (bmp_header w h n @ r) 22 = h"
  by (simp_all add: file_word_def bmp_header_def le_word_le_bytes del: le_bytes.simps)

lemma bmp_body: "file_word (bmp_header w h n @ r) (54 + i + j) = le_word (take 4 (drop (i + j) r))"
  by (simp add: file_word_def)

lemma take_drop_rows:
  "\<forall>row \<in> set rows. length row = n \<Longrightarrow> j < length rows \<Longrightarrow> k + i \<le> n \<Longrightarrow>
     take k (drop (j * n + i) (concat rows)) = take k (drop i (rows ! j))"
proof (induction rows arbitrary: j)
  case (Cons row rows)
  show ?case
  proof (cases j)
    case (Suc l)
    with Cons show ?thesis by (simp add: add.assoc)
  qed (use Cons.prems in simp)
qed simp

lemma length_rows: "\<forall>row \<in> set rows. length row = n \<Longrightarrow> length (concat rows) = length rows * n"
  by (induction rows) simp_all

text \<open>The file of a surface whose image fits a bitmap file holds its pixels.\<close>

lemma dump_rows:
  fixes width height stride :: u32
  assumes "stride = width * 4" "54 + 4 * unat width * unat height < 2 ^ 32" "0 < width" "0 < height"
  shows "unat stride = 4 * unat width" "nat (sint (height - 1) + 1) = unat height"
    "y < unat height \<Longrightarrow> unat (of_nat y * stride) = y * (4 * unat width)"
    "unat (stride * height) = 4 * unat width * unat height"
proof -
  have w: "1 \<le> unat width" "1 \<le> unat height" using assms(3,4) by (simp_all add: word_less_nat_alt)
  have le: "unat height \<le> unat width * unat height" "unat width \<le> unat width * unat height"
    using w by simp_all
  show st: "unat stride = 4 * unat width"
  proof -
    have "4 * unat width < 2 ^ 32" using assms(2) le(2) by linarith
    then show ?thesis by (simp add: assms(1) unat_word_ariths)
  qed
  have h: "unat (height - 1) = unat height - 1" using assms(4) by (simp add: unat_minus_one unat_gt_0)
  moreover have "4 * unat height < 2 ^ 32" using assms(2) le(1) by linarith
  then have "unat (height - 1) < 2 ^ 31" using h by simp
  then have "sint (height - 1) = int (unat (height - 1))" by (intro sint_nonneg positive_int)
  ultimately show "nat (sint (height - 1) + 1) = unat height" using w(2) by simp
  show "unat (of_nat y * stride) = y * (4 * unat width)" if "y < unat height"
  proof -
    have "y * (4 * unat width) \<le> unat height * (4 * unat width)" using that by (intro mult_right_mono) simp_all
    also have "\<dots> = 4 * unat width * unat height" by simp
    also have "\<dots> < 2 ^ 32" using assms(2) by linarith
    finally have "y * (4 * unat width) < 2 ^ 32" .
    moreover have "y < 2 ^ 32" using that unsigned_less [of height, where 'a = nat] by simp
    ultimately show ?thesis using st by (simp add: unat_word_ariths unat_of_nat)
  qed
  show "unat (stride * height) = 4 * unat width * unat height"
    using st assms(2) by (simp add: unat_word_ariths)
qed

text \<open>The file is as long as its header says, and read as a bitmap it is the surface, pixel
  by pixel.\<close>

theorem surface_dump_roundtrip:
  fixes width height stride :: u32
  assumes geometry: "stride = width * 4" "54 + 4 * unat width * unat height < 2 ^ 32"
    and inside: "x < unat width" "y < unat height"
    and f: "f = dump_surface_bmp bits width height stride m"
  shows "bmp_pixel f x y = word_at m (bits + y * (4 * unat width) + 4 * x) 4 \<and>
    length f = unat (file_word f 2)"
proof -
  have pos: "0 < width" "0 < height" using inside by (simp_all add: word_less_nat_alt)
  note d = dump_rows [OF geometry pos]
  define n where "n = 4 * unat width"
  define rows where "rows = map (\<lambda>y. peek m (bits + unat (of_nat y * stride)) (unat stride)) (rev [0..<unat height])"
  have f': "f = bmp_header width height (stride * height) @ concat rows"
    by (simp add: f dump_surface_bmp_def d(2) rows_def)
  have len: "\<forall>row \<in> set rows. length row = n" "length rows = unat height"
    by (auto simp: rows_def d(1) n_def)
  have row: "rows ! (unat height - 1 - y) = peek m (bits + y * n) n"
    using inside(2) d(3) [of y] by (simp add: rows_def rev_nth d(1) n_def)
  have "bmp_pixel f x y = le_word (take 4 (drop (4 * x) (rows ! (unat height - 1 - y))))"
    using take_drop_rows [OF len(1), of "unat height - 1 - y" 4 "4 * x"] len(2) inside
    by (simp add: bmp_pixel_def f' bmp_header_fields bmp_body n_def)
  also have "\<dots> = word_at m (bits + y * n + 4 * x) 4"
    using inside(1) unfolding row by (simp add: peek_drop peek_take word_at_def n_def)
  finally show ?thesis
    using length_rows [OF len(1)] len(2) d(4) geometry(2)
    by (simp add: f' bmp_header_fields n_def unat_word_ariths mult.commute mult.left_commute)
qed

theorem surface_dump_roundtrip_witness:
  "bmp_pixel (dump_surface_bmp 64 3 2 12 (\<lambda>i. of_nat i)) 1 1 =
     word_at (\<lambda>i. of_nat i) 80 4"
  using surface_dump_roundtrip [OF _ _ _ _ refl, of 12 3 2 1 1 64 "\<lambda>i. of_nat i"] by simp

end
