(* ===== verification/PeloadTest.thy ===== *)
theory PeloadTest
  imports MkexeProps
begin

text \<open>
  The program of \<^verbatim>\<open>native/wineforge/peload_test.c\<close> around its loader: the image it
  builds in memory, and the check that two copies of it, loaded at two bases of one address
  space, are each relocated and run.
\<close>

section \<open>The image\<close>

text \<open>Its structures have the values of \<^verbatim>\<open>mkexe\<close>; the code is a constant.\<close>

definition build_pe :: mem where
  "build_pe =
     (let pe = unat (e_lfanew mk_dos); fh = pe + 4; oh = fh + 20; sec = oh + 240;
          m0 = poke 0 (dos_header_bytes mk_dos) (\<lambda>_. 0);
          m1 = poke pe (le_bytes 4 (0x00004550 :: u32)) m0;
          m2 = poke fh (file_header_bytes mk_file_header) m1;
          m3 = poke oh (opt_header64_bytes mk_opt_header) m2;
          m4 = poke sec (concat (map section_header_bytes mk_sections)) m3;
          m5 = poke TEXT_RVA [0xB8, 0x2A, 0x00, 0x00, 0x00, 0xC3] m4;
          m6 = poke DATA_RVA (le_bytes 8 (PREFERRED_BASE + of_nat DATA_RVA)) m5;
          m7 = poke RELOC_RVA (base_reloc_block_bytes mk_block) m6
      in poke (RELOC_RVA + 8) (le_bytes 2 mk_entry) m7)"

section \<open>The check\<close>

text \<open>
  One instance: \<open>mapped\<close> and \<open>protected\<close> are what the system answers for it. The result is the
  base and the number of failed checks; \<open>Inl\<close>: it did not load, and the program returns. \<open>None\<close>:
  a fault, a walk that does not end, or an entry point that is not the code of the image.
\<close>

definition check_instance :: "byte list \<Rightarrow> u64 option \<times> bool \<Rightarrow> (unit + u64 \<times> nat) option" where
  "check_instance pe_file ans =
     (case load_pe pe_file (fst ans) (snd ans) of
        None \<Rightarrow> None
      | Some Faults \<Rightarrow> None
      | Some Returns_NULL \<Rightarrow> Some (Inl ())
      | Some (Image m) \<Rightarrow>
          let base = the (fst ans) in
          if base = 0 then Some (Inl ())
          else let relocated = (word_at m DATA_RVA 8 = base + of_nat DATA_RVA)
          in (case entry_returns m TEXT_RVA of
                None \<Rightarrow> None
              | Some rc \<Rightarrow>
                  Some (Inr (base, (if relocated then 0 else 1) + (if rc = 0x2A then 0 else 1)))))"

text \<open>The exit status of the program, given the answers for the two instances.\<close>

definition peload_main :: "u64 option \<times> bool \<Rightarrow> u64 option \<times> bool \<Rightarrow> int option" where
  "peload_main a b =
     (let pe_file = peek build_pe 0 IMAGE_SIZE in
      case check_instance pe_file a of
        None \<Rightarrow> None
      | Some (Inl _) \<Rightarrow> Some 1
      | Some (Inr (base_a, fail_a)) \<Rightarrow>
          (case check_instance pe_file b of
             None \<Rightarrow> None
           | Some (Inl _) \<Rightarrow> Some 1
           | Some (Inr (base_b, fail_b)) \<Rightarrow>
               Some (if fail_a + fail_b + (if base_a = base_b then 1 else 0) \<noteq> 0 then 1 else 0)))"

text \<open>The image is the one \<^verbatim>\<open>mkexe\<close> writes for the code 42.\<close>

lemma build_pe_mkexe: "build_pe = pe_image 42"
  by (simp add: build_pe_def pe_image_def entry_code_def Let_def del: le_bytes.simps)

lemma load_image_refused:
  "load_pe (exe_file c) None p = Some Returns_NULL" "load_pe (exe_file c) (Some base) False = Some Returns_NULL"
proof -
  have "copy_in 0x4000 (exe_file c) 0 0 0x200 (\<lambda>_. 0) = Some (poke 0 (take 0x200 (exe_file c)) (\<lambda>_. 0))"
    by (simp add: copy_in_def)
  then show "load_pe (exe_file c) None p = Some Returns_NULL" "load_pe (exe_file c) (Some base) False = Some Returns_NULL"
    unfolding load_pe_def exe_file_mem Let_def
    by (simp_all add: exe_headers mk_dos_def mk_file_header_def mk_opt_header_def exe_sections copied_image
        walk_image del: le_bytes.simps)
qed

lemma check_instance_ok:
  "check_instance (exe_file 42) (x, p) =
     (case x of
        Some base \<Rightarrow> if p \<and> base \<noteq> 0 then Some (Inr (base, 0)) else Some (Inl ())
      | None \<Rightarrow> Some (Inl ()))"
proof (cases "\<exists>base. x = Some base \<and> p")
  case True
  then obtain base where x: "x = Some base" "p" by blast
  let ?m = "poke 0x2000 (le_bytes 8 (base + 0x2000)) (pe_image 42)"
  have s: "stored ?m 0x1000 (entry_code 42)" "stored ?m 0x2000 (le_bytes 8 (base + 0x2000))"
    using pe_image_stored(6) [of 42] by (simp_all add: stored_poke stored_poke_other del: le_bytes.simps)
  have "word_at ?m 0x2000 8 = base + 0x2000" using s(2) by (simp add: layout del: le_bytes.simps)
  with x entry_image [OF s(1)] show ?thesis
    by (simp add: check_instance_def load_image Let_def del: le_bytes.simps)
qed (auto simp: check_instance_def load_image_refused split: option.split)

text \<open>
  The program never faults, and passes exactly when the system gives it two different places to
  load at and lets it run there.
\<close>

theorem peload_passes_iff:
  "peload_main (x, p) (y, q) =
     Some (if \<exists>a b. x = Some a \<and> y = Some b \<and> p \<and> q \<and> a \<noteq> 0 \<and> b \<noteq> 0 \<and> a \<noteq> b then 0 else 1)"
  unfolding peload_main_def build_pe_mkexe Let_def check_instance_ok
  by (auto split: option.split)

end
