(* ===== verification/ServerRun.thy ===== *)
theory ServerRun
  imports InprocSpawn
begin

text \<open>
  The Wine server as a thread of the app:
  \<^verbatim>\<open>native/patches/0001-embeddable-server-shutdown.patch\<close> turns its exits into returns
  of \<^verbatim>\<open>wineserver_run\<close>, \<^verbatim>\<open>0002-no-fork-embedded-server.patch\<close> and
  \<^verbatim>\<open>0005-forkless-build.patch\<close> refuse to start one, or anything else, as a process.

  What the server does between its start and its end is Wine's own code: it is a list of the
  events at which the patched functions run. The functions the patch changes are given as they
  were as well.
\<close>

section \<open>The process and the events of a run\<close>

record server_proc =
  server_embedded :: bool
  server_exit_status :: int
  jmp_live :: bool \<comment> \<open>the frame whose \<^verbatim>\<open>setjmp\<close> filled \<^verbatim>\<open>server_exit_jmp\<close> has not returned\<close>
  at_exit :: bool \<comment> \<open>\<^verbatim>\<open>socket_cleanup\<close> is registered by \<^verbatim>\<open>atexit\<close>\<close>
  do_it_once :: int \<comment> \<open>before the patch\<close>
  socket_file :: bool \<comment> \<open>\<^verbatim>\<open>server_socket_name\<close> exists\<close>
  registry_flushes :: nat

text \<open>How a function of the server comes back, if it does.\<close>

datatype flow =
    Goes_on
  | Jumps \<comment> \<open>to the \<^verbatim>\<open>setjmp\<close> of \<^verbatim>\<open>wineserver_run\<close>\<close>
  | Jumps_nowhere
  | Exits int
  | Exits_at_once int \<comment> \<open>\<^verbatim>\<open>_exit\<close>: no handler runs\<close>

text \<open>
  The master socket is opened in the foreground, or in the background, where the process that
  forked the server leaves with the given status; the shutdown timer; a signal to terminate; a fatal
  error; handlers that cannot be installed; one of Wine's own calls of \<^verbatim>\<open>exit\<close> that the
  patch leaves (bad options, a server that is already there); anything else.
\<close>

datatype server_event =
    Opens_socket
  | Opens_socket_in_background int
  | Shutdown_timer
  | Terminate_signal
  | Fatal_error
  | No_signal_handlers
  | Calls_exit int
  | Other_work

section \<open>The patched server\<close>

definition server_exit :: "int \<Rightarrow> server_proc \<Rightarrow> flow \<times> server_proc" where
  "server_exit st s =
     (if server_embedded s
      then (if jmp_live s then Jumps else Jumps_nowhere, s\<lparr>server_exit_status := st\<rparr>)
      else (Exits st, s))"

definition socket_cleanup :: "server_proc \<Rightarrow> server_proc" where
  "socket_cleanup s = s\<lparr>socket_file := False\<rparr>"

definition flush_registry :: "server_proc \<Rightarrow> server_proc" where
  "flush_registry s = s\<lparr>registry_flushes := Suc (registry_flushes s)\<rparr>"

definition fatal_error :: "server_proc \<Rightarrow> flow \<times> server_proc" where
  "fatal_error s = server_exit 1 s"

definition close_socket_timeout :: "server_proc \<Rightarrow> flow \<times> server_proc" where
  "close_socket_timeout s = server_exit 0 (socket_cleanup s)"

definition sigterm_callback :: "server_proc \<Rightarrow> flow \<times> server_proc" where
  "sigterm_callback s = server_exit 1 (flush_registry s)"

definition init_signals_error :: "server_proc \<Rightarrow> flow \<times> server_proc" where
  "init_signals_error s = server_exit 1 s"

text \<open>\<open>background\<close>: the status with which the forking process leaves.\<close>

definition open_master_socket :: "bool \<Rightarrow> int option \<Rightarrow> server_proc \<Rightarrow> flow \<times> server_proc" where
  "open_master_socket forkless background s =
     (case background of
        Some st \<Rightarrow> if forkless then fatal_error s else (Exits_at_once st, s)
      | None \<Rightarrow> (Goes_on, s\<lparr>socket_file := True, at_exit := True\<rparr>))"

fun server_event_step :: "bool \<Rightarrow> server_event \<Rightarrow> server_proc \<Rightarrow> flow \<times> server_proc" where
  "server_event_step forkless Opens_socket s = open_master_socket forkless None s"
| "server_event_step forkless (Opens_socket_in_background st) s = open_master_socket forkless (Some st) s"
| "server_event_step forkless Shutdown_timer s = close_socket_timeout s"
| "server_event_step forkless Terminate_signal s = sigterm_callback s"
| "server_event_step forkless Fatal_error s = fatal_error s"
| "server_event_step forkless No_signal_handlers s = init_signals_error s"
| "server_event_step forkless (Calls_exit st) s = (Exits st, s)"
| "server_event_step forkless Other_work s = (Goes_on, s)"

text \<open>When the events are over \<^verbatim>\<open>main_loop\<close> returns.\<close>

fun server_body :: "bool \<Rightarrow> server_event list \<Rightarrow> server_proc \<Rightarrow> flow \<times> server_proc" where
  "server_body forkless [] s = (Goes_on, s)"
| "server_body forkless (e # es) s =
     (case server_event_step forkless e s of
        (Goes_on, t) \<Rightarrow> server_body forkless es t
      | r \<Rightarrow> r)"

text \<open>How the call of an entry point ends: for its process, or by returning to its caller.\<close>

datatype run_end = Process_exits int | Process_exits_at_once int | Returned int | Undefined

definition run_atexit :: "server_proc \<Rightarrow> server_proc" where
  "run_atexit s = (if at_exit s then socket_cleanup s else s)"

definition server_main :: "bool \<Rightarrow> server_event list \<Rightarrow> server_proc \<Rightarrow> run_end \<times> server_proc" where
  "server_main forkless es s =
     (case server_body forkless es s of
        (Goes_on, t) \<Rightarrow> (Process_exits 0, run_atexit t)
      | (Exits st, t) \<Rightarrow> (Process_exits st, run_atexit t)
      | (Exits_at_once st, t) \<Rightarrow> (Process_exits_at_once st, t)
      | (_, t) \<Rightarrow> (Undefined, t))"

definition wineserver_run :: "bool \<Rightarrow> server_event list \<Rightarrow> server_proc \<Rightarrow> run_end \<times> server_proc" where
  "wineserver_run forkless es s =
     (case server_body forkless es (s\<lparr>server_embedded := True, server_exit_status := 0, jmp_live := True\<rparr>) of
        (Goes_on, t) \<Rightarrow> (Returned (server_exit_status t), t\<lparr>server_embedded := False, jmp_live := False\<rparr>)
      | (Jumps, t) \<Rightarrow> (Returned (server_exit_status t), t\<lparr>server_embedded := False, jmp_live := False\<rparr>)
      | (Exits st, t) \<Rightarrow> (Process_exits st, run_atexit t)
      | (Exits_at_once st, t) \<Rightarrow> (Process_exits_at_once st, t)
      | (Jumps_nowhere, t) \<Rightarrow> (Undefined, t))"

section \<open>The server before the patch\<close>

definition old_socket_cleanup :: "server_proc \<Rightarrow> server_proc" where
  "old_socket_cleanup s =
     (let s1 = s\<lparr>do_it_once := do_it_once s + 1\<rparr>
      in if do_it_once s = 0 then s1\<lparr>socket_file := False\<rparr> else s1)"

fun old_server_event_step :: "bool \<Rightarrow> server_event \<Rightarrow> server_proc \<Rightarrow> flow \<times> server_proc" where
  "old_server_event_step forkless Opens_socket s = (Goes_on, s\<lparr>socket_file := True, at_exit := True\<rparr>)"
| "old_server_event_step forkless (Opens_socket_in_background st) s =
     (if forkless then (Exits 1, s) else (Exits_at_once st, s))"
| "old_server_event_step forkless Shutdown_timer s = (Exits 0, s)"
| "old_server_event_step forkless Terminate_signal s = (Exits 1, flush_registry s)"
| "old_server_event_step forkless Fatal_error s = (Exits 1, s)"
| "old_server_event_step forkless No_signal_handlers s = (Exits 1, s)"
| "old_server_event_step forkless (Calls_exit st) s = (Exits st, s)"
| "old_server_event_step forkless Other_work s = (Goes_on, s)"

fun old_server_body :: "bool \<Rightarrow> server_event list \<Rightarrow> server_proc \<Rightarrow> flow \<times> server_proc" where
  "old_server_body forkless [] s = (Goes_on, s)"
| "old_server_body forkless (e # es) s =
     (case old_server_event_step forkless e s of
        (Goes_on, t) \<Rightarrow> old_server_body forkless es t
      | r \<Rightarrow> r)"

definition old_server_main :: "bool \<Rightarrow> server_event list \<Rightarrow> server_proc \<Rightarrow> run_end \<times> server_proc" where
  "old_server_main forkless es s =
     (case old_server_body forkless es s of
        (Goes_on, t) \<Rightarrow> (Process_exits 0, if at_exit t then old_socket_cleanup t else t)
      | (Exits st, t) \<Rightarrow> (Process_exits st, if at_exit t then old_socket_cleanup t else t)
      | (Exits_at_once st, t) \<Rightarrow> (Process_exits_at_once st, t)
      | (_, t) \<Rightarrow> (Undefined, t))"

section \<open>Starting processes\<close>

text \<open>The runtime as far as it starts other processes: \<open>processes_created\<close> counts them.\<close>

record launcher =
  server_started :: bool
  processes_created :: nat

datatype 'a client = Client_goes_on 'a | Client_fatal string | Client_exits int

text \<open>\<open>st\<close>: the exit status of the server process, if one is started.\<close>

definition start_server :: "bool \<Rightarrow> environment \<Rightarrow> int \<Rightarrow> launcher \<Rightarrow> unit client \<times> launcher" where
  "start_server forkless e st l =
     (if e ''WINE_EMBEDDED_SERVER'' \<noteq> None
      then (Client_fatal (''no embedded wineserver present '' @
              ''(WINE_EMBEDDED_SERVER set; refusing to fork a server)'' @ [CHR 0x0A]), l)
      else if forkless
      then (Client_fatal (''no wineserver running and a WINE_FORKLESS build cannot spawn one'' @ [CHR 0x0A]), l)
      else if \<not> server_started l
      then let l1 = l\<lparr>processes_created := Suc (processes_created l)\<rparr>
           in if st \<noteq> 0 then (Client_exits st, l1) else (Client_goes_on (), l1\<lparr>server_started := True\<rparr>)
      else (Client_goes_on (), l))"

text \<open>The others, given what Wine's own body of each does in a build that has one.\<close>

definition exec_wineloader ::
  "bool \<Rightarrow> (launcher \<Rightarrow> ntstatus client \<times> launcher) \<Rightarrow> launcher \<Rightarrow> ntstatus client \<times> launcher" where
  "exec_wineloader forkless body l = (if forkless then (Client_goes_on STATUS_NOT_SUPPORTED, l) else body l)"

definition spawn_process_fork ::
  "bool \<Rightarrow> (launcher \<Rightarrow> ntstatus client \<times> launcher) \<Rightarrow> launcher \<Rightarrow> ntstatus client \<times> launcher" where
  "spawn_process_fork forkless body l = (if forkless then (Client_goes_on STATUS_NOT_SUPPORTED, l) else body l)"

definition unix_spawnvp ::
  "bool \<Rightarrow> (launcher \<Rightarrow> ntstatus client \<times> launcher) \<Rightarrow> launcher \<Rightarrow> ntstatus client \<times> launcher" where
  "unix_spawnvp forkless body l = (if forkless then (Client_goes_on STATUS_NOT_SUPPORTED, l) else body l)"

definition fork_and_exec ::
  "bool \<Rightarrow> (launcher \<Rightarrow> ntstatus client \<times> launcher) \<Rightarrow> launcher \<Rightarrow> ntstatus client \<times> launcher" where
  "fork_and_exec forkless body l = (if forkless then (Client_goes_on STATUS_NOT_SUPPORTED, l) else body l)"

section \<open>How a run ends\<close>

definition ends_run :: "server_event \<Rightarrow> bool" where
  "ends_run e \<longleftrightarrow> e \<noteq> Opens_socket \<and> e \<noteq> Other_work"

definition ending :: "server_event list \<Rightarrow> server_event option" where
  "ending es = find ends_run es"

definition opens :: "server_event list \<Rightarrow> bool" where
  "opens es \<longleftrightarrow> Opens_socket \<in> set (takeWhile (\<lambda>e. \<not> ends_run e) es)"

definition opened_if :: "bool \<Rightarrow> server_proc \<Rightarrow> server_proc" where
  "opened_if b s = (if b then s\<lparr>socket_file := True, at_exit := True\<rparr> else s)"

lemma opened_if_simps [simp]:
  "opened_if b (opened_if c s) = opened_if (b \<or> c) s"
  "server_embedded (opened_if b s) = server_embedded s" "jmp_live (opened_if b s) = jmp_live s"
  "server_exit_status (opened_if b s) = server_exit_status s"
  "do_it_once (opened_if b s) = do_it_once s" "registry_flushes (opened_if b s) = registry_flushes s"
  "at_exit (opened_if b s) \<longleftrightarrow> b \<or> at_exit s" "socket_file (opened_if b s) \<longleftrightarrow> b \<or> socket_file s"
  by (simp_all add: opened_if_def)

lemma ending_simps [simp]:
  "ending [] = None" "ending (e # es) = (if ends_run e then Some e else ending es)"
  "opens [] = False" "opens (e # es) \<longleftrightarrow> \<not> ends_run e \<and> (e = Opens_socket \<or> opens es)"
  by (auto simp: ending_def opens_def)

lemma ends_run_simps [simp]:
  "\<not> ends_run Opens_socket" "\<not> ends_run Other_work" "ends_run (Opens_socket_in_background st)"
  "ends_run Shutdown_timer" "ends_run Terminate_signal" "ends_run Fatal_error" "ends_run No_signal_handlers"
  "ends_run (Calls_exit st)"
  by (simp_all add: ends_run_def)

text \<open>The body opens the socket if it comes to that, and ends as its first ending event does.\<close>

lemmas server_handlers = open_master_socket_def fatal_error_def close_socket_timeout_def sigterm_callback_def
  init_signals_error_def server_exit_def socket_cleanup_def flush_registry_def

lemma server_body_ends:
  "server_body forkless es s =
     (case ending es of
        None \<Rightarrow> (Goes_on, opened_if (opens es) s)
      | Some e \<Rightarrow> server_event_step forkless e (opened_if (opens es) s))"
proof (induction es arbitrary: s)
  case (Cons e es)
  show ?case
    by (cases e) (simp_all add: Cons server_handlers opened_if_def split: option.split)
qed (simp add: opened_if_def)

lemma old_server_body_ends:
  "old_server_body forkless es s =
     (case ending es of
        None \<Rightarrow> (Goes_on, opened_if (opens es) s)
      | Some e \<Rightarrow> old_server_event_step forkless e (opened_if (opens es) s))"
proof (induction es arbitrary: s)
  case (Cons e es)
  show ?case by (cases e) (simp_all add: Cons opened_if_def split: option.split)
qed (simp add: opened_if_def)

text \<open>The timer that ends the server is set when the master socket is shut down.\<close>

definition timer_after_socket :: "server_event list \<Rightarrow> bool" where
  "timer_after_socket es \<longleftrightarrow> (ending es = Some Shutdown_timer \<longrightarrow> opens es)"

lemma ending_ends: "ending es = Some e \<Longrightarrow> ends_run e"
  by (induction es) (auto split: if_splits)

text \<open>C40: the patch does not change the standalone server: for every course of events (the
  shutdown timer is set only once the master socket is open) it ends with the same status, has
  flushed the registry as often, and leaves its socket exactly when the server before the patch did,
  though the socket is now removed by the timer and again by the handler at exit, and no longer
  guarded to be removed once.\<close>
theorem standalone_server_unchanged:
  assumes "timer_after_socket es" "\<not> server_embedded s" "do_it_once s = 0"
  shows "fst (server_main forkless es s) = fst (old_server_main forkless es s) \<and>
    socket_file (snd (server_main forkless es s)) = socket_file (snd (old_server_main forkless es s)) \<and>
    registry_flushes (snd (server_main forkless es s)) = registry_flushes (snd (old_server_main forkless es s))"
proof (cases "ending es")
  case None
  with assms show ?thesis
    by (simp add: server_main_def old_server_main_def server_body_ends old_server_body_ends run_atexit_def
        socket_cleanup_def old_socket_cleanup_def)
next
  case (Some e)
  with assms ending_ends [OF Some] show ?thesis
    by (cases e) (simp_all add: server_main_def old_server_main_def server_body_ends old_server_body_ends
        run_atexit_def old_socket_cleanup_def server_handlers timer_after_socket_def)
qed

definition run_status :: "server_event list \<Rightarrow> int" where
  "run_status es = (case ending es of None \<Rightarrow> 0 | Some Shutdown_timer \<Rightarrow> 0 | Some _ \<Rightarrow> 1)"

definition funnelled :: "bool \<Rightarrow> server_event list \<Rightarrow> bool" where
  "funnelled forkless es \<longleftrightarrow>
     (case ending es of
        Some (Calls_exit _) \<Rightarrow> False
      | Some (Opens_socket_in_background _) \<Rightarrow> forkless
      | _ \<Rightarrow> True)"

text \<open>C23: the embedded server returns where the standalone one exits: for every course of events
  whose end goes through the patched functions (\<open>funnelled\<close>: none of Wine's own calls of
  \<^verbatim>\<open>exit\<close>, and no background start in a build that forks; those still end the host),
  \<^verbatim>\<open>wineserver_run\<close> returns the status with which \<^verbatim>\<open>main\<close> ends its process, has
  flushed the registry as often, and leaves the flag \<^verbatim>\<open>server_embedded\<close> off. Where \<^verbatim>\<open>main\<close> removes the socket it opened, \<^verbatim>\<open>wineserver_run\<close>
  does so only when the timer ended it: after a signal or a fatal error the socket stays.\<close>
theorem embedded_run_returns:
  assumes "funnelled forkless es" "\<not> server_embedded s"
  shows "fst (server_main forkless es s) = Process_exits (run_status es) \<and>
    fst (wineserver_run forkless es s) = Returned (run_status es) \<and>
    \<not> server_embedded (snd (wineserver_run forkless es s)) \<and>
    registry_flushes (snd (wineserver_run forkless es s)) = registry_flushes (snd (server_main forkless es s)) \<and>
    (opens es \<longrightarrow> \<not> socket_file (snd (server_main forkless es s))) \<and>
    (opens es \<longrightarrow> socket_file (snd (wineserver_run forkless es s)) \<longleftrightarrow> ending es \<noteq> Some Shutdown_timer)"
proof (cases "ending es")
  case None
  with assms show ?thesis
    by (simp add: server_main_def wineserver_run_def server_body_ends run_atexit_def socket_cleanup_def run_status_def)
next
  case (Some e)
  with assms ending_ends [OF Some] show ?thesis
    by (cases e) (simp_all add: server_main_def wineserver_run_def server_body_ends run_atexit_def
        server_handlers run_status_def funnelled_def)
qed

section \<open>Witnesses\<close>

definition first_server :: server_proc where
  "first_server = \<lparr>server_embedded = False, server_exit_status = 0, jmp_live = False, at_exit = False,
     do_it_once = 0, socket_file = False, registry_flushes = 0\<rparr>"

theorem standalone_server_unchanged_witness:
  "fst (server_main False [Opens_socket, Other_work, Shutdown_timer] first_server) = Process_exits 0 \<and>
   socket_file (snd (server_main False [Opens_socket, Other_work, Shutdown_timer] first_server)) = False"
  using standalone_server_unchanged [of "[Opens_socket, Other_work, Shutdown_timer]" first_server False]
  by (simp add: timer_after_socket_def first_server_def old_server_main_def old_socket_cleanup_def)

theorem embedded_run_returns_witness:
  "fst (wineserver_run True [Opens_socket, Other_work, Terminate_signal] first_server) = Returned 1 \<and>
   socket_file (snd (wineserver_run True [Opens_socket, Other_work, Terminate_signal] first_server))"
  using embedded_run_returns [of True "[Opens_socket, Other_work, Terminate_signal]" first_server]
  by (simp add: funnelled_def first_server_def run_status_def)

section \<open>No process is started\<close>

text \<open>
  A build without fork starts none, whatever Wine's own bodies would do, and one where
  \<^verbatim>\<open>WINE_EMBEDDED_SERVER\<close> is set starts no server; a child is then refused or started
  in the process.
\<close>

lemma no_process_started:
  "processes_created (snd (start_server True e st l)) = processes_created l"
  "e ''WINE_EMBEDDED_SERVER'' \<noteq> None \<Longrightarrow> start_server forkless e st l = (fst (start_server forkless e st l), l)"
  "exec_wineloader True body l = (Client_goes_on STATUS_NOT_SUPPORTED, l)"
  "spawn_process_fork True body l = (Client_goes_on STATUS_NOT_SUPPORTED, l)"
  "unix_spawnvp True body l = (Client_goes_on STATUS_NOT_SUPPORTED, l)"
  "fork_and_exec True body l = (Client_goes_on STATUS_NOT_SUPPORTED, l)"
  "spawn_backend True requested pe_side bootstrap has_dlls \<noteq> Fork"
  by (simp_all add: start_server_def exec_wineloader_def spawn_process_fork_def unix_spawnvp_def
      fork_and_exec_def spawn_backend_def)

end
