(* ===== verification/Spec2Isabelle.thy ===== *)
theory Spec2Isabelle
  imports PprocProps PsrvProps DisplayProps DriverInputProps WineHostProps MkexeProps Substrate
    HostLoaders HostPages UserSession DriverStart DriverDump PeloadTest ServerRun
begin

text \<open>
  A verification library for the in-process Wine substrate of Crossover-IOS: the C code that
  lets Windows programs run inside one iOS app, where no process can be forked.

  \<^bold>\<open>The program.\<close> \<^verbatim>\<open>native/pseudoproc/pproc.c\<close> gives each Windows process a slot of
  a table and a group of threads instead of a process of its own.
  \<^verbatim>\<open>native/pseudoproc/psrv.c\<close> is the server thread these processes talk to over sockets
  for their handles. \<^verbatim>\<open>CrossoverPad/Sources/WineHost/WineHost.c\<close> starts a guest on a
  thread of the app and wires its standard handles;
  \<^verbatim>\<open>WineDisplayHost.c\<close> carries window surfaces and titles from the driver to the app and
  input the other way; the driver is \<^verbatim>\<open>dlls/wineios.drv\<close> in
  \<^verbatim>\<open>native/patches/0007-ios-display-driver.patch\<close>. \<^verbatim>\<open>native/wineforge/mkexe.c\<close> writes the test executables and
  \<^verbatim>\<open>native/ios/inproc_smoke.c\<close> is the harness that starts a guest in its own process;
  the exits of guests are \<^verbatim>\<open>process_exit_wrapper\<close> and \<^verbatim>\<open>abort_process\<close> in
  \<^verbatim>\<open>native/patches/0006-ios-src.patch\<close>. Wine's own process creation is rerouted by
  \<^verbatim>\<open>native/patches/0003-inproc-spawn-and-peb.patch\<close> and
  \<^verbatim>\<open>0005-forkless-build.patch\<close>: a Windows process becomes a thread with a PEB, a server
  connection, image information and a handle cache of its own in the one host process.
  The Wine server itself becomes a thread through \<^verbatim>\<open>0001-embeddable-server-shutdown.patch\<close>,
  and \<^verbatim>\<open>0002-no-fork-embedded-server.patch\<close> keeps a client from starting another.

  \<^bold>\<open>The theories.\<close>
  \<^item> \<^verbatim>\<open>Prelude\<close> (scans of fixed arrays, counting, words), \<^verbatim>\<open>Bytes\<close>
    (little-endian words), \<^verbatim>\<open>CText\<close> (\<^verbatim>\<open>strtoul\<close> and decimal output),
    \<^verbatim>\<open>Machines\<close> (executions; the locales \<open>machine\<close>, an invariant every step keeps, and
    \<open>simulation\<close>, an abstract machine that follows), \<^verbatim>\<open>Queues\<close> (the locale
    \<open>bounded_queue\<close>), \<^verbatim>\<open>IdMaps\<close> (the locales \<open>key_map\<close> and \<open>id_map\<close>: fixed tables
    as finite maps).
  \<^item> \<^verbatim>\<open>pproc.c\<close>: \<^verbatim>\<open>Pproc\<close> (struct \<open>pproc\<close>, the globals, the slot operations),
    \<^verbatim>\<open>PprocThreads\<close> (every function split where it leaves its critical section, and the
    step relation \<open>pstep\<close> of all threads), \<^verbatim>\<open>PprocInv\<close> and \<^verbatim>\<open>PprocSteps\<close> (the
    invariant and its proof, step by step), \<^verbatim>\<open>PprocRun\<close> (the machine as a function, for
    concrete runs), \<^verbatim>\<open>PprocHistory\<close> (what stays along a run), \<^verbatim>\<open>PprocProps\<close>.
  \<^item> \<^verbatim>\<open>psrv.c\<close>: \<^verbatim>\<open>PsrvHandles\<close> (the handle table, \<^verbatim>\<open>handle_request\<close> and the
    list of owners it implements), \<^verbatim>\<open>PsrvIO\<close> (\<^verbatim>\<open>read_full\<close>,
    \<^verbatim>\<open>write_full\<close>, the wire structs, \<^verbatim>\<open>psrv_call\<close>), \<^verbatim>\<open>PsrvServer\<close> (the poll
    loop, start, stop, connect), \<^verbatim>\<open>PsrvInv\<close>, \<^verbatim>\<open>PsrvProps\<close>.
  \<^item> \<^verbatim>\<open>WineDisplayHost.c\<close>, \<^verbatim>\<open>wineios_host.h\<close>: \<^verbatim>\<open>DisplayQueue\<close> (input ring,
    the waiting thread, the deadline), \<^verbatim>\<open>DisplaySurfaces\<close> (the registry), \<^verbatim>\<open>DisplayTitles\<close> (titles and UTF-8), \<^verbatim>\<open>Display\<close> (all callbacks and
    polls interleaved), \<^verbatim>\<open>DisplayProps\<close>.
  \<^item> \<^verbatim>\<open>window.c\<close> and \<^verbatim>\<open>iosdrv_main.c\<close> of the driver:
    \<^verbatim>\<open>DriverPixels\<close> (the copy a flush makes), \<^verbatim>\<open>Driver\<close> (window data, the life of a
    surface, the heap of its pixels, joined to the bridge), \<^verbatim>\<open>DriverInput\<close> (the input pump
    joined to the queue of the bridge), \<^verbatim>\<open>DriverProps\<close>, \<^verbatim>\<open>DriverInputProps\<close>,
    \<^verbatim>\<open>DriverStart\<close> (the bridge found, the size of the desktop), \<^verbatim>\<open>DriverDump\<close>
    (the image files of the test harness).
  \<^item> \<^verbatim>\<open>WineHost.c\<close>: \<^verbatim>\<open>WineHost\<close> (sessions, descriptors, pipes, environment, the
    guest thread), \<^verbatim>\<open>WineHostProps\<close>; \<^verbatim>\<open>GuestExit\<close> (the exits of a guest and
    \<^verbatim>\<open>inproc_smoke.c\<close>).
  \<^item> \<^verbatim>\<open>mkexe.c\<close> and the loader of \<^verbatim>\<open>peload_test.c\<close>: \<^verbatim>\<open>Memory\<close> (bytes
    by address), \<^verbatim>\<open>PeImage\<close> (the packed structures and their bytes), \<^verbatim>\<open>Mkexe\<close>
    (image, program, loader), \<^verbatim>\<open>MkexeProps\<close>, \<^verbatim>\<open>PeloadTest\<close> (the program around
    the loader).
  \<^item> Patches 0003, 0005: \<^verbatim>\<open>SlotTables\<close> (the tables keyed by PEB and their readers),
    \<^verbatim>\<open>InprocSpawn\<close> (the handle cache, \<^verbatim>\<open>spawn_process\<close> and
    \<^verbatim>\<open>spawn_process_inproc\<close>, the child's first thread from the handshake to its detach),
    \<^verbatim>\<open>InprocHost\<close> (the host process as a machine, its invariant), \<^verbatim>\<open>InprocInv\<close>
    (the proof), \<^verbatim>\<open>InprocFds\<close> (who holds which descriptor), \<^verbatim>\<open>InprocProps\<close>,
    \<^verbatim>\<open>HostPages\<close> (\<^verbatim>\<open>host_page_round\<close>), \<^verbatim>\<open>LoaderState\<close> (the loader's
    state of each process, \<^verbatim>\<open>loader_init\<close>), \<^verbatim>\<open>HostLoaders\<close> (the two joined in the
    PEBs); patch 0004: \<^verbatim>\<open>UserSession\<close> (\<^verbatim>\<open>init_user_process\<close>).
  \<^item> Patches 0001, 0002, 0005: \<^verbatim>\<open>ServerRun\<close> (the exits of the Wine server before and after
    the patch, \<^verbatim>\<open>main\<close> and \<^verbatim>\<open>wineserver_run\<close>, the refusals to start a process).
  \<^item> \<^verbatim>\<open>Substrate\<close> joins processes and handle server; the property of their joint runs is
    in this theory.

  \<^bold>\<open>How state is modelled.\<close> A C struct is a record with the field names of the source
  (prefixed where two structs share one), a fixed array a list of that length, a counter a
  word where its width matters and an \<open>int\<close> or \<open>nat\<close> where the code keeps it in range, which
  is then proved. A function whose body is one critical section is one definition; a function
  that unlocks and goes on, waits or calls out is several, and the step relations let every
  other thread run in between. What the system answers (a failing \<^verbatim>\<open>pthread_create\<close>, the
  bytes a read returns, the descriptors of a pipe) is an argument, so properties hold for every
  answer.

  \<^bold>\<open>What the lemmas show.\<close> For \<^verbatim>\<open>pproc.c\<close>: the invariant over all interleavings, and from
  it that a live thread always has its process, that waits return the code of the first exit,
  that no signal is lost and that waits and drains end. For \<^verbatim>\<open>psrv.c\<close>: the table refines
  a list of owners, transfers lose no byte, a call is a remote \<^verbatim>\<open>handle_request\<close>, the client
  table is sound through every step of \<^verbatim>\<open>psrv_stop\<close>. For the display: the registry refines a map, a removed surface is not touched,
  polling misses nothing, titles and input come through in order. For the driver: the callbacks it makes, which
  its own code determines, keep the contract the bridge states (\<open>driver_ok\<close>), the app reads only pixels that are allocated and
  published, a flush arrives as painted, input reaches the window it was meant for. For the sessions: wiring,
  error paths, what the app is told of an ended guest. For the in-process spawn: each child talks to the
  server on its own connection, children share no image information and no handles (a refinement
  to one map of handles per process), a failed spawn leaves nothing, a detach closes what was the
  child's and nothing else, each process has its own loader state, joined to the spawn that clears
  the pointer to it, and sets its session up once. For the server: the standalone program is as it
  was, the embedded one returns where that exits. For \<^verbatim>\<open>mkexe\<close>: from the command line
  to the code the entry point returns, at every base. Some properties state where the code does
  less than it means to: a second waiter, handles of pid 0, a stop between the two halves of a
  connect, a connect between the two halves of a stop, titles that are never reclaimed, sessions that are never finished, a session
  released under its guest (its address is given out again and the old guest marks the new session
  finished, so that what an ended session means is claimed of an app that releases a session
  only when its thread has ended), a surface whose pixels
  cannot be allocated, the 64th child of a host, the exit of a running child, the exit
  of the first process, the socket of an embedded server that is terminated.

  \<^bold>\<open>Bounds and fuel.\<close> The array sizes are those of the code (256 processes, 128 clients, 4096
  handles, 32 surfaces and titles, 256 units, 512 events). No definition has fuel: the socket
  loops run along a finite schedule of what the kernel does, \<open>None\<close> when it ends while the call
  still blocks, and are proved to return when the schedule has enough progress; the walk over
  relocation blocks is a partial function, \<open>None\<close> when it does not end, and is proved to return
  on the images considered. Properties of \<^verbatim>\<open>pproc.c\<close> assume that a process has one waiter
  and that the 32-bit pid counter does not wrap (\<open>pfair\<close>); what happens otherwise is shown
  separately. Those of the handle table assume that the 64-bit handle counter does not wrap
  (\<open>counter_ok\<close>), those of the server's life that one thread starts and stops it. That of a
  child's detach assumes room in the table of server sockets (\<open>roomy_step\<close>); the child that
  finds no room is treated on its own.

  \<^bold>\<open>Not modelled.\<close> The Swift application, the shell scripts, workflows and tests. Of the
  patches on the Wine submodule what surrounds the patched lines, which is not under the repository's
  own sources: what the server does between its start and its end is a course of events, what a
  function that forks does in a build that has it is an argument. The exits of a guest are
  those of patch 0006: \<^verbatim>\<open>fatal_error\<close> and the \<^verbatim>\<open>exit\<close> calls of
  \<^verbatim>\<open>start_server\<close> (patches 0002 and 0005) still end the host, and nothing is claimed of
  them. Of the in-process spawn, a spawn is
  one step (its locks are taken one after the other, for a PEB that nobody else knows), a child is followed by its first thread, and what Wine does between the
  steps is an answer. Of the driver that the bridge is absent
  (headless). Of Wine's own code the driver model uses that a surface is flushed only while it
  is referenced and destroyed once. The memory model is sequentially consistent: the code shares
  data under mutexes and through atomics only. Text written to the standard error is left out
  where nothing depends on it.
\<close>

text \<open>C2: a handle belongs to the process that asked for it: in every joint run of process
  threads and handle requests, the entry of a handle that was granted to a thread keeps, in
  whatever follows, the pid of the thread's process; while the thread lives the process table
  finds that very process under the pid; and as long as the table has room, any client can
  duplicate the handle.\<close>
theorem granted_handle_owned:
  assumes "execution sub_step (start_sys n, fresh_htab) tr (s, h)"
    and "sub_step (s, h) (Request t opr arg r) (s1, h1)"
    and "opr = PSRV_NEW_HANDLE \<or> opr = PSRV_DUP_HANDLE" "rp_status r = 0"
    and "execution sub_step (s1, h1) tr' (s', h')"
  shows "owner h' (rp_value r) = pproc_getpid s t \<and> pproc_getpid s t \<noteq> PPROC_INVALID_PID \<and>
    (alive (thr_of s' t) \<longrightarrow> find_locked (g s') (owner h' (rp_value r)) = current (thr_of s' t)) \<and>
    (unat (next_handle h') < MAX_HANDLES \<longrightarrow>
       rp_status (fst (handle_request
         \<lparr>rq_op = PSRV_DUP_HANDLE, rq_pid = p, rq_arg = rp_value r\<rparr> h')) = 0)"
proof -
  have inv: "sub_inv (s, h)" using sub.reachable_inv [OF _ assms(1)] by blast
  then have inv1: "sub_inv (s1, h1)" using assms(2) by (rule sub.inv_step)
  from assms(5) this have inv': "sub_inv (s', h')" by (rule sub.execution_inv)
  from assms(2) obtain i where live: "s1 = s" "t < length (threads s)" "alive (thr_of s t)"
    "current (thr_of s t) = Some i" by (auto simp del: current.simps)
  have held: "holds_entry (rp_value r) (pproc_getpid s t) h'"
    using sub_holds [OF assms(5) inv1] request_grants [OF inv assms(2-4)] by simp
  have pid: "pproc_getpid s t \<noteq> 0" "pproc_getpid s t = p_pid (sl s i)"
    using alive_running(4,5) [of s t i] inv live(2-4) by (simp_all add: sub_inv_def del: current.simps)
  have "find_locked (g s') (pproc_getpid s t) = current (thr_of s' t)" if al: "alive (thr_of s' t)"
  proof -
    from sub_threads [OF assms(5)] live(1) obtain ks where ks: "execution pfair s ks s'" by auto
    note ctx = fair_context [OF ks _ live(2-4)]
    have "pproc_inv s" "pproc_inv s'" using inv inv' by (simp_all add: sub_inv_def)
    with ctx al have c: "current (thr_of s' t) = Some i" "t < length (threads s')"
      "same_process (sl s i) (sl s' i)" by auto
    with alive_running [OF \<open>pproc_inv s'\<close> c(2) al c(1)] find_locked_unique [OF \<open>pproc_inv s'\<close>, of i] pid(2)
    show ?thesis by (simp add: same_process_def del: current.simps)
  qed
  with held pid holds_duplicable [OF held pid(1)] show ?thesis
    by (auto simp: holds_entry_def simp del: current.simps)
qed

text \<open>The auxiliary thread of the demonstration run asks for a handle while its process lives.\<close>

theorem granted_handle_owned_witness:
  "\<exists>r h1. sub_step (demo_at 4, fresh_htab) (Request 1 PSRV_NEW_HANDLE 0 r) (demo_at 4, h1) \<and>
     owner h1 (rp_value r) = pproc_getpid (demo_at 4) 1 \<and> pproc_getpid (demo_at 4) 1 \<noteq> 0"
proof -
  have live: "1 < length (threads (demo_at 4))" "alive (thr_of (demo_at 4) 1)"
    "current (thr_of (demo_at 4) 1) \<noteq> None"
    by (simp_all add: demo_simps alive_def)
  let ?r = "handle_request \<lparr>rq_op = PSRV_NEW_HANDLE, rq_pid = pproc_getpid (demo_at 4) 1, rq_arg = 0\<rparr> fresh_htab"
  have st: "sub_step (demo_at 4, fresh_htab) (Request 1 PSRV_NEW_HANDLE 0 (fst ?r)) (demo_at 4, snd ?r)"
    using live by (simp add: fresh_htab_def del: current.simps)
  have ok: "rp_status (fst ?r) = 0"
    by (simp add: handle_request_def grant_def Let_def fresh_htab_def zero_reply_def)
  have "owner (snd ?r) (rp_value (fst ?r)) = pproc_getpid (demo_at 4) 1 \<and> pproc_getpid (demo_at 4) 1 \<noteq> 0"
    using granted_handle_owned [OF sub_proc_run [OF demo_exec] st disjI1 [OF refl] ok stop] by blast
  with st show ?thesis by blast
qed

end
